(* ===== verification/Aesd_Prelude.thy ===== *)
theory Aesd_Prelude
  imports Main "HOL-Library.Word" "HOL-Library.Multiset"
begin

text \<open>
  Shared vocabulary of the development: the machine types of the C sources, pointers and
  memory faults, a block-structured memory with the loads, stores and frees the C code
  performs on it, and the list and word lemmas the component theories rest on.

  \<^item> \<open>u8\<close>, \<open>u32\<close>, \<open>u64\<close> are \<open>uint8_t\<close>, \<open>uint32_t\<close>/\<open>unsigned int\<close> and \<open>size_t\<close>/\<open>loff_t\<close>;
    their arithmetic wraps, a signed reading is \<open>sint\<close>. A C \<open>char\<close> is an Isabelle
    \<open>char\<close> (one byte).
  \<^item> A pointer is \<open>NULL\<close> or the address of a block. Pointer arithmetic inside a block is
    an explicit offset.
  \<^item> An operation that C leaves undefined (reading through \<open>NULL\<close>, a freed block or past
    the end of a block, freeing twice, overflowing an \<open>int\<close>) is a value \<open>Inl f\<close> of
    type \<open>fault + 'a\<close>; \<open>ebind\<close> sequences such operations and stops at the first fault.
    ``The code never faults'' is then a theorem about \<open>Inr\<close>.
\<close>

section \<open>Machine types\<close>

type_synonym u8 = "8 word"
type_synonym u32 = "32 word"
type_synonym u64 = "64 word"
type_synonym bytes = "char list"

abbreviation newline :: char where "newline \<equiv> CHR 0x0A"
abbreviation nul :: char where "nul \<equiv> CHR 0x00"

named_theorems mem_simps \<open>unfolding of the memory primitives\<close>
named_theorems wf_intros \<open>preservation of well-formedness by the operations\<close>

text \<open>Conversion of a wider signed value to \<open>int\<close>.\<close>

definition to_int :: "int \<Rightarrow> int" where
  "to_int x = signed_take_bit 31 x"

lemma to_int_id [simp]: "- (2 ^ 31) \<le> x \<Longrightarrow> x < 2 ^ 31 \<Longrightarrow> to_int x = x"
  unfolding to_int_def by (rule signed_take_bit_int_eq_self) auto

section \<open>Faults\<close>

datatype fault =
    Null_Deref        \<comment> \<open>access through a null pointer\<close>
  | Dangling          \<comment> \<open>access to or free of a block that is not allocated\<close>
  | Out_Of_Bounds     \<comment> \<open>access past the end of a block or array\<close>
  | Int_Overflow      \<comment> \<open>overflow of a signed integer\<close>

definition ebind :: "'e + 'a \<Rightarrow> ('a \<Rightarrow> 'e + 'b) \<Rightarrow> 'e + 'b" where
  "ebind m f = (case m of Inl e \<Rightarrow> Inl e | Inr x \<Rightarrow> f x)"

lemma ebind_simps [simp]:
  "ebind (Inl e) f = Inl e"
  "ebind (Inr x) f = f x"
  by (simp_all add: ebind_def)

lemma ebind_eq_Inr: "ebind m f = Inr y \<longleftrightarrow> (\<exists>x. m = Inr x \<and> f x = Inr y)"
  by (cases m) simp_all

lemma ebind_eq_InrE [elim]:
  assumes "ebind m f = Inr y" obtains x where "m = Inr x" "f x = Inr y"
  using assms by (auto simp: ebind_eq_Inr)

lemma ebind_cong [fundef_cong]:
  "m = m' \<Longrightarrow> (\<And>x. m' = Inr x \<Longrightarrow> f x = g x) \<Longrightarrow> ebind m f = ebind m' g"
  by (cases m') simp_all

lemma ebind_assoc: "ebind (ebind m f) g = ebind m (\<lambda>x. ebind (f x) g)"
  by (cases m) simp_all

section \<open>Pointers and memory\<close>

datatype ptr = NULL | Ptr nat

type_synonym mem = "nat \<rightharpoonup> bytes"

text \<open>The block a pointer designates.\<close>

definition block :: "mem \<Rightarrow> ptr \<Rightarrow> fault + bytes" where
  "block m p = (case p of NULL \<Rightarrow> Inl Null_Deref
     | Ptr a \<Rightarrow> (case m a of None \<Rightarrow> Inl Dangling | Some bs \<Rightarrow> Inr bs))"

text \<open>Reading \<open>n\<close> bytes at \<open>p + off\<close>, reading one byte, and overwriting bytes at \<open>p + off\<close>.\<close>

definition load_range :: "mem \<Rightarrow> ptr \<Rightarrow> nat \<Rightarrow> nat \<Rightarrow> fault + bytes" where
  "load_range m p off n =
     ebind (block m p) (\<lambda>bs. if off + n \<le> length bs then Inr (take n (drop off bs))
                             else Inl Out_Of_Bounds)"

definition load_byte :: "mem \<Rightarrow> ptr \<Rightarrow> nat \<Rightarrow> fault + char" where
  "load_byte m p i =
     ebind (block m p) (\<lambda>bs. if i < length bs then Inr (bs ! i) else Inl Out_Of_Bounds)"

definition overwrite :: "bytes \<Rightarrow> nat \<Rightarrow> bytes \<Rightarrow> bytes" where
  "overwrite bs off ds = take off bs @ ds @ drop (off + length ds) bs"

definition store_range :: "mem \<Rightarrow> ptr \<Rightarrow> nat \<Rightarrow> bytes \<Rightarrow> fault + mem" where
  "store_range m p off ds =
     (case p of NULL \<Rightarrow> Inl Null_Deref
      | Ptr a \<Rightarrow> (case m a of None \<Rightarrow> Inl Dangling
         | Some bs \<Rightarrow> if off + length ds \<le> length bs then Inr (m(a \<mapsto> overwrite bs off ds))
                      else Inl Out_Of_Bounds))"

text \<open>
  \<open>free\<close>/\<open>kfree\<close>, for any kind of block: freeing \<open>NULL\<close> does nothing, freeing a block
  that is not allocated is a fault.
\<close>

definition kfree :: "(nat \<rightharpoonup> 'b) \<Rightarrow> ptr \<Rightarrow> fault + (nat \<rightharpoonup> 'b)" where
  "kfree m p = (case p of NULL \<Rightarrow> Inr m
     | Ptr a \<Rightarrow> (case m a of None \<Rightarrow> Inl Dangling | Some _ \<Rightarrow> Inr (m(a := None))))"

lemma block_simps [simp]:
  "block m NULL = Inl Null_Deref"
  "m a = Some bs \<Longrightarrow> block m (Ptr a) = Inr bs"
  "m a = None \<Longrightarrow> block m (Ptr a) = Inl Dangling"
  by (simp_all add: block_def)

lemma load_range_live [mem_simps]:
  "m a = Some bs \<Longrightarrow> off + n \<le> length bs \<Longrightarrow> load_range m (Ptr a) off n = Inr (take n (drop off bs))"
  by (simp add: load_range_def)

lemma load_byte_live [mem_simps]:
  "m a = Some bs \<Longrightarrow> i < length bs \<Longrightarrow> load_byte m (Ptr a) i = Inr (bs ! i)"
  by (simp add: load_byte_def)

lemma store_range_live [mem_simps]:
  "m a = Some bs \<Longrightarrow> off + length ds \<le> length bs \<Longrightarrow>
     store_range m (Ptr a) off ds = Inr (m(a \<mapsto> overwrite bs off ds))"
  by (simp add: store_range_def)

lemma kfree_simps [simp, mem_simps]:
  "kfree m NULL = Inr m"
  "m a = Some b \<Longrightarrow> kfree m (Ptr a) = Inr (m(a := None))"
  "m a = None \<Longrightarrow> kfree m (Ptr a) = Inl Dangling"
  by (simp_all add: kfree_def)

lemma length_overwrite [simp]:
  "off + length ds \<le> length bs \<Longrightarrow> length (overwrite bs off ds) = length bs"
  by (simp add: overwrite_def)

lemma take_overwrite_before [simp]:
  "n \<le> off \<Longrightarrow> off \<le> length bs \<Longrightarrow> take n (overwrite bs off ds) = take n bs"
  by (simp add: overwrite_def min_def)

lemma take_overwrite_through [simp]:
  "off \<le> length bs \<Longrightarrow> take (off + length ds) (overwrite bs off ds) = take off bs @ ds"
  by (simp add: overwrite_def)

lemma nth_overwrite:
  "off + length ds \<le> length bs \<Longrightarrow> i < length bs \<Longrightarrow>
     overwrite bs off ds ! i = (if off \<le> i \<and> i < off + length ds then ds ! (i - off) else bs ! i)"
  by (auto simp: overwrite_def nth_append min_def)

lemma block_upd: "block (m(a := v)) p = (if p = Ptr a then (case v of None \<Rightarrow> Inl Dangling | Some bs \<Rightarrow> Inr bs)
    else block m p)"
  by (auto simp: block_def split: ptr.splits)

lemma block_InrE [elim]:
  assumes "block m p = Inr bs" obtains a where "p = Ptr a" "m a = Some bs"
  using assms by (auto simp: block_def split: ptr.splits option.splits)

lemma store_range_block:
  "block m p = Inr bs \<Longrightarrow> off + length ds \<le> length bs \<Longrightarrow>
     \<exists>m'. store_range m p off ds = Inr m' \<and> block m' p = Inr (overwrite bs off ds) \<and>
          (\<forall>q. q \<noteq> p \<longrightarrow> block m' q = block m q) \<and> dom m' = dom m"
  by (elim block_InrE) (auto simp: store_range_live block_upd)

lemma kfree_block:
  "block m p = Inr bs \<Longrightarrow>
     \<exists>m'. kfree m p = Inr m' \<and> (\<forall>q. q \<noteq> p \<longrightarrow> block m' q = block m q) \<and> dom m' = {a \<in> dom m. Ptr a \<noteq> p}"
  by (elim block_InrE) (auto simp: block_upd)

section \<open>Lists\<close>

text \<open>The last \<open>n\<close> elements of a list: what a bounded log of capacity \<open>n\<close> remembers.\<close>

definition last_n :: "nat \<Rightarrow> 'a list \<Rightarrow> 'a list" where
  "last_n n xs = drop (length xs - n) xs"

lemma length_last_n [simp]: "length (last_n n xs) = min n (length xs)"
  by (simp add: last_n_def)

lemma last_n_short [simp]: "length xs \<le> n \<Longrightarrow> last_n n xs = xs"
  by (simp add: last_n_def)

lemma last_n_last_n_append: "last_n n (last_n n xs @ ys) = last_n n (xs @ ys)"
  by (cases "length xs \<le> n") (simp_all add: last_n_def add.commute)

lemma last_n_Suc_full: "length xs = n \<Longrightarrow> 0 < n \<Longrightarrow> last_n n (xs @ [x]) = tl xs @ [x]"
  by (cases xs) (simp_all add: last_n_def)

lemma last_n_map: "last_n n (map f xs) = map f (last_n n xs)"
  by (simp add: last_n_def drop_map)

lemma distinct_last_n: "distinct xs \<Longrightarrow> distinct (last_n n xs)"
  by (simp add: last_n_def)

lemma set_last_n: "set (last_n n xs) \<subseteq> set xs"
  by (simp add: last_n_def set_drop_subset)

text \<open>
  Locating a position in a sequence of segments given by their sizes: which segment it
  falls in, and at which offset inside that segment.
\<close>

fun locate :: "nat list \<Rightarrow> nat \<Rightarrow> (nat \<times> nat) option" where
  "locate [] n = None"
| "locate (s # ss) n =
     (if n < s then Some (0, n) else map_option (\<lambda>(j, r). (Suc j, r)) (locate ss (n - s)))"

lemma locate_None_iff: "locate ss n = None \<longleftrightarrow> sum_list ss \<le> n"
  by (induction ss arbitrary: n) (simp_all add: le_diff_conv2 add.commute)

lemma locate_Some_iff:
  "locate ss n = Some (j, r) \<longleftrightarrow>
     j < length ss \<and> r < ss ! j \<and> n = sum_list (take j ss) + r"
proof (induction ss arbitrary: n j)
  case Nil
  then show ?case by simp
next
  case (Cons s ss)
  show ?case
  proof (cases "n < s")
    case True
    then show ?thesis by (cases j) auto
  next
    case False
    then have "locate (s # ss) n = Some (j, r) \<longleftrightarrow> (\<exists>i. j = Suc i \<and> locate ss (n - s) = Some (i, r))"
      by auto
    also have "\<dots> \<longleftrightarrow> (\<exists>i. j = Suc i \<and> i < length ss \<and> r < ss ! i \<and> n - s = sum_list (take i ss) + r)"
      by (simp only: Cons.IH)
    also have "\<dots> \<longleftrightarrow> j < length (s # ss) \<and> r < (s # ss) ! j \<and> n = sum_list (take j (s # ss)) + r"
      using False by (cases j) (simp_all, linarith)
    finally show ?thesis .
  qed
qed

lemma drop_concat_locate:
  assumes "locate (map length xss) n = Some (j, r)"
  shows "drop n (concat xss) = drop r (xss ! j) @ concat (drop (Suc j) xss)"
  using assms
proof (induction xss arbitrary: n j)
  case Nil
  then show ?case by simp
next
  case (Cons xs xss)
  then show ?case by (cases "n < length xs") auto
qed

lemma sum_list_le_length: "(\<And>s. s \<in> set ss \<Longrightarrow> s \<le> b) \<Longrightarrow> sum_list ss \<le> length ss * (b :: nat)"
  by (induction ss) (auto simp: add_mono)

lemma last_take_conv: "0 < n \<Longrightarrow> n \<le> length xs \<Longrightarrow> last (take n xs) = xs ! (n - 1)"
  by (subst last_conv_nth) auto

lemma nth_in_drop: "k \<le> j \<Longrightarrow> j < length xs \<Longrightarrow> xs ! j \<in> set (drop k xs)"
  using nth_mem [of "j - k" "drop k xs"] by simp

lemma length_takeWhile_less_iff: "length (takeWhile P xs) < length xs \<longleftrightarrow> (\<exists>x \<in> set xs. \<not> P x)"
  by (induction xs) auto

lemma takeWhile_all_append: "(\<And>x. x \<in> set xs \<Longrightarrow> P x) \<Longrightarrow> takeWhile P (xs @ ys) = xs @ takeWhile P ys"
  by (rule takeWhile_append2)

lemma mset_rotate: "mset (rotate n xs) = mset xs"
proof (induction n)
  case (Suc n)
  then show ?case by (cases "rotate n xs") (simp_all add: rotate_Suc)
qed simp

section \<open>Words\<close>

lemma unat_add_no_wrap:
  "unat (x :: 'a::len word) + unat y < 2 ^ LENGTH('a) \<Longrightarrow> unat (x + y) = unat x + unat y"
  by (simp add: unat_word_ariths)

lemma unat_sub_le: "y \<le> (x :: 'a::len word) \<Longrightarrow> unat (x - y) = unat x - unat y"
  by (rule unat_sub)

lemma unat_inc_u8: "unat (x :: u8) < 255 \<Longrightarrow> unat (x + 1) = Suc (unat x)"
  by (simp add: unat_word_ariths)

lemma sint_unat_small: "unat (x :: u64) < 2 ^ 63 \<Longrightarrow> sint x = int (unat x)"
proof -
  assume "unat x < 2 ^ 63"
  then have "int (unat x) < 2 ^ 63" unfolding of_nat_less_iff [where 'a = int, symmetric] by (simp only: of_nat_power of_nat_numeral)
  then have "uint x < 2 ^ 63" by (simp only: uint_nat)
  moreover have "0 \<le> uint x" by simp
  ultimately have "signed_take_bit 63 (uint x) = uint x"
    by (intro signed_take_bit_int_eq_self) linarith+
  then show ?thesis by (simp add: sint_uint)
qed

lemma sint_of_nat_small: "n < 2 ^ 63 \<Longrightarrow> sint (of_nat n :: u64) = int n"
  by (subst sint_unat_small) (simp_all add: unat_of_nat)

lemma unat_of_nat_u64: "n < 2 ^ 64 \<Longrightarrow> unat (of_nat n :: u64) = n"
  by (simp add: unat_of_nat)

lemma unat_of_nat_u32: "n < 2 ^ 32 \<Longrightarrow> unat (of_nat n :: u32) = n"
  by (simp add: unat_of_nat)

text \<open>Accumulating sizes in a word adds them up modulo the word's range.\<close>

lemma foldl_add_word:
  "foldl (\<lambda>s i. s + f i) a xs = a + of_nat (sum_list (map (\<lambda>i. unat (f i :: 'a::len word)) xs))"
  by (induction xs arbitrary: a) (simp_all add: add.assoc)

lemma unat_ucast_u32_u64 [simp]: "unat (ucast (x :: u32) :: u64) = unat x"
proof -
  have "unat x < 2 ^ 32" using unsigned_less [of x, where ?'a = nat] by simp
  then have "take_bit 64 (unat x) = unat x" by (intro take_bit_nat_eq_self) simp
  then show ?thesis by (simp add: unsigned_ucast_eq)
qed

end
