(* ===== verification/Log_Spec.thy ===== *)
theory Log_Spec
  imports Aesd_Prelude
begin

text \<open>
  The contracts of a log of recent entries, as the driver relies on them.

  \<^item> \<open>bounded_log\<close>: a container that keeps the last \<open>cap\<close> entries added to it and hands the
    evicted one back, so that its owner can release it.
  \<^item> \<open>seekable_log\<close>: in addition, a byte position of the concatenated entries can be
    translated to an entry and an offset inside it.

  The lemmas inside the locales are what a client may use without knowing how the
  container is laid out; the circular buffer interprets both.
\<close>

locale bounded_log =
  fixes invar :: "'b \<Rightarrow> bool"
    and items :: "'b \<Rightarrow> 'e list"
    and empty :: "'b"
    and add :: "'b \<Rightarrow> 'e \<Rightarrow> 'f + ('b \<times> 'p)"
    and handle :: "'e \<Rightarrow> 'p"
    and no_handle :: "'p"
    and cap :: nat
  assumes cap_pos: "0 < cap"
    and invar_empty: "invar empty"
    and items_empty: "items empty = []"
    and length_items: "invar b \<Longrightarrow> length (items b) \<le> cap"
    and add_law: "invar b \<Longrightarrow> \<exists>b'. add b e = Inr (b',
           if length (items b) = cap then handle (hd (items b)) else no_handle)
         \<and> invar b' \<and> items b' = last_n cap (items b @ [e])"
begin

lemma add_never_fails: "invar b \<Longrightarrow> \<exists>b' p. add b e = Inr (b', p)"
  using add_law by blast

lemma add_spec:
  assumes "invar b" "add b e = Inr (b', p)"
  shows "invar b' \<and> items b' = last_n cap (items b @ [e])
     \<and> p = (if length (items b) = cap then handle (hd (items b)) else no_handle)"
  using add_law [OF assms(1), of e] assms(2) by auto

lemma add_invar: "invar b \<Longrightarrow> add b e = Inr (b', p) \<Longrightarrow> invar b'"
  by (simp add: add_spec)

lemma add_items: "invar b \<Longrightarrow> add b e = Inr (b', p) \<Longrightarrow> items b' = last_n cap (items b @ [e])"
  by (simp add: add_spec)

lemma add_evicts:
  "invar b \<Longrightarrow> add b e = Inr (b', p) \<Longrightarrow>
     p = (if length (items b) = cap then handle (hd (items b)) else no_handle)"
  by (simp add: add_spec)

text \<open>Adding a whole sequence of entries.\<close>

fun add_all :: "'b \<Rightarrow> 'e list \<Rightarrow> 'f + 'b" where
  "add_all b [] = Inr b"
| "add_all b (e # es) = ebind (add b e) (\<lambda>(b', _). add_all b' es)"

lemma add_all_law:
  "invar b \<Longrightarrow> \<exists>b'. add_all b es = Inr b' \<and> invar b' \<and> items b' = last_n cap (items b @ es)"
proof (induction es arbitrary: b)
  case Nil
  then show ?case using length_items by (auto simp: last_n_short)
next
  case (Cons e es)
  obtain b' p where a: "add b e = Inr (b', p)"
    using add_never_fails [OF Cons.prems] by blast
  note i = add_invar [OF Cons.prems a] and it = add_items [OF Cons.prems a]
  from Cons.IH [OF i] obtain b'' where "add_all b' es = Inr b''" "invar b''"
    "items b'' = last_n cap (items b' @ es)" by blast
  with a it show ?case by (auto simp: last_n_last_n_append)
qed

lemma add_all_empty:
  obtains b' where "add_all empty es = Inr b'" "invar b'" "items b' = last_n cap es"
  using add_all_law [OF invar_empty, of es] by (auto simp: items_empty)

end

locale seekable_log = bounded_log invar items empty add handle no_handle cap
  for invar :: "'b \<Rightarrow> bool"
    and items :: "'b \<Rightarrow> 'e list"
    and empty :: "'b"
    and add :: "'b \<Rightarrow> 'e \<Rightarrow> 'f + ('b \<times> 'p)"
    and handle :: "'e \<Rightarrow> 'p"
    and no_handle :: "'p"
    and cap :: nat +
  fixes len :: "'e \<Rightarrow> nat"
    and pos :: "'n \<Rightarrow> nat"
    and find :: "'b \<Rightarrow> 'n \<Rightarrow> ('e \<times> 'n) option"
  assumes find_law: "invar b \<Longrightarrow> map_option (map_prod id pos) (find b n) =
      map_option (\<lambda>(j, r). (items b ! j, r)) (locate (map len (items b)) (pos n))"
begin

lemma find_SomeE:
  assumes "invar b" "find b n = Some (e, r)"
  obtains j where "locate (map len (items b)) (pos n) = Some (j, pos r)" "e = items b ! j"
    "j < length (items b)"
proof -
  from find_law [OF assms(1), of n] assms(2) obtain j where
    l: "locate (map len (items b)) (pos n) = Some (j, pos r)" and e: "e = items b ! j"
    by (auto dest: sym)
  moreover from l have "j < length (items b)" by (simp add: locate_Some_iff)
  ultimately show thesis by (rule that)
qed

lemma find_None_iff: "invar b \<Longrightarrow> find b n = None \<longleftrightarrow> sum_list (map len (items b)) \<le> pos n"
  using find_law [of b n] by (cases "find b n") (auto simp: locate_None_iff [symmetric] dest!: sym [of "Some _"])

lemma find_in_items: "invar b \<Longrightarrow> find b n = Some (e, r) \<Longrightarrow> e \<in> set (items b)"
  by (auto elim!: find_SomeE)

lemma find_offset: "invar b \<Longrightarrow> find b n = Some (e, r) \<Longrightarrow> pos r < len e"
  by (auto elim!: find_SomeE simp: locate_Some_iff)

text \<open>
  For entries that denote byte strings of their length, the entry found at a position
  holds exactly the bytes that follow that position in the concatenation.
\<close>

lemma find_content:
  assumes i: "invar b" and f: "find b n = Some (e, r)"
    and len: "\<And>e. e \<in> set (items b) \<Longrightarrow> length (content e) = len e"
  shows "\<exists>rest. drop (pos n) (concat (map content (items b))) = drop (pos r) (content e) @ rest"
proof -
  from i f obtain j where
    l: "locate (map len (items b)) (pos n) = Some (j, pos r)" and e: "e = items b ! j"
    and j: "j < length (items b)" by (rule find_SomeE)
  have "map len (items b) = map length (map content (items b))"
    using len by simp
  with l have "locate (map length (map content (items b))) (pos n) = Some (j, pos r)" by simp
  from drop_concat_locate [OF this] e j show ?thesis by auto
qed

end

end
