(* ===== verification/Circular_Buffer.thy ===== *)
theory Circular_Buffer
  imports Log_Spec
begin

text \<open>
  The circular buffer of \<open>aesd-char-driver/aesd-circular-buffer.c\<close> and \<open>.h\<close>: its two
  structs, the three functions, the \<open>FOREACH\<close> iteration, the well-formedness invariant
  and the refinement to the list of live entries, oldest first. The last section
  interprets the contracts of \<open>Log_Spec\<close> on these definitions.
\<close>

section \<open>Data\<close>

abbreviation (input) AESDCHAR_MAX_WRITE_OPERATIONS_SUPPORTED :: "'a::numeral" where
  "AESDCHAR_MAX_WRITE_OPERATIONS_SUPPORTED \<equiv> 10"

record aesd_buffer_entry =
  buffptr :: ptr
  esize :: u64    \<comment> \<open>the field \<open>size\<close>\<close>

record aesd_circular_buffer =
  entry :: "aesd_buffer_entry list"   \<comment> \<open>an array of 10 entries\<close>
  in_offs :: u8
  out_offs :: u8
  full :: bool

text \<open>An entry and a buffer of zero bytes, as \<open>memset\<close> and \<open>kzalloc\<close> leave them.\<close>

definition zero_entry :: aesd_buffer_entry where
  "zero_entry = \<lparr>buffptr = NULL, esize = 0\<rparr>"

section \<open>Operations\<close>

definition aesd_circular_buffer_init :: aesd_circular_buffer where
  "aesd_circular_buffer_init =
     \<lparr>entry = replicate AESDCHAR_MAX_WRITE_OPERATIONS_SUPPORTED zero_entry,
      in_offs = 0, out_offs = 0, full = False\<rparr>"

definition entry_count :: "aesd_circular_buffer \<Rightarrow> nat" where
  "entry_count cb =
     (if full cb then AESDCHAR_MAX_WRITE_OPERATIONS_SUPPORTED else unat (in_offs cb))"

text \<open>The index of the \<open>i\<close>-th live entry, as the loop computes it in \<open>int\<close>.\<close>

definition entry_index :: "aesd_circular_buffer \<Rightarrow> nat \<Rightarrow> nat" where
  "entry_index cb i = (unat (out_offs cb) + i) mod AESDCHAR_MAX_WRITE_OPERATIONS_SUPPORTED"

text \<open>
  The loop of \<open>aesd_circular_buffer_find_entry_offset_for_fpos\<close>. The pointer it returns
  is the array index of the entry; the offset stored through \<open>entry_offset_byte_rtn\<close> is
  the second component.
\<close>

function find_entry_loop :: "aesd_circular_buffer \<Rightarrow> nat \<Rightarrow> u64 \<Rightarrow> (nat \<times> u64) option" where
  "find_entry_loop cb i char_offset =
     (if i < entry_count cb then
        (let k = entry_index cb i; e = entry cb ! k in
         if char_offset < esize e then Some (k, char_offset)
         else find_entry_loop cb (Suc i) (char_offset - esize e))
      else None)"
  by pat_completeness auto
termination
  by (relation "measure (\<lambda>(cb, i, _). entry_count cb - i)") auto

declare find_entry_loop.simps [simp del]

definition aesd_circular_buffer_find_entry_offset_for_fpos ::
  "aesd_circular_buffer \<Rightarrow> u64 \<Rightarrow> (nat \<times> u64) option" where
  "aesd_circular_buffer_find_entry_offset_for_fpos cb char_offset = find_entry_loop cb 0 char_offset"

definition aesd_circular_buffer_add_entry ::
  "aesd_circular_buffer \<Rightarrow> aesd_buffer_entry \<Rightarrow> fault + (aesd_circular_buffer \<times> ptr)" where
  "aesd_circular_buffer_add_entry cb add_entry =
     (if unat (in_offs cb) < length (entry cb) then
        (let i = unat (in_offs cb);
             rptr = buffptr (entry cb ! i);
             cb1 = cb\<lparr>entry := (entry cb)[i := add_entry]\<rparr>;
             cb2 = cb1\<lparr>in_offs := in_offs cb1 + 1\<rparr>;
             cb3 = (if in_offs cb2 = AESDCHAR_MAX_WRITE_OPERATIONS_SUPPORTED
                    then cb2\<lparr>full := True, in_offs := 0\<rparr> else cb2);
             cb4 = (if full cb3 then cb3\<lparr>out_offs := in_offs cb3\<rparr> else cb3)
         in Inr (cb4, rptr))
      else Inl Out_Of_Bounds)"

text \<open>The entries \<open>AESD_CIRCULAR_BUFFER_FOREACH\<close> visits, in the order it visits them.\<close>

definition foreach_entries :: "aesd_circular_buffer \<Rightarrow> aesd_buffer_entry list" where
  "foreach_entries cb =
     map (\<lambda>i. entry cb ! i) [0..<AESDCHAR_MAX_WRITE_OPERATIONS_SUPPORTED]"

section \<open>Well-formedness and the list of live entries\<close>

text \<open>
  The invariant the three functions maintain: the offsets index the array, a full buffer
  reads where it writes next, and a buffer that is not full starts at slot 0 and has
  only zero entries from \<open>in_offs\<close> on.
\<close>

definition cb_wf :: "aesd_circular_buffer \<Rightarrow> bool" where
  "cb_wf cb \<longleftrightarrow> length (entry cb) = 10 \<and> unat (in_offs cb) < 10 \<and>
     (if full cb then out_offs cb = in_offs cb
      else out_offs cb = 0 \<and> (\<forall>i \<in> {unat (in_offs cb)..<10}. entry cb ! i = zero_entry))"

definition cb_list :: "aesd_circular_buffer \<Rightarrow> aesd_buffer_entry list" where
  "cb_list cb = map (\<lambda>i. entry cb ! entry_index cb i) [0..<entry_count cb]"

lemma length_cb_list [simp]: "length (cb_list cb) = entry_count cb"
  by (simp add: cb_list_def)

lemma nth_cb_list: "i < entry_count cb \<Longrightarrow> cb_list cb ! i = entry cb ! entry_index cb i"
  by (simp add: cb_list_def)

lemma entry_count_le: "cb_wf cb \<Longrightarrow> entry_count cb \<le> 10"
  by (simp add: entry_count_def cb_wf_def)

lemma entry_index_less [simp]: "entry_index cb i < 10"
  by (simp add: entry_index_def)

lemma cb_list_not_full: "cb_wf cb \<Longrightarrow> \<not> full cb \<Longrightarrow> cb_list cb = take (unat (in_offs cb)) (entry cb)"
  by (rule nth_equalityI) (auto simp: nth_cb_list cb_wf_def entry_count_def entry_index_def)

lemma foreach_entries_eq: "length (entry cb) = 10 \<Longrightarrow> foreach_entries cb = entry cb"
  unfolding foreach_entries_def by (metis map_nth)

lemma cb_list_full: "cb_wf cb \<Longrightarrow> full cb \<Longrightarrow> cb_list cb = rotate (unat (out_offs cb)) (entry cb)"
  by (rule nth_equalityI)
    (auto simp: nth_cb_list cb_wf_def entry_count_def entry_index_def nth_rotate add.commute)

text \<open>
  The array itself, as \<open>get_buffer_size\<close> and the \<open>FOREACH\<close> macro see it, holds the same
  entries as the list of live ones, up to zero entries.
\<close>

lemma entry_take_drop:
  "cb_wf cb \<Longrightarrow> \<not> full cb \<Longrightarrow>
     entry cb = cb_list cb @ replicate (10 - unat (in_offs cb)) zero_entry"
  by (rule nth_equalityI)
    (auto simp: cb_list_not_full cb_wf_def nth_append split: if_splits)

lemma entry_split_full:
  "cb_wf cb \<Longrightarrow> full cb \<Longrightarrow> entry cb = rotate (10 - unat (out_offs cb)) (cb_list cb)"
  by (simp add: cb_list_full rotate_rotate cb_wf_def) 

lemma set_cb_list: "cb_wf cb \<Longrightarrow> set (cb_list cb) \<subseteq> set (entry cb)"
  by (auto simp: cb_list_def cb_wf_def)

lemma mset_entry:
  assumes "cb_wf cb"
  shows "mset (entry cb) = mset (cb_list cb) + replicate_mset (10 - entry_count cb) zero_entry"
proof (cases "full cb")
  case True
  have "mset (entry cb) = mset (rotate (10 - unat (out_offs cb)) (cb_list cb))"
    using entry_split_full [OF assms True] by simp
  with True show ?thesis by (simp add: entry_count_def mset_rotate)
next
  case False
  have "mset (entry cb) = mset (cb_list cb @ replicate (10 - unat (in_offs cb)) zero_entry)"
    using entry_take_drop [OF assms False] by simp
  with False show ?thesis by (simp add: entry_count_def)
qed

section \<open>Initialisation and insertion\<close>

lemma cb_wf_init [wf_intros]: "cb_wf aesd_circular_buffer_init"
  by (simp add: cb_wf_def aesd_circular_buffer_init_def)

lemma cb_list_init [simp]: "cb_list aesd_circular_buffer_init = []"
  by (simp add: cb_list_def entry_count_def aesd_circular_buffer_init_def)

text \<open>Insertion on a well-formed buffer, with the increment and the wrap-around resolved.\<close>

lemma add_entry_eq:
  assumes "cb_wf cb"
  shows "aesd_circular_buffer_add_entry cb e = Inr
    (let i = unat (in_offs cb); j = (if i = 9 then 0 else in_offs cb + 1); f = (full cb \<or> i = 9) in
      \<lparr>entry = (entry cb)[i := e], in_offs = j, out_offs = (if f then j else out_offs cb), full = f\<rparr>,
     buffptr (entry cb ! unat (in_offs cb)))"
proof -
  have "in_offs cb + 1 = 10 \<longleftrightarrow> unat (in_offs cb) = 9"
    using assms by (simp add: word_unat_eq_iff unat_inc_u8 cb_wf_def)
  then show ?thesis
    using assms by (auto simp: aesd_circular_buffer_add_entry_def Let_def cb_wf_def)
qed

lemma cb_list_add_not_full:
  assumes "cb_wf cb" "\<not> full cb" "aesd_circular_buffer_add_entry cb e = Inr (cb', p)"
  shows "cb_list cb' = cb_list cb @ [e]"
proof (rule nth_equalityI)
  have cb': "entry_count cb' = Suc (unat (in_offs cb))" "unat (out_offs cb') = 0"
    "entry cb' = (entry cb)[unat (in_offs cb) := e]"
    using assms by (auto simp: add_entry_eq Let_def entry_count_def unat_inc_u8 cb_wf_def split: if_splits)
  then show "length (cb_list cb') = length (cb_list cb @ [e])"
    using assms by (simp add: entry_count_def)
  fix i assume "i < length (cb_list cb')"
  with cb' assms(1,2) show "cb_list cb' ! i = (cb_list cb @ [e]) ! i"
    by (auto simp: nth_cb_list entry_index_def cb_list_not_full nth_append cb_wf_def less_Suc_eq)
qed

lemma slot_step_neq: "k < (10::nat) \<Longrightarrow> i < 9 \<Longrightarrow> Suc (k + i) mod 10 \<noteq> k"
  by (cases "Suc (k + i) < 10") (auto simp: mod_if)

lemma cb_list_add_full:
  assumes "cb_wf cb" "full cb" "aesd_circular_buffer_add_entry cb e = Inr (cb', p)"
  shows "cb_list cb' = tl (cb_list cb) @ [e]"
proof (rule nth_equalityI)
  let ?k = "unat (in_offs cb)"
  have cb': "entry_count cb' = 10" "unat (out_offs cb') = Suc ?k mod 10" "entry cb' = (entry cb)[?k := e]"
    using assms by (auto simp: add_entry_eq Let_def entry_count_def unat_inc_u8 cb_wf_def split: if_splits)
  have cb: "entry_count cb = 10" "out_offs cb = in_offs cb" "?k < 10" "length (entry cb) = 10"
    using assms by (auto simp: entry_count_def cb_wf_def)
  then show "length (cb_list cb') = length (tl (cb_list cb) @ [e])"
    using cb' by simp
  fix i assume "i < length (cb_list cb')"
  then have i: "i < 10" using cb' by simp
  have idx: "entry_index cb' i = (Suc (?k + i)) mod 10"
    using cb' by (simp add: entry_index_def mod_simps)
  show "cb_list cb' ! i = (tl (cb_list cb) @ [e]) ! i"
  proof (cases "i = 9")
    case True
    with idx cb' cb have "cb_list cb' ! i = e" by (simp add: nth_cb_list)
    with True cb show ?thesis by (simp add: nth_append)
  next
    case False
    with i have "i < 9" by simp
    then have "(Suc (?k + i)) mod 10 \<noteq> ?k" using cb(3) by (intro slot_step_neq)
    with idx cb' cb i have "cb_list cb' ! i = entry cb ! ((Suc (?k + i)) mod 10)"
      by (simp add: nth_cb_list)
    with \<open>i < 9\<close> cb show ?thesis
      by (simp add: nth_append nth_tl nth_cb_list entry_index_def)
  qed
qed

lemma cb_wf_add [wf_intros]:
  assumes "cb_wf cb" "aesd_circular_buffer_add_entry cb e = Inr (cb', p)"
  shows "cb_wf cb'"
proof -
  have "unat (in_offs cb) < 9 \<Longrightarrow> unat (in_offs cb + 1) = Suc (unat (in_offs cb))"
    by (simp add: unat_inc_u8)
  then show ?thesis
    using assms by (auto simp: add_entry_eq Let_def cb_wf_def split: if_splits)
qed

lemma add_entry_rptr:
  assumes "cb_wf cb" "aesd_circular_buffer_add_entry cb e = Inr (cb', p)"
  shows "p = (if length (cb_list cb) = 10 then buffptr (hd (cb_list cb)) else NULL)"
proof (cases "full cb")
  case True
  with assms have "hd (cb_list cb) = entry cb ! unat (in_offs cb)"
    by (simp add: hd_conv_nth nth_cb_list entry_count_def entry_index_def cb_wf_def flip: length_0_conv)
  with True assms show ?thesis by (auto simp: add_entry_eq entry_count_def)
next
  case False
  with assms have "entry cb ! unat (in_offs cb) = zero_entry" and "entry_count cb < 10"
    by (auto simp: cb_wf_def entry_count_def)
  with assms show ?thesis by (auto simp: add_entry_eq zero_entry_def)
qed

lemma cb_list_add:
  assumes "cb_wf cb" "aesd_circular_buffer_add_entry cb e = Inr (cb', p)"
  shows "cb_list cb' = last_n 10 (cb_list cb @ [e])"
proof (cases "full cb")
  case True
  with assms show ?thesis
    using last_n_Suc_full [of "cb_list cb" 10 e] by (simp add: cb_list_add_full entry_count_def)
next
  case False
  with assms show ?thesis
    by (simp add: cb_list_add_not_full entry_count_def cb_wf_def)
qed

section \<open>Search by position\<close>

lemma find_entry_loop_locate:
  "find_entry_loop cb i off =
     map_option (\<lambda>(j, r). (entry_index cb (i + j), of_nat r))
       (locate (map (unat \<circ> esize) (drop i (cb_list cb))) (unat off))"
proof (induction cb i off rule: find_entry_loop.induct)
  case (1 cb i off)
  show ?case
  proof (cases "i < entry_count cb")
    case True
    let ?e = "entry cb ! entry_index cb i"
    have d: "drop i (cb_list cb) = ?e # drop (Suc i) (cb_list cb)"
      using True by (simp add: Cons_nth_drop_Suc [symmetric] nth_cb_list)
    show ?thesis
    proof (cases "off < esize ?e")
      case lt: True
      then show ?thesis
        using True d by (simp add: find_entry_loop.simps [of cb i] Let_def word_less_nat_alt)
    next
      case ge: False
      then have "unat (off - esize ?e) = unat off - unat (esize ?e)"
        by (simp add: unat_sub_le)
      with 1 True ge d show ?thesis
        by (simp add: find_entry_loop.simps [of cb i] Let_def word_less_nat_alt option.map_comp
            case_prod_unfold comp_def)
    qed
  next
    case False
    then show ?thesis by (simp add: find_entry_loop.simps [of cb i])
  qed
qed

text \<open>The entry found, paired with the offset inside it.\<close>

definition cb_find :: "aesd_circular_buffer \<Rightarrow> u64 \<Rightarrow> (aesd_buffer_entry \<times> u64) option" where
  "cb_find cb off =
     map_option (\<lambda>(k, r). (entry cb ! k, r)) (aesd_circular_buffer_find_entry_offset_for_fpos cb off)"

lemma locate_less: "locate ss n = Some (j, r) \<Longrightarrow> r \<le> n"
  by (simp add: locate_Some_iff)

lemma cb_find_locate:
  "map_option (map_prod id unat) (cb_find cb off) =
     map_option (\<lambda>(j, r). (cb_list cb ! j, r)) (locate (map (unat \<circ> esize) (cb_list cb)) (unat off))"
proof (cases "locate (map (unat \<circ> esize) (cb_list cb)) (unat off)")
  case None
  then show ?thesis
    by (simp add: cb_find_def aesd_circular_buffer_find_entry_offset_for_fpos_def find_entry_loop_locate)
next
  case (Some jr)
  obtain j r where jr: "jr = (j, r)" by (cases jr)
  with Some have "r \<le> unat off" and "j < entry_count cb"
    by (auto dest: locate_less simp: locate_Some_iff)
  then have "unat (of_nat r :: u64) = r"
    using unsigned_less [of off, where ?'a = nat] by (simp add: unat_of_nat)
  with Some jr \<open>j < entry_count cb\<close> show ?thesis
    by (simp add: cb_find_def aesd_circular_buffer_find_entry_offset_for_fpos_def
        find_entry_loop_locate nth_cb_list)
qed

section \<open>The circular buffer implements the contracts\<close>

interpretation cb: seekable_log cb_wf cb_list aesd_circular_buffer_init
  aesd_circular_buffer_add_entry buffptr NULL 10 "unat \<circ> esize" unat cb_find
proof (unfold_locales, goal_cases)
  case (5 b e)
  then obtain b' p where a: "aesd_circular_buffer_add_entry b e = Inr (b', p)"
    by (auto simp: add_entry_eq)
  with 5 show ?case
    by (auto intro!: exI [of _ b'] simp: cb_list_add cb_wf_add add_entry_rptr [OF 5 a])
next
  case (6 b n)
  show ?case by (rule cb_find_locate)
qed (simp_all add: wf_intros entry_count_le)

text \<open>Insertion either keeps every entry, or drops exactly the oldest one and returns its pointer.\<close>

lemma add_entry_cases:
  assumes "cb_wf cb" "aesd_circular_buffer_add_entry cb e = Inr (cb', old)"
  obtains (kept) "old = NULL" "cb_list cb' = cb_list cb @ [e]"
  | (evicted) x where "buffptr x = old" "cb_list cb @ [e] = x # cb_list cb'"
proof (cases "length (cb_list cb) = 10")
  case True
  then obtain x xs where x: "cb_list cb = x # xs" by (cases "cb_list cb") auto
  with True have "last_n 10 (cb_list cb @ [e]) = xs @ [e]"
    using last_n_Suc_full [of "cb_list cb" 10 e] by simp
  with True x show thesis
    using cb.add_items [OF assms] cb.add_evicts [OF assms] by (intro evicted [of x]) simp_all
next
  case False
  with entry_count_le [OF assms(1)] show thesis
    using cb.add_items [OF assms] cb.add_evicts [OF assms] by (intro kept) simp_all
qed

section \<open>Properties\<close>

text \<open>
  C16: Insertion refines the bounded log: on a well-formed buffer it never indexes outside the
  array, keeps the buffer well-formed, makes the live entries the last ten of the old ones
  and the new one, and returns the pointer of the entry it replaced, or \<open>NULL\<close> if there was
  room, so that the caller frees exactly the evicted entry.
\<close>

theorem add_entry_refines_log:
  assumes "cb_wf cb"
  shows "\<exists>cb'. aesd_circular_buffer_add_entry cb e =
      Inr (cb', if length (cb_list cb) = 10 then buffptr (hd (cb_list cb)) else NULL) \<and>
    cb_wf cb' \<and> cb_list cb' = last_n 10 (cb_list cb @ [e])"
  by (rule cb.add_law [OF assms])

theorem add_entry_refines_log_witness:
  "\<exists>cb'. aesd_circular_buffer_add_entry aesd_circular_buffer_init \<lparr>buffptr = Ptr 1, esize = 3\<rparr> = Inr (cb', NULL) \<and>
     cb_wf cb' \<and> cb_list cb' = [\<lparr>buffptr = Ptr 1, esize = 3\<rparr>]"
  using add_entry_refines_log [OF cb_wf_init, of "\<lparr>buffptr = Ptr 1, esize = 3\<rparr>"] by simp

text \<open>Inserting a sequence of entries, one after the other.\<close>

fun add_entries :: "aesd_circular_buffer \<Rightarrow> aesd_buffer_entry list \<Rightarrow> fault + aesd_circular_buffer" where
  "add_entries cb [] = Inr cb"
| "add_entries cb (e # es) = ebind (aesd_circular_buffer_add_entry cb e) (\<lambda>(cb', _). add_entries cb' es)"

lemma add_entries_add_all: "add_entries cb es = cb.add_all cb es"
  by (induction es arbitrary: cb) (simp_all add: ebind_def split: sum.split)

text \<open>
  A buffer into which any number of entries has been inserted since its initialisation
  holds exactly the last ten of them, oldest first.
\<close>

theorem buffer_keeps_last_ten:
  "\<exists>cb. add_entries aesd_circular_buffer_init es = Inr cb \<and> cb_wf cb \<and> cb_list cb = last_n 10 es"
  unfolding add_entries_add_all by (rule cb.add_all_empty [of es]) blast

text \<open>
  C17: The search by position is the position arithmetic of the concatenated entries, at any
  position and for any sizes: it returns the array slot of the entry the position falls
  in and the offset inside that entry, and \<open>NULL\<close> exactly when the entries together are no
  longer than the position.
\<close>

theorem find_entry_locates:
  assumes "cb_wf cb"
  shows "case aesd_circular_buffer_find_entry_offset_for_fpos cb off of
      None \<Rightarrow> sum_list (map (unat \<circ> esize) (cb_list cb)) \<le> unat off
    | Some (k, r) \<Rightarrow> k < 10 \<and> unat r < unat (esize (entry cb ! k)) \<and>
        (\<exists>j < length (cb_list cb). cb_list cb ! j = entry cb ! k \<and>
           unat off = sum_list (map (unat \<circ> esize) (take j (cb_list cb))) + unat r)"
proof (cases "aesd_circular_buffer_find_entry_offset_for_fpos cb off")
  case None
  then show ?thesis using cb.find_None_iff [OF assms, of off] by (simp add: cb_find_def)
next
  case (Some kr)
  obtain k r where kr: "kr = (k, r)" by (cases kr)
  with Some have f: "cb_find cb off = Some (entry cb ! k, r)" by (simp add: cb_find_def)
  from Some kr have "k < 10"
    by (auto simp: aesd_circular_buffer_find_entry_offset_for_fpos_def find_entry_loop_locate)
  moreover obtain j where "locate (map (unat \<circ> esize) (cb_list cb)) (unat off) = Some (j, unat r)"
    "entry cb ! k = cb_list cb ! j" "j < length (cb_list cb)"
    by (rule cb.find_SomeE [OF assms f])
  ultimately show ?thesis
    using Some kr by (auto simp: locate_Some_iff take_map intro!: exI [of _ j])
qed

theorem find_entry_locates_witness:
  "\<exists>cb. add_entries aesd_circular_buffer_init [\<lparr>buffptr = Ptr 1, esize = 3\<rparr>, \<lparr>buffptr = Ptr 2, esize = 2\<rparr>] = Inr cb \<and>
     cb_wf cb \<and> (case aesd_circular_buffer_find_entry_offset_for_fpos cb 4 of None \<Rightarrow> False
       | Some (k, r) \<Rightarrow> unat r < unat (esize (entry cb ! k)))"
proof -
  let ?es = "[\<lparr>buffptr = Ptr 1, esize = 3\<rparr>, \<lparr>buffptr = Ptr 2, esize = 2\<rparr>]"
  obtain cb where "add_entries aesd_circular_buffer_init ?es = Inr cb" "cb_wf cb" "cb_list cb = ?es"
    using cb.add_all_empty [of ?es] by (auto simp: add_entries_add_all)
  with find_entry_locates [of cb 4] show ?thesis by (auto split: option.splits)
qed

end
