(* ===== verification/Char_Driver.thy ===== *)
theory Char_Driver
  imports Circular_Buffer
begin

unbundle bit_operations_syntax

text \<open>
  The character driver, \<open>aesd-char-driver/main.c\<close> with \<open>aesdchar.h\<close> and \<open>aesd_ioctl.h\<close>:
  the module's global state, every file operation of \<open>aesd_fops\<close>, module load and unload.
  The build defines \<open>AESD_DEBUG\<close>, so \<open>DEBUG_BYTE\<close> is 1 and the debug statements that touch
  memory (the terminating \<open>'\0'\<close>, the \<open>%s\<close> of \<open>PDEBUG\<close>) are part of the model.

  The kernel is not part of the repository. What a kernel function returns is an argument
  of the operation that calls it (record \<open>io_env\<close> and \<open>init_env\<close>), and what it does to
  the driver's memory follows its documentation: \<open>kzalloc\<close> returns \<open>NULL\<close> or a zeroed new
  block, \<open>krealloc_array\<close> keeps the old contents and leaves the rest uninitialised,
  \<open>copy_from_user\<close> pads what it could not copy with zeros. \<open>fixed_size_llseek\<close>, the
  \<open>_IOC\<close> macros and \<open>MAJOR\<close>/\<open>MKDEV\<close> are function arguments. What the theorems assume of
  them is stated by \<open>kzalloc_ok\<close>, \<open>krealloc_ok\<close>, \<open>fixed_size_llseek_ok\<close> and \<open>ioc_ok\<close>.
\<close>

section \<open>Kernel interface\<close>

abbreviation (input) EFAULT :: int where "EFAULT \<equiv> 14"
abbreviation (input) ENOMEM :: int where "ENOMEM \<equiv> 12"
abbreviation (input) EINVAL :: int where "EINVAL \<equiv> 22"
abbreviation (input) ENOTTY :: int where "ENOTTY \<equiv> 25"
abbreviation (input) ERESTARTSYS :: int where "ERESTARTSYS \<equiv> 512"

abbreviation (input) SEEK_SET :: int where "SEEK_SET \<equiv> 0"
abbreviation (input) SEEK_CUR :: int where "SEEK_CUR \<equiv> 1"
abbreviation (input) SEEK_END :: int where "SEEK_END \<equiv> 2"

text \<open>The values the kernel functions return during one file operation.\<close>

record aesd_seekto =
  write_cmd :: u32
  write_cmd_offset :: u32

record io_env =
  lock_rc :: int                 \<comment> \<open>\<open>mutex_lock_interruptible\<close>\<close>
  alloc_ret :: ptr               \<comment> \<open>\<open>kzalloc\<close> or \<open>krealloc_array\<close>\<close>
  fresh_byte :: "nat \<Rightarrow> char"    \<comment> \<open>contents of memory \<open>krealloc_array\<close> does not initialise\<close>
  not_copied :: u64              \<comment> \<open>\<open>copy_to_user\<close> or \<open>copy_from_user\<close>: bytes left over\<close>
  access_ok_ret :: bool          \<comment> \<open>\<open>access_ok\<close>\<close>
  user_seekto :: aesd_seekto     \<comment> \<open>the struct at the user address of an \<open>ioctl\<close>\<close>

text \<open>The \<open>_IOC\<close> macros of the kernel's \<open>ioctl.h\<close>.\<close>

record ioc_macros =
  IOC_TYPE :: "u32 \<Rightarrow> u32"
  IOC_NR :: "u32 \<Rightarrow> u32"
  IOC_DIR :: "u32 \<Rightarrow> u32"
  IOC_SIZE :: "u32 \<Rightarrow> u32"
  IOC_READ :: u32
  IOC_WRITE :: u32
  IOWR :: "u32 \<Rightarrow> u32 \<Rightarrow> u32 \<Rightarrow> u32"

definition kzalloc :: "mem \<Rightarrow> ptr \<Rightarrow> u64 \<Rightarrow> mem" where
  "kzalloc m p n = (case p of NULL \<Rightarrow> m | Ptr a \<Rightarrow> m(a \<mapsto> replicate (unat n) nul))"

definition krealloc_array :: "mem \<Rightarrow> ptr \<Rightarrow> ptr \<Rightarrow> u64 \<Rightarrow> (nat \<Rightarrow> char) \<Rightarrow> fault + mem" where
  "krealloc_array m old p n junk =
     ebind (if old = NULL then Inr [] else block m old) (\<lambda>bs.
       case p of NULL \<Rightarrow> Inr m
       | Ptr a \<Rightarrow>
           ebind (kfree m old) (\<lambda>m'.
             Inr (m'(a \<mapsto> take (unat n) bs @ map junk [length bs..<unat n]))))"

definition copy_from_user :: "mem \<Rightarrow> ptr \<Rightarrow> nat \<Rightarrow> bytes \<Rightarrow> u64 \<Rightarrow> fault + mem" where
  "copy_from_user m p off ubuf left =
     store_range m p off
       (take (length ubuf - unat left) ubuf @ replicate (min (unat left) (length ubuf)) nul)"

text \<open>Printing a string with \<open>%s\<close> reads up to a terminating zero byte.\<close>

definition printk_string :: "mem \<Rightarrow> ptr \<Rightarrow> nat \<Rightarrow> fault + unit" where
  "printk_string m p off =
     ebind (block m p) (\<lambda>bs. if nul \<in> set (drop off bs) then Inr () else Inl Out_Of_Bounds)"

section \<open>State\<close>

datatype kmutex = Mutex_Zero | Mutex_Free | Mutex_Held | Mutex_Destroyed

datatype kcdev = Cdev_Zero | Cdev_Inited | Cdev_Live u32 | Cdev_Deleted

record aesd_dev =
  tmp_buff_ptr :: ptr
  tmp_buff_size :: u64
  buffer :: ptr
  lock :: kmutex
  cdev :: kcdev

text \<open>The pointer \<open>filp->private_data\<close>, and the device an inode's \<open>i_cdev\<close> is embedded in.\<close>

datatype dev_ptr = No_Dev | The_Aesd_Device

record inode =
  i_cdev :: dev_ptr

record kfile =  \<comment> \<open>\<open>struct file\<close>\<close>
  private_data :: dev_ptr
  f_pos :: u64

text \<open>
  The module's globals with the memory it owns: byte blocks, circular buffers, and the
  device numbers registered with the kernel.
\<close>

record kernel =
  kmem :: mem
  kcb :: "nat \<rightharpoonup> aesd_circular_buffer"
  aesd_device :: aesd_dev
  aesd_major :: u32
  aesd_minor :: u32
  regions :: "u32 set"

definition dev_of :: "kernel \<Rightarrow> kfile \<Rightarrow> fault + aesd_dev" where
  "dev_of k filp = (case private_data filp of No_Dev \<Rightarrow> Inl Null_Deref
                    | The_Aesd_Device \<Rightarrow> Inr (aesd_device k))"

definition deref_cb :: "kernel \<Rightarrow> ptr \<Rightarrow> fault + aesd_circular_buffer" where
  "deref_cb k p = (case p of NULL \<Rightarrow> Inl Null_Deref
     | Ptr a \<Rightarrow> (case kcb k a of None \<Rightarrow> Inl Dangling | Some cb \<Rightarrow> Inr cb))"

definition mutex_lock :: "kernel \<Rightarrow> kernel" where
  "mutex_lock k = k\<lparr>aesd_device := (aesd_device k)\<lparr>lock := Mutex_Held\<rparr>\<rparr>"

definition mutex_unlock :: "kernel \<Rightarrow> kernel" where
  "mutex_unlock k = k\<lparr>aesd_device := (aesd_device k)\<lparr>lock := Mutex_Free\<rparr>\<rparr>"

section \<open>File operations\<close>

definition aesd_open :: "inode \<Rightarrow> kfile \<Rightarrow> int \<times> kfile" where
  "aesd_open inode filp = (0, filp\<lparr>private_data := i_cdev inode\<rparr>)"

definition aesd_release :: "inode \<Rightarrow> kfile \<Rightarrow> int" where
  "aesd_release inode filp = 0"

text \<open>
  \<open>aesd_read\<close> returns its result, the new \<open>*f_pos\<close>, the bytes delivered to the user's
  buffer and the new state. \<open>read_locked\<close> is the part between locking and unlocking.
\<close>

definition read_locked ::
  "io_env \<Rightarrow> mem \<Rightarrow> aesd_circular_buffer \<Rightarrow> u64 \<Rightarrow> u64 \<Rightarrow> fault + (int \<times> u64 \<times> bytes)" where
  "read_locked env m cb cnt fpos =
     (case aesd_circular_buffer_find_entry_offset_for_fpos cb fpos of
        None \<Rightarrow> Inr (0, fpos, [])
      | Some (i, entry_offset_byte) \<Rightarrow>
          (let e = entry cb ! i;
               entry_bytes_to_read = esize e - entry_offset_byte;
               n = (if cnt > entry_bytes_to_read then entry_bytes_to_read else cnt)
           in ebind (load_range m (buffptr e) (unat entry_offset_byte) (unat n)) (\<lambda>bs.
                if not_copied env \<noteq> 0 then
                  Inr (- EFAULT, fpos, take (unat n - unat (not_copied env)) bs)
                else
                  ebind (printk_string m (buffptr e) (unat entry_offset_byte)) (\<lambda>_.
                    Inr (sint n, fpos + n, bs)))))"

definition aesd_read ::
  "io_env \<Rightarrow> kernel \<Rightarrow> kfile \<Rightarrow> u64 \<Rightarrow> u64 \<Rightarrow> fault + (int \<times> u64 \<times> bytes \<times> kernel)" where
  "aesd_read env k filp cnt fpos =
     ebind (dev_of k filp) (\<lambda>dev.
       if lock_rc env \<noteq> 0 then Inr (- ERESTARTSYS, fpos, [], k)
       else
         (let k1 = mutex_lock k in
          ebind (deref_cb k1 (buffer dev)) (\<lambda>cb.
          ebind (read_locked env (kmem k1) cb cnt fpos) (\<lambda>(retval, fpos', ubuf).
            Inr (retval, fpos', ubuf, mutex_unlock k1)))))"

text \<open>
  \<open>aesd_write\<close>, in the order of the code: get room for the pending command, copy the
  user's bytes behind it, terminate it for the debug print, and hand the command to the
  circular buffer when it ends with a newline. Each function returns the driver state the
  code leaves behind on that path.
\<close>

definition write_alloc :: "io_env \<Rightarrow> kernel \<Rightarrow> u64 \<Rightarrow> fault + kernel" where
  "write_alloc env k cnt =
     (let dev = aesd_device k; p = alloc_ret env in
      ebind (if tmp_buff_size dev = 0
             then Inr (kzalloc (kmem k) p (cnt + 1))
             else krealloc_array (kmem k) (tmp_buff_ptr dev) p (tmp_buff_size dev + cnt + 1)
                    (fresh_byte env))
        (\<lambda>m. Inr (k\<lparr>kmem := m, aesd_device := dev\<lparr>tmp_buff_ptr := p\<rparr>\<rparr>)))"

definition write_commit :: "kernel \<Rightarrow> fault + kernel" where
  "write_commit k =
     (let dev = aesd_device k in
      ebind (load_byte (kmem k) (tmp_buff_ptr dev) (unat (tmp_buff_size dev - 1))) (\<lambda>c.
        if c = newline then
          ebind (deref_cb k (buffer dev)) (\<lambda>cb.
          ebind (aesd_circular_buffer_add_entry cb
                   \<lparr>buffptr = tmp_buff_ptr dev, esize = tmp_buff_size dev\<rparr>) (\<lambda>(cb', oldbuffptr).
          ebind (kfree (kmem k) oldbuffptr) (\<lambda>m.
            Inr (k\<lparr>kmem := m,
                   kcb := (case buffer dev of NULL \<Rightarrow> kcb k | Ptr a \<Rightarrow> (kcb k)(a \<mapsto> cb')),
                   aesd_device := dev\<lparr>tmp_buff_size := 0, tmp_buff_ptr := NULL\<rparr>\<rparr>))))
        else Inr k))"

definition write_locked ::
  "io_env \<Rightarrow> kernel \<Rightarrow> bytes \<Rightarrow> u64 \<Rightarrow> u64 \<Rightarrow> fault + (int \<times> u64 \<times> kernel)" where
  "write_locked env k ubuf cnt fpos =
     ebind (write_alloc env k cnt) (\<lambda>k1.
       let dev = aesd_device k1 in
       if tmp_buff_ptr dev = NULL then Inr (- ENOMEM, fpos, k1)
       else
         ebind (copy_from_user (kmem k1) (tmp_buff_ptr dev) (unat (tmp_buff_size dev))
                  (take (unat cnt) ubuf) (not_copied env)) (\<lambda>m.
         let k2 = k1\<lparr>kmem := m\<rparr> in
         if not_copied env \<noteq> 0 then Inr (- EFAULT, fpos, k2)
         else
           (let dev2 = dev\<lparr>tmp_buff_size := tmp_buff_size dev + cnt\<rparr> in
            ebind (store_range (kmem k2) (tmp_buff_ptr dev2) (unat (tmp_buff_size dev2)) [nul]) (\<lambda>m3.
            ebind (printk_string m3 (tmp_buff_ptr dev2) 0) (\<lambda>_.
            ebind (write_commit (k2\<lparr>kmem := m3, aesd_device := dev2\<rparr>)) (\<lambda>k4.
              Inr (sint cnt, fpos + cnt, k4)))))))"

definition aesd_write ::
  "io_env \<Rightarrow> kernel \<Rightarrow> kfile \<Rightarrow> bytes \<Rightarrow> u64 \<Rightarrow> u64 \<Rightarrow> fault + (int \<times> u64 \<times> kernel)" where
  "aesd_write env k filp ubuf cnt fpos =
     ebind (dev_of k filp) (\<lambda>dev.
       if lock_rc env \<noteq> 0 then Inr (- ERESTARTSYS, fpos, k)
       else
         ebind (write_locked env (mutex_lock k) ubuf cnt fpos) (\<lambda>(retval, fpos', k').
           Inr (retval, fpos', mutex_unlock k')))"

text \<open>\<open>get_buffer_size\<close> adds up all ten sizes, in \<open>loff_t\<close> arithmetic.\<close>

definition get_buffer_size :: "aesd_circular_buffer \<Rightarrow> u64" where
  "get_buffer_size cb =
     foldl (\<lambda>size i. size + esize (entry cb ! i)) 0 [0..<AESDCHAR_MAX_WRITE_OPERATIONS_SUPPORTED]"

type_synonym llseek_fun = "kfile \<Rightarrow> u64 \<Rightarrow> int \<Rightarrow> u64 \<Rightarrow> u64 \<times> kfile"

definition aesd_llseek ::
  "llseek_fun \<Rightarrow> io_env \<Rightarrow> kernel \<Rightarrow> kfile \<Rightarrow> u64 \<Rightarrow> int \<Rightarrow> fault + (int \<times> kfile \<times> kernel)" where
  "aesd_llseek fixed_size_llseek env k filp off whence =
     ebind (dev_of k filp) (\<lambda>dev.
       if lock_rc env \<noteq> 0 then Inr (- ERESTARTSYS, filp, k)
       else
         (let k1 = mutex_lock k in
          ebind (deref_cb k1 (buffer dev)) (\<lambda>cb.
            let (retval, filp') = fixed_size_llseek filp off whence (get_buffer_size cb)
            in Inr (sint retval, filp', mutex_unlock k1))))"

text \<open>The offset \<open>aesd_adjust_file_offset\<close> computes: the sizes of the slots before \<open>write_cmd\<close>.\<close>

definition cmd_offset :: "aesd_circular_buffer \<Rightarrow> u32 \<Rightarrow> u64" where
  "cmd_offset cb cmd = foldl (\<lambda>offset i. offset + esize (entry cb ! i)) 0 [0..<unat cmd]"

definition aesd_adjust_file_offset ::
  "llseek_fun \<Rightarrow> io_env \<Rightarrow> kernel \<Rightarrow> kfile \<Rightarrow> u32 \<Rightarrow> u32 \<Rightarrow> fault + (int \<times> kfile \<times> kernel)" where
  "aesd_adjust_file_offset fixed_size_llseek env k filp cmd cmd_off =
     (if cmd \<ge> AESDCHAR_MAX_WRITE_OPERATIONS_SUPPORTED then Inr (- EINVAL, filp, k)
      else ebind (dev_of k filp) (\<lambda>dev.
       if lock_rc env \<noteq> 0 then Inr (- ERESTARTSYS, filp, k)
       else
         (let k1 = mutex_lock k in
          ebind (deref_cb k1 (buffer dev)) (\<lambda>cb.
            let e = entry cb ! unat cmd in
            if ucast cmd_off \<ge> esize e then Inr (- EINVAL, filp, mutex_unlock k1)
            else
              (let buff_size = get_buffer_size cb;
                   offset = cmd_offset cb cmd + ucast cmd_off;
                   (retval, filp') = fixed_size_llseek filp offset SEEK_SET buff_size
               in Inr (if sint retval \<ge> 0 then 0 else sint retval, filp', mutex_unlock k1))))))"

abbreviation (input) AESD_IOC_MAGIC :: u32 where "AESD_IOC_MAGIC \<equiv> 0xBC"
abbreviation (input) AESDCHAR_IOC_MAXNR :: u32 where "AESDCHAR_IOC_MAXNR \<equiv> 1"

text \<open>\<open>sizeof(struct aesd_seekto)\<close> is 8.\<close>

definition AESDCHAR_IOCSEEKTO :: "ioc_macros \<Rightarrow> u32" where
  "AESDCHAR_IOCSEEKTO ioc = IOWR ioc AESD_IOC_MAGIC 1 8"

definition aesd_ioctl ::
  "ioc_macros \<Rightarrow> llseek_fun \<Rightarrow> io_env \<Rightarrow> kernel \<Rightarrow> kfile \<Rightarrow> u32 \<Rightarrow> fault + (int \<times> kfile \<times> kernel)" where
  "aesd_ioctl ioc fixed_size_llseek env k filp cmd =
     (if IOC_TYPE ioc cmd \<noteq> AESD_IOC_MAGIC then Inr (- ENOTTY, filp, k)
      else if IOC_NR ioc cmd > AESDCHAR_IOC_MAXNR then Inr (- ENOTTY, filp, k)
      else if (IOC_DIR ioc cmd AND IOC_READ ioc \<noteq> 0 \<or> IOC_DIR ioc cmd AND IOC_WRITE ioc \<noteq> 0)
              \<and> \<not> access_ok_ret env then Inr (- EFAULT, filp, k)
      else if cmd = AESDCHAR_IOCSEEKTO ioc then
        (if not_copied env \<noteq> 0 then Inr (- EFAULT, filp, k)
         else
           ebind (aesd_adjust_file_offset fixed_size_llseek env k filp
                    (write_cmd (user_seekto env)) (write_cmd_offset (user_seekto env)))
             (\<lambda>(retval, filp', k'). Inr (to_int retval, filp', k')))
      else Inr (- ENOTTY, filp, k))"

section \<open>Module load and unload\<close>

record init_env =
  region_rc :: int       \<comment> \<open>\<open>alloc_chrdev_region\<close>\<close>
  region_dev :: u32      \<comment> \<open>the device number it stores\<close>
  cb_alloc :: ptr        \<comment> \<open>\<open>kzalloc\<close> of the circular buffer\<close>
  cdev_rc :: int         \<comment> \<open>\<open>cdev_add\<close>\<close>

definition zero_dev :: aesd_dev where
  "zero_dev = \<lparr>tmp_buff_ptr = NULL, tmp_buff_size = 0, buffer = NULL, lock = Mutex_Zero, cdev = Cdev_Zero\<rparr>"

definition aesd_setup_cdev :: "init_env \<Rightarrow> (u32 \<Rightarrow> u32 \<Rightarrow> u32) \<Rightarrow> kernel \<Rightarrow> int \<times> kernel" where
  "aesd_setup_cdev ienv MKDEV k =
     (let devno = MKDEV (aesd_major k) (aesd_minor k);
          err = cdev_rc ienv
      in (err, k\<lparr>aesd_device := (aesd_device k)
            \<lparr>cdev := (if err = 0 then Cdev_Live devno else Cdev_Inited)\<rparr>\<rparr>))"

definition aesd_init_module ::
  "init_env \<Rightarrow> (u32 \<Rightarrow> u32) \<Rightarrow> (u32 \<Rightarrow> u32 \<Rightarrow> u32) \<Rightarrow> kernel \<Rightarrow> fault + (int \<times> kernel)" where
  "aesd_init_module ienv MAJOR MKDEV k =
     (let result = region_rc ienv;
          dev = (if result < 0 then 0 else region_dev ienv);
          k1 = k\<lparr>aesd_major := MAJOR dev\<rparr>
      in if result < 0 then Inr (result, k1)
         else
           (let k2 = k1\<lparr>regions := insert dev (regions k1)\<rparr>;
                k3 = k2\<lparr>aesd_device := zero_dev\<lparr>buffer := cb_alloc ienv\<rparr>\<rparr>;
                fail = (\<lambda>result kf.
                  ebind (kfree (kcb kf) (buffer (aesd_device kf))) (\<lambda>cbs.
                    Inr (result, kf\<lparr>kcb := cbs, regions := regions kf - {dev}\<rparr>)))
            in case cb_alloc ienv of
                 NULL \<Rightarrow> fail (- ENOMEM) k3
               | Ptr a \<Rightarrow>
                   (let k4 = k3\<lparr>kcb := (kcb k3)(a \<mapsto> aesd_circular_buffer_init)\<rparr>;
                        k5 = k4\<lparr>aesd_device := (aesd_device k4)\<lparr>lock := Mutex_Free\<rparr>\<rparr>;
                        (result', k6) = aesd_setup_cdev ienv MKDEV k5
                    in if result' = 0 then Inr (0, k6) else fail result' k6)))"

text \<open>The loop of \<open>aesd_cleanup_module\<close> over \<open>AESD_CIRCULAR_BUFFER_FOREACH\<close>.\<close>

fun free_entries :: "mem \<Rightarrow> aesd_buffer_entry list \<Rightarrow> fault + mem" where
  "free_entries m [] = Inr m"
| "free_entries m (e # es) =
     ebind (if buffptr e \<noteq> NULL then kfree m (buffptr e) else Inr m) (\<lambda>m'. free_entries m' es)"

definition aesd_cleanup_module :: "(u32 \<Rightarrow> u32 \<Rightarrow> u32) \<Rightarrow> kernel \<Rightarrow> fault + kernel" where
  "aesd_cleanup_module MKDEV k =
     (let devno = MKDEV (aesd_major k) (aesd_minor k);
          dev = (aesd_device k)\<lparr>cdev := Cdev_Deleted\<rparr>
      in ebind (if tmp_buff_size dev > 0 then kfree (kmem k) (tmp_buff_ptr dev) else Inr (kmem k)) (\<lambda>m1.
         ebind (if buffer dev \<noteq> NULL then
                  ebind (deref_cb k (buffer dev)) (\<lambda>cb.
                  ebind (free_entries m1 (foreach_entries cb)) (\<lambda>m2.
                  ebind (kfree (kcb k) (buffer dev)) (\<lambda>cbs. Inr (m2, cbs))))
                else Inr (m1, kcb k)) (\<lambda>(m2, cbs).
           Inr (k\<lparr>kmem := m2, kcb := cbs, aesd_device := dev\<lparr>lock := Mutex_Destroyed\<rparr>,
                  regions := regions k - {devno}\<rparr>))))"

end
