(* ===== verification/Readline.thy ===== *)
theory Readline
  imports Aesd_Prelude
begin

text \<open>
  \<open>readline_from_socket\<close> of \<open>server/sock_thread.c\<close>: reading one line from a stream socket into
  a buffer that is doubled when it is full.

  The socket is the sequence of what arrives on it: pieces of data, of which one \<open>recv\<close>
  delivers as much as fits into the space it is given, and errors; at the end the peer has
  closed the connection. The buffer is the contents of the block \<open>buf\<close> points to, its length
  is the size of the block. \<open>bufsize\<close> and \<open>offset\<close> are of type \<open>int\<close> in the code and are
  checked for overflow here. Whether \<open>malloc\<close> succeeds, and whether \<open>reallocarray\<close> succeeds
  for a given size (each size is requested at most once), are arguments.
\<close>

section \<open>The socket\<close>

datatype recv_event = Recv_Error | Recv_Bytes bytes

type_synonym socket = "recv_event list"

text \<open>\<open>recv(fd, p, n, 0)\<close>: \<open>None\<close> is the result -1, \<open>Some []\<close> the result 0.\<close>

fun recv :: "socket \<Rightarrow> nat \<Rightarrow> bytes option \<times> socket" where
  "recv [] n = (Some [], [])"
| "recv (Recv_Error # es) n = (None, es)"
| "recv (Recv_Bytes bs # es) n =
     (Some (take n bs), if length bs \<le> n then es else Recv_Bytes (drop n bs) # es)"

text \<open>The bytes that arrive before the connection is closed or fails, and whether it fails.\<close>

fun stream :: "socket \<Rightarrow> bytes \<times> bool" where
  "stream [] = ([], False)"
| "stream (Recv_Error # es) = ([], True)"
| "stream (Recv_Bytes bs # es) =
     (if bs = [] then ([], False) else (bs @ fst (stream es), snd (stream es)))"

definition socket_size :: "socket \<Rightarrow> nat" where
  "socket_size sock = sum_list (map (\<lambda>e. case e of Recv_Error \<Rightarrow> 1 | Recv_Bytes bs \<Rightarrow> Suc (length bs)) sock)"

lemma recv_shrinks:
  "recv sock n = (Some bs, sock') \<Longrightarrow> bs \<noteq> [] \<Longrightarrow> socket_size sock' < socket_size sock"
  by (cases "(sock, n)" rule: recv.cases) (auto simp: socket_size_def split: if_splits)

lemma recv_data:
  "recv sock n = (Some bs, sock') \<Longrightarrow> bs \<noteq> [] \<Longrightarrow>
     stream sock = (bs @ fst (stream sock'), snd (stream sock')) \<and> length bs \<le> n"
  by (cases "(sock, n)" rule: recv.cases) (auto split: if_splits)

lemma recv_closed: "recv sock n = (Some [], sock') \<Longrightarrow> 0 < n \<Longrightarrow> stream sock = ([], False)"
  by (cases "(sock, n)" rule: recv.cases) auto

lemma recv_error: "recv sock n = (None, sock') \<Longrightarrow> stream sock = ([], True)"
  by (cases "(sock, n)" rule: recv.cases) auto

section \<open>The function\<close>

abbreviation (input) BUFLEN :: nat where "BUFLEN \<equiv> 1024"

definition int_ok :: "nat \<Rightarrow> fault + nat" where
  "int_ok n = (if n < 2 ^ 31 then Inr n else Inl Int_Overflow)"

text \<open>The index of the first newline, as \<open>memchr\<close> finds it.\<close>

definition memchr :: "bytes \<Rightarrow> char \<Rightarrow> nat option" where
  "memchr bs c = (let i = length (takeWhile (\<lambda>b. b \<noteq> c) bs) in if i < length bs then Some i else None)"

text \<open>
  The loop. The result is \<open>None\<close> where the code returns \<open>NULL\<close> (the buffer has been freed), and
  the buffer with \<open>*line_size\<close> otherwise.
\<close>

function readline_loop ::
  "(nat \<Rightarrow> bool) \<Rightarrow> (nat \<Rightarrow> char) \<Rightarrow> bytes \<Rightarrow> nat \<Rightarrow> nat \<Rightarrow> socket \<Rightarrow> fault + (bytes \<times> nat) option" where
  "readline_loop realloc_ok junk buf bufsize offset sock =
     (if bufsize < offset then Inl Out_Of_Bounds
      else case recv sock (bufsize - offset) of
        (None, _) \<Rightarrow> Inr None
      | (Some bs, sock') \<Rightarrow>
          if bs = [] then Inr (Some (buf, offset))
          else if length buf < offset + length bs then Inl Out_Of_Bounds
          else
            (let buf1 = overwrite buf offset bs in
             case memchr bs newline of
               Some i \<Rightarrow> Inr (Some (buf1, offset + i + 1))
             | None \<Rightarrow>
                 ebind (int_ok (offset + length bs)) (\<lambda>offset'.
                   if offset' = bufsize then
                     ebind (int_ok (bufsize * 2)) (\<lambda>bufsize'.
                       if realloc_ok bufsize'
                       then readline_loop realloc_ok junk (buf1 @ map junk [length buf1..<bufsize']) bufsize' offset' sock'
                       else Inr None)
                   else readline_loop realloc_ok junk buf1 bufsize offset' sock')))"
  by pat_completeness auto
termination
  by (relation "measure (\<lambda>(_, _, _, _, _, sock). socket_size sock)") (auto intro: recv_shrinks [OF sym])

declare readline_loop.simps [simp del]

definition readline_from_socket ::
  "bool \<Rightarrow> (nat \<Rightarrow> bool) \<Rightarrow> (nat \<Rightarrow> char) \<Rightarrow> socket \<Rightarrow> fault + (bytes \<times> nat) option" where
  "readline_from_socket malloc_ok realloc_ok junk sock =
     (if \<not> malloc_ok then Inr None
      else readline_loop realloc_ok junk (map junk [0..<BUFLEN]) BUFLEN 0 sock)"

section \<open>Correctness\<close>

text \<open>The line at the front of a byte sequence: up to and including the first newline.\<close>

definition first_line :: "bytes \<Rightarrow> bytes" where
  "first_line ds = takeWhile (\<lambda>b. b \<noteq> newline) ds @ (if newline \<in> set ds then [newline] else [])"

text \<open>What the function returns when the received bytes are \<open>ds\<close> and the connection fails after them or not.\<close>

definition readline_result :: "bytes \<Rightarrow> bool \<Rightarrow> fault + (bytes \<times> nat) option \<Rightarrow> bool" where
  "readline_result ds err r \<longleftrightarrow>
     (if 2 ^ 30 \<le> length (takeWhile (\<lambda>b. b \<noteq> newline) ds) then r = Inl Int_Overflow
      else if newline \<notin> set ds \<and> err then r = Inr None
      else \<exists>buf. r = Inr (Some (buf, length (first_line ds))) \<and> length (first_line ds) \<le> length buf \<and>
             take (length (first_line ds)) buf = first_line ds)"

lemma memchr_None: "memchr bs c = None \<longleftrightarrow> c \<notin> set bs"
  by (simp add: memchr_def Let_def length_takeWhile_less_iff)

lemma memchr_SomeD:
  assumes "memchr bs c = Some i"
  shows "c \<in> set bs" "i = length (takeWhile (\<lambda>b. b \<noteq> c) bs)" "i < length bs" "bs ! i = c"
    "take i bs = takeWhile (\<lambda>b. b \<noteq> c) bs"
proof -
  from assms have i: "i = length (takeWhile (\<lambda>b. b \<noteq> c) bs)" "i < length bs"
    by (auto simp: memchr_def Let_def split: if_splits)
  then show "i = length (takeWhile (\<lambda>b. b \<noteq> c) bs)" "i < length bs" by simp_all
  show "bs ! i = c" using nth_length_takeWhile [of "\<lambda>b. b \<noteq> c" bs] i by simp
  with i(2) show "c \<in> set bs" by (metis nth_mem)
  show "take i bs = takeWhile (\<lambda>b. b \<noteq> c) bs" unfolding i(1) by (rule takeWhile_eq_take [symmetric])
qed

lemma pre_append: "newline \<notin> set xs \<Longrightarrow>
    takeWhile (\<lambda>b. b \<noteq> newline) (xs @ ys) = xs @ takeWhile (\<lambda>b. b \<noteq> newline) ys"
  by (rule takeWhile_all_append) auto

lemma pre_self: "newline \<notin> set xs \<Longrightarrow> takeWhile (\<lambda>b. b \<noteq> newline) xs = xs"
  by (auto simp: takeWhile_eq_all_conv)

lemma first_line_append [simp]: "newline \<notin> set xs \<Longrightarrow> first_line (xs @ ys) = xs @ first_line ys"
  by (simp add: first_line_def pre_append)

lemma first_line_Nil [simp]: "first_line [] = []"
  by (simp add: first_line_def)

lemma first_line_memchr: "memchr bs newline = Some i \<Longrightarrow> first_line (bs @ rest) = take (Suc i) bs"
  using memchr_SomeD [of bs newline i]
  by (simp add: first_line_def take_Suc_conv_app_nth takeWhile_append1)

text \<open>
  The loop invariant: the block has \<open>bufsize\<close> bytes, a power of two, and the first \<open>offset\<close>
  of them are what was received so far, without a newline.
\<close>

definition readline_inv :: "bytes \<Rightarrow> nat \<Rightarrow> nat \<Rightarrow> bool" where
  "readline_inv buf bufsize offset \<longleftrightarrow> length buf = bufsize \<and> (\<exists>k \<le> 30. bufsize = 2 ^ k) \<and>
     offset < bufsize \<and> newline \<notin> set (take offset buf)"

lemma readline_inv_bound: "readline_inv buf bufsize offset \<Longrightarrow> bufsize \<le> 2 ^ 30"
  using power_increasing [of _ 30 "2::nat"] by (auto simp: readline_inv_def)

lemma readline_inv_extend:
  assumes "readline_inv buf bufsize offset" "offset + length bs < bufsize" "newline \<notin> set bs"
  shows "readline_inv (overwrite buf offset bs) bufsize (offset + length bs)"
  using assms by (simp add: readline_inv_def)

lemma readline_inv_double:
  assumes "readline_inv buf bufsize offset" "offset + length bs = bufsize" "newline \<notin> set bs" "bufsize \<noteq> 2 ^ 30"
  shows "readline_inv (overwrite buf offset bs @ map junk [bufsize..<bufsize * 2]) (bufsize * 2) (offset + length bs)"
    "bufsize * 2 < 2 ^ 31"
proof -
  from assms(1) obtain k where k: "k \<le> 30" "bufsize = 2 ^ k" by (auto simp: readline_inv_def)
  with assms(4) have "k \<noteq> 30" by metis
  with k have "Suc k \<le> 30" "bufsize * 2 = 2 ^ Suc k" by simp_all
  then have "\<exists>k \<le> 30. bufsize * 2 = 2 ^ k" by blast
  then show "readline_inv (overwrite buf offset bs @ map junk [bufsize..<bufsize * 2]) (bufsize * 2) (offset + length bs)"
    using assms(1-3) take_overwrite_through [of offset buf bs] by (auto simp: readline_inv_def)
  have "bufsize * 2 \<le> 2 ^ 30"
    unfolding \<open>bufsize * 2 = 2 ^ Suc k\<close> by (rule power_increasing) (use \<open>Suc k \<le> 30\<close> in simp_all)
  then show "bufsize * 2 < 2 ^ 31" by simp
qed

lemma readline_result_error: "newline \<notin> set ds \<Longrightarrow> length ds < 2 ^ 30 \<Longrightarrow> readline_result ds True (Inr None)"
  by (simp add: readline_result_def pre_self)

lemma readline_result_line:
  assumes "length (first_line ds) \<le> length buf" "take (length (first_line ds)) buf = first_line ds"
    "length (takeWhile (\<lambda>b. b \<noteq> newline) ds) < 2 ^ 30" "newline \<in> set ds \<or> \<not> err"
  shows "readline_result ds err (Inr (Some (buf, length (first_line ds))))"
  using assms by (auto simp: readline_result_def)

lemma readline_loop_correct:
  assumes "readline_inv buf bufsize offset" "\<And>n. realloc_ok n"
  shows "readline_result (take offset buf @ fst (stream sock)) (snd (stream sock))
    (readline_loop realloc_ok junk buf bufsize offset sock)"
  using assms
proof (induction realloc_ok junk buf bufsize offset sock rule: readline_loop.induct)
  case (1 realloc_ok junk buf bufsize offset sock)
  let ?acc = "take offset buf"
  note inv = 1(3)
  have i: "length buf = bufsize" "offset < bufsize" "newline \<notin> set ?acc" "length ?acc = offset" "bufsize \<le> 2 ^ 30"
    using inv readline_inv_bound [OF inv] by (auto simp: readline_inv_def)
  note pre = pre_append [OF i(3)]
  have ro: "realloc_ok = (\<lambda>_. True)" using 1(4) by auto
  obtain r sock' where rc: "recv sock (bufsize - offset) = (r, sock')" by (cases "recv sock (bufsize - offset)")
  show ?case
  proof (cases r)
    case None
    with rc i show ?thesis
      using readline_result_error [OF i(3)] recv_error [of sock] by (simp add: readline_loop.simps [of _ _ buf])
  next
    case r: (Some bs)
    show ?thesis
    proof (cases "bs = []")
      case True
      with rc r i have "stream sock = ([], False)" using recv_closed by auto
      with rc r True i show ?thesis
        using readline_result_line [of ?acc buf False] pre_self [OF i(3)] first_line_append [OF i(3), of "[]"]
        by (simp add: readline_loop.simps [of _ _ buf])
    next
      case False
      with recv_data rc r have st: "stream sock = (bs @ fst (stream sock'), snd (stream sock'))"
        and le: "length bs \<le> bufsize - offset" by auto
      let ?buf = "overwrite buf offset bs"
      have t: "take (offset + length bs) ?buf = ?acc @ bs" using i by simp
      show ?thesis
      proof (cases "memchr bs newline")
        case (Some j)
        note m = memchr_SomeD [OF Some]
        have f: "first_line (?acc @ bs @ fst (stream sock')) = ?acc @ take (Suc j) bs"
          using i(3) first_line_memchr [OF Some] by simp
        have l: "readline_loop realloc_ok junk buf bufsize offset sock = Inr (Some (?buf, length (first_line (?acc @ bs @ fst (stream sock')))))"
          using rc r False Some i le m(3) unfolding f by (simp add: readline_loop.simps [of _ _ buf])
        have "take (offset + Suc j) ?buf = take (offset + Suc j) (take (offset + length bs) ?buf)"
          using m(3) by simp
        also have "\<dots> = ?acc @ take (Suc j) bs" unfolding t using i(4) by simp
        finally have "take (offset + Suc j) ?buf = ?acc @ take (Suc j) bs" .
        then show ?thesis
          unfolding l st fst_conv snd_conv using f i m le
          by (intro readline_result_line) (simp_all add: pre takeWhile_append1 [OF m(1)])
      next
        case None
        then have nl: "newline \<notin> set bs" by (simp add: memchr_None)
        have ok: "int_ok (offset + length bs) = Inr (offset + length bs)" using i le by (simp add: int_ok_def)
        consider (room) "offset + length bs < bufsize" | (grow) "offset + length bs = bufsize" "bufsize \<noteq> 2 ^ 30"
          | (over) "offset + length bs = bufsize" "bufsize = 2 ^ 30" using le i by linarith
        then show ?thesis
        proof cases
          case room
          with rc r False None i le ok have l: "readline_loop realloc_ok junk buf bufsize offset sock =
              readline_loop realloc_ok junk ?buf bufsize (offset + length bs) sock'"
            by (simp add: readline_loop.simps [of _ _ buf])
          from 1(2) [of r sock' bs ?buf "offset + length bs"] show ?thesis
            unfolding l st fst_conv snd_conv using rc r False None i le ok room readline_inv_extend [OF inv room nl] t
            by (simp add: ro)
        next
          case grow
          note d = readline_inv_double [OF inv grow(1) nl grow(2)]
          have ok2: "int_ok (bufsize * 2) = Inr (bufsize * 2)" using d(2) by (simp add: int_ok_def)
          let ?buf2 = "?buf @ map junk [bufsize..<bufsize * 2]"
          have l: "readline_loop realloc_ok junk buf bufsize offset sock =
              readline_loop realloc_ok junk ?buf2 (bufsize * 2) (offset + length bs) sock'"
            using rc r False None i le ok ok2 grow(1) 1(4) by (simp add: readline_loop.simps [of _ _ buf])
          have t2: "take (offset + length bs) ?buf2 = ?acc @ bs" using t i le grow(1) by simp
          from 1(1) [of r sock' bs ?buf "offset + length bs" "bufsize * 2"] show ?thesis
            unfolding l st fst_conv snd_conv using rc r False None i le ok ok2 grow(1) d(1) [of junk] t2
            by (simp add: ro)
        next
          case over
          then have "readline_loop realloc_ok junk buf bufsize offset sock = Inl Int_Overflow"
            using rc r False None i le ok by (simp add: readline_loop.simps [of _ _ buf] int_ok_def)
          moreover have "takeWhile (\<lambda>b. b \<noteq> newline) (?acc @ bs @ fst (stream sock')) =
              ?acc @ bs @ takeWhile (\<lambda>b. b \<noteq> newline) (fst (stream sock'))"
            by (simp add: pre pre_append [OF nl])
          ultimately show ?thesis
            unfolding st using over i le by (simp add: readline_result_def)
        qed
      qed
    qed
  qed
qed

text \<open>Whatever \<open>reallocarray\<close> does, the loop never leaves its buffer.\<close>

definition readline_safe :: "fault + (bytes \<times> nat) option \<Rightarrow> bool" where
  "readline_safe r = (case r of Inl e \<Rightarrow> e = Int_Overflow | Inr None \<Rightarrow> True | Inr (Some (buf, n)) \<Rightarrow> n \<le> length buf)"

lemma readline_safe_simps [simp]:
  "readline_safe (Inl e) \<longleftrightarrow> e = Int_Overflow" "readline_safe (Inr None)"
  "readline_safe (Inr (Some (buf, n))) \<longleftrightarrow> n \<le> length buf"
  by (simp_all add: readline_safe_def)

lemma readline_loop_safe:
  assumes "readline_inv buf bufsize offset"
  shows "readline_safe (readline_loop realloc_ok junk buf bufsize offset sock)"
  using assms
proof (induction realloc_ok junk buf bufsize offset sock rule: readline_loop.induct)
  case (1 realloc_ok junk buf bufsize offset sock)
  note inv = 1(3)
  have i: "length buf = bufsize" "offset < bufsize" "bufsize \<le> 2 ^ 30"
    using inv readline_inv_bound [OF inv] by (auto simp: readline_inv_def)
  obtain r sock' where rc: "recv sock (bufsize - offset) = (r, sock')" by (cases "recv sock (bufsize - offset)")
  show ?case
  proof (cases "r = None \<or> r = Some []")
    case True
    with rc i show ?thesis by (auto simp: readline_loop.simps [of _ _ buf])
  next
    case False
    then obtain bs where bs: "r = Some bs" "bs \<noteq> []" by auto
    have le: "offset + length bs \<le> bufsize" using recv_data [of sock "bufsize - offset"] rc bs i by fastforce
    then have ok: "int_ok (offset + length bs) = Inr (offset + length bs)" using i by (simp add: int_ok_def)
    show ?thesis
    proof (cases "memchr bs newline")
      case (Some j)
      with rc bs i le memchr_SomeD(3) [OF Some] show ?thesis by (simp add: readline_loop.simps [of _ _ buf])
    next
      case None
      then have nl: "newline \<notin> set bs" by (simp add: memchr_None)
      have room: "readline_safe (readline_loop realloc_ok junk (overwrite buf offset bs) bufsize (offset + length bs) sock')"
        if "offset + length bs \<noteq> bufsize"
        using 1(2) [of r sock' bs "overwrite buf offset bs" "offset + length bs"] rc bs None i le ok that
          readline_inv_extend [OF inv _ nl] by simp
      have grow: "readline_safe (readline_loop realloc_ok junk (overwrite buf offset bs @ map junk [bufsize..<bufsize * 2])
          (bufsize * 2) bufsize sock')"
        if "offset + length bs = bufsize" "int_ok (bufsize * 2) = Inr (bufsize * 2)" "realloc_ok (bufsize * 2)"
      proof -
        have "bufsize \<noteq> 2 ^ 30" using that(2) by (auto simp: int_ok_def split: if_splits)
        then show ?thesis
          using 1(1) [of r sock' bs "overwrite buf offset bs" "offset + length bs" "bufsize * 2"] rc bs None i le ok that
            readline_inv_double(1) [OF inv that(1) nl, of junk] by simp
      qed
      have lo: "length (overwrite buf offset bs) = bufsize" using i le by simp
      have l: "readline_loop realloc_ok junk buf bufsize offset sock =
          (if offset + length bs = bufsize
           then ebind (int_ok (bufsize * 2)) (\<lambda>b. if realloc_ok b
             then readline_loop realloc_ok junk (overwrite buf offset bs @ map junk [bufsize..<b]) b (offset + length bs) sock'
             else Inr None)
           else readline_loop realloc_ok junk (overwrite buf offset bs) bufsize (offset + length bs) sock')"
        using rc bs None i le ok by (simp add: readline_loop.simps [of _ _ buf] Let_def lo cong: if_cong)
      have "int_ok (bufsize * 2) = Inl Int_Overflow \<or> int_ok (bufsize * 2) = Inr (bufsize * 2)"
        by (simp add: int_ok_def)
      then show ?thesis unfolding l using room grow by auto
    qed
  qed
qed

lemma readline_inv_start: "readline_inv (map junk [0..<BUFLEN]) BUFLEN 0"
  unfolding readline_inv_def by (auto intro!: exI [of _ 10])

section \<open>Properties\<close>

text \<open>
  C14: The function returns the first line the client sends, including its newline, however the
  network cuts it into pieces and however often the buffer has to grow; if the client closes
  the connection first, it returns what was sent. The line has to be shorter than 1 GiB.
\<close>

theorem readline_returns_first_line:
  assumes "stream sock = (ds, err)" "newline \<in> set ds \<or> \<not> err"
    "length (takeWhile (\<lambda>b. b \<noteq> newline) ds) < 2 ^ 30"
  shows "\<exists>buf. readline_from_socket True (\<lambda>_. True) junk sock = Inr (Some (buf, length (first_line ds))) \<and>
    length (first_line ds) \<le> length buf \<and> take (length (first_line ds)) buf = first_line ds"
  using readline_loop_correct [where realloc_ok = "\<lambda>_. True" and junk = junk and sock = sock, OF readline_inv_start] assms
  by (auto simp: readline_result_def readline_from_socket_def)

theorem readline_returns_first_line_witness:
  "\<exists>buf. readline_from_socket True (\<lambda>_. True) (\<lambda>_. nul) [Recv_Bytes ''he'', Recv_Bytes (''y'' @ [newline] @ ''x''), Recv_Error] =
     Inr (Some (buf, 4)) \<and> take 4 buf = ''hey'' @ [newline]"
  using readline_returns_first_line [of "[Recv_Bytes ''he'', Recv_Bytes (''y'' @ [newline] @ ''x''), Recv_Error]"
      "''hey'' @ [newline] @ ''x''" True "\<lambda>_. nul"]
  by (simp add: first_line_def) (metis Suc_numeral numeral_2_eq_2 numeral_3_eq_3 semiring_norm(2) semiring_norm(8))

text \<open>
  C27: Whatever the client sends and whenever memory runs out, the function never writes outside
  its buffer, and the line size it reports never exceeds the buffer; the only undefined
  operation it can reach is the overflow of \<open>bufsize\<close>.
\<close>

theorem readline_stays_in_buffer:
  "case readline_from_socket malloc_ok realloc_ok junk sock of Inl e \<Rightarrow> e = Int_Overflow
   | Inr None \<Rightarrow> True | Inr (Some (buf, n)) \<Rightarrow> n \<le> length buf"
  using readline_loop_safe [where realloc_ok = realloc_ok and junk = junk and sock = sock, OF readline_inv_start]
  by (simp add: readline_from_socket_def readline_safe_def)

text \<open>
  A client that sends \<open>2 ^ 30\<close> bytes without a newline makes \<open>bufsize *= 2\<close> overflow an \<open>int\<close>,
  if the server has the memory to get that far.
\<close>

theorem readline_overflows_on_long_line:
  assumes "stream sock = (ds, err)" "2 ^ 30 \<le> length (takeWhile (\<lambda>b. b \<noteq> newline) ds)"
  shows "readline_from_socket True (\<lambda>_. True) junk sock = Inl Int_Overflow"
  using readline_loop_correct [where realloc_ok = "\<lambda>_. True" and junk = junk and sock = sock, OF readline_inv_start] assms
  by (simp add: readline_result_def readline_from_socket_def)

theorem readline_overflows_on_long_line_witness:
  "readline_from_socket True (\<lambda>_. True) (\<lambda>_. nul) [Recv_Bytes (replicate (2 ^ 30) CHR ''a'')] = Inl Int_Overflow"
  by (rule readline_overflows_on_long_line [where ds = "replicate (2 ^ 30) CHR ''a''" and err = False])
    (simp_all add: takeWhile_replicate)

end
