(* ===== verification/Ctrl_Line.thy ===== *)
theory Ctrl_Line
  imports Char_Driver Readline
begin

text \<open>
  \<open>parse_ctrl_line\<close> of \<open>server/sock_thread.c\<close>: recognising the embedded control string
  \<open>AESDCHAR_IOCSEEKTO:X,Y\<close> in a line a client sent. The function works in place: it
  overwrites the comma and the newline with terminators and lets \<open>atoi\<close> read the two numbers.
\<close>

section \<open>Reading a number\<close>

definition isspace :: "char \<Rightarrow> bool" where
  "isspace c \<longleftrightarrow> c = CHR '' '' \<or> (9 \<le> (of_char c :: nat) \<and> (of_char c :: nat) \<le> 13)"

definition isdigit :: "char \<Rightarrow> bool" where
  "isdigit c \<longleftrightarrow> 48 \<le> (of_char c :: nat) \<and> (of_char c :: nat) \<le> 57"

definition digits_val :: "bytes \<Rightarrow> nat" where
  "digits_val ds = foldl (\<lambda>v c. 10 * v + (of_char c - 48)) 0 ds"

text \<open>
  \<open>atoi(p)\<close> is \<open>(int)strtol(p, NULL, 10)\<close>: leading white space, a sign, digits up to the first
  other character, saturation to the range of \<open>long\<close>. The argument is the memory from \<open>p\<close> to
  the end of its block; a number that runs into the end of the block is a fault.
\<close>

definition atoi :: "bytes \<Rightarrow> fault + int" where
  "atoi bs =
     (let s = dropWhile isspace bs;
          neg = (s \<noteq> [] \<and> hd s = CHR ''-'');
          s' = (if s \<noteq> [] \<and> hd s \<in> {CHR ''-'', CHR ''+''} then tl s else s);
          ds = takeWhile isdigit s';
          v = int (digits_val ds);
          l = (if neg then max (- (2 ^ 63)) (- v) else min (2 ^ 63 - 1) v)
      in if length ds = length s' then Inl Out_Of_Bounds else Inr (to_int l))"

section \<open>The parser\<close>

definition EMBED_CTRL_PREF :: bytes where
  "EMBED_CTRL_PREF = ''AESDCHAR_IOCSEEKTO:''"

abbreviation (input) MIN_EMBED_PARAM_CHARS :: nat where "MIN_EMBED_PARAM_CHARS \<equiv> 3"

definition parse_ctrl_line ::
  "bytes \<Rightarrow> nat \<Rightarrow> aesd_seekto \<Rightarrow> fault + (bool \<times> bytes \<times> aesd_seekto)" where
  "parse_ctrl_line line line_size seek_to =
     (let prefix_size = length EMBED_CTRL_PREF in
      if line_size < prefix_size + MIN_EMBED_PARAM_CHARS then Inr (False, line, seek_to)
      else if length line < line_size then Inl Out_Of_Bounds
      else if line ! (line_size - 1) \<noteq> newline then Inr (False, line, seek_to)
      else if take prefix_size line \<noteq> EMBED_CTRL_PREF then Inr (False, line, seek_to)
      else case memchr (take (line_size - prefix_size) (drop prefix_size line)) CHR '','' of
        None \<Rightarrow> Inr (False, line, seek_to)
      | Some i \<Rightarrow>
          (let comma = prefix_size + i;
               line2 = line[comma := nul, line_size - 1 := nul]
           in ebind (atoi (drop prefix_size line2)) (\<lambda>wcmd.
              ebind (atoi (drop (comma + 1) line2)) (\<lambda>woffset.
                Inr (True, line2, \<lparr>write_cmd = of_int wcmd, write_cmd_offset = of_int woffset\<rparr>)))))"

section \<open>Correctness\<close>

lemma length_pref [simp]: "length EMBED_CTRL_PREF = 19"
  by (simp add: EMBED_CTRL_PREF_def)

lemma nul_no_digit [simp]: "\<not> isdigit nul" "\<not> isspace nul"
  by (simp_all add: isdigit_def isspace_def)

lemma atoi_terminated:
  assumes "nul \<in> set bs"
  shows "\<exists>v. atoi bs = Inr v"
proof -
  let ?s = "dropWhile isspace bs"
  let ?t = "if ?s \<noteq> [] \<and> hd ?s \<in> {CHR ''-'', CHR ''+''} then tl ?s else ?s"
  have "nul \<in> set ?s"
    using assms by (metis (full_types) UnE nul_no_digit(2) set_append set_takeWhileD takeWhile_dropWhile_id)
  then have "nul \<in> set ?t" by (cases ?s) auto
  then have "length (takeWhile isdigit ?t) < length ?t"
    unfolding length_takeWhile_less_iff using nul_no_digit(1) by blast
  then show ?thesis by (auto simp: atoi_def Let_def)
qed

text \<open>Decimal notation, to state what the parser undoes.\<close>

fun decimal :: "nat \<Rightarrow> bytes" where
  "decimal n = (if n < 10 then [char_of (48 + n)] else decimal (n div 10) @ [char_of (48 + n mod 10)])"

declare decimal.simps [simp del]

lemma of_char_digit [simp]: "d < 10 \<Longrightarrow> (of_char (char_of (48 + d) :: char) :: nat) = 48 + d"
  by (simp add: of_char_of)

lemma decimal_digits: "c \<in> set (decimal n) \<Longrightarrow> isdigit c"
  by (induction n rule: decimal.induct) (subst (asm) decimal.simps, auto simp: isdigit_def split: if_splits)

lemma decimal_not_Nil [simp]: "decimal n \<noteq> []"
  by (subst decimal.simps) simp

lemma digits_val_decimal [simp]: "digits_val (decimal n) = n"
proof (induction n rule: decimal.induct)
  case (1 n)
  then show ?case by (subst decimal.simps) (auto simp: digits_val_def)
qed

lemma digit_not_special: "isdigit c \<Longrightarrow> \<not> isspace c \<and> c \<noteq> CHR ''-'' \<and> c \<noteq> CHR ''+'' \<and> c \<noteq> CHR '','' \<and> c \<noteq> newline"
  by (auto simp: isdigit_def isspace_def)

lemma atoi_decimal:
  assumes "n < 2 ^ 31"
  shows "atoi (decimal n @ nul # rest) = Inr (int n)"
proof -
  obtain c cs where c: "decimal n = c # cs" by (cases "decimal n") auto
  then have "isdigit c" using decimal_digits [of c n] by simp
  note nc = digit_not_special [OF this]
  have d: "dropWhile isspace (decimal n @ nul # rest) = decimal n @ nul # rest" using c nc by simp
  have t: "takeWhile isdigit (decimal n @ nul # rest) = decimal n"
    by (subst takeWhile_append2) (auto intro: decimal_digits)
  have h: "hd (decimal n @ nul # rest) = c" using c by simp
  have "int n < 2 ^ 31" using assms by (metis of_nat_less_iff of_nat_numeral of_nat_power)
  then show ?thesis using nc by (simp add: atoi_def d t h Let_def)
qed

text \<open>A well-formed control line, and the parser's in-place edit of it.\<close>

lemma parse_ctrl_line_no_fault:
  assumes "line_size \<le> length line"
  shows "\<exists>b line' sk. parse_ctrl_line line line_size seek_to = Inr (b, line', sk)"
proof (cases "memchr (take (line_size - 19) (drop 19 line)) CHR '',''")
  case None
  with assms show ?thesis by (auto simp: parse_ctrl_line_def Let_def)
next
  case (Some i)
  let ?l = "line[19 + i := nul, line_size - 1 := nul]"
  show ?thesis
  proof (cases "22 \<le> line_size \<and> line ! (line_size - 1) = newline")
    case True
    have i: "i < line_size - 19" "line ! (19 + i) = CHR '',''"
      using memchr_SomeD(3,4) [OF Some] assms True by simp_all
    have "19 + i \<noteq> line_size - 1" using i(2) True by auto
    with i True have lt: "19 + i < line_size - 1" by linarith
    have in_line: "line_size - 1 < length line" using assms lt by linarith
    then have "?l ! (line_size - 1) = nul" by (intro nth_list_update_eq) simp
    moreover have "?l ! (line_size - 1) \<in> set (drop k ?l)" if "k \<le> line_size - 1" for k
      using that in_line by (intro nth_in_drop) simp_all
    ultimately have "nul \<in> set (drop k ?l)" if "k \<le> line_size - 1" for k using that by metis
    then have "nul \<in> set (drop 19 ?l)" "nul \<in> set (drop (19 + i + 1) ?l)" using lt by simp_all
    then obtain v w where "atoi (drop 19 ?l) = Inr v" "atoi (drop (19 + i + 1) ?l) = Inr w"
      using atoi_terminated by blast
    with Some assms True show ?thesis by (auto simp: parse_ctrl_line_def Let_def)
  next
    case False
    with assms show ?thesis by (auto simp: parse_ctrl_line_def Let_def)
  qed
qed

text \<open>The lines the parser takes for control lines.\<close>

definition is_ctrl_line :: "bytes \<Rightarrow> bool" where
  "is_ctrl_line l \<longleftrightarrow> 22 \<le> length l \<and> last l = newline \<and> take 19 l = EMBED_CTRL_PREF \<and> CHR '','' \<in> set (drop 19 l)"

lemma parse_ctrl_line_result:
  assumes "n \<le> length line" "parse_ctrl_line line n seek_to = Inr (b, line', sk)"
  shows "b = is_ctrl_line (take n line)" "\<not> b \<Longrightarrow> line' = line \<and> sk = seek_to"
proof -
  have c: "(memchr (take (n - 19) (drop 19 line)) CHR '','' = None) = (CHR '','' \<notin> set (drop 19 (take n line)))"
    by (simp add: memchr_None drop_take)
  have "last (take n line) = line ! (n - 1)" if "22 \<le> n" using that assms(1) by (intro last_take_conv) simp_all
  moreover have "take 19 (take n line) = take 19 line" if "22 \<le> n" using that by (simp add: min_def)
  ultimately have "b = is_ctrl_line (take n line) \<and> (\<not> b \<longrightarrow> line' = line \<and> sk = seek_to)"
    using assms c by (auto simp: parse_ctrl_line_def is_ctrl_line_def Let_def ebind_eq_Inr split: if_splits option.splits)
  then show "b = is_ctrl_line (take n line)" "\<not> b \<Longrightarrow> line' = line \<and> sk = seek_to" by blast+
qed

text \<open>The control line for two numbers.\<close>

definition ctrl_line :: "nat \<Rightarrow> nat \<Rightarrow> bytes" where
  "ctrl_line x y = EMBED_CTRL_PREF @ decimal x @ '','' @ decimal y @ [newline]"

lemma parse_ctrl_line_decimal:
  assumes "x < 2 ^ 31" "y < 2 ^ 31"
  shows "\<exists>line'. parse_ctrl_line (ctrl_line x y @ junk) (length (ctrl_line x y)) seek_to =
    Inr (True, line', \<lparr>write_cmd = of_nat x, write_cmd_offset = of_nat y\<rparr>)"
proof -
  define l where "l = ctrl_line x y"
  let ?dx = "decimal x" and ?dy = "decimal y"
  let ?line = "l @ junk"
  have len: "length l = 19 + length ?dx + 1 + length ?dy + 1" by (simp add: l_def ctrl_line_def)
  have pos: "0 < length ?dx" "0 < length ?dy" by simp_all
  have nc: "CHR '','' \<notin> set ?dx" using digit_not_special decimal_digits by blast
  have d19: "drop 19 ?line = ?dx @ CHR '','' # ?dy @ newline # junk" by (simp add: l_def ctrl_line_def)
  have t: "take (length l - 19) (drop 19 ?line) = ?dx @ CHR '','' # ?dy @ [newline]"
    by (simp add: l_def ctrl_line_def)
  have m: "memchr (take (length l - 19) (drop 19 ?line)) CHR '','' = Some (length ?dx)"
  proof -
    have "takeWhile (\<lambda>b. b \<noteq> CHR '','') (?dx @ CHR '','' # ?dy @ [newline]) = ?dx"
      using nc by (subst takeWhile_append2) auto
    then show ?thesis unfolding t by (simp add: memchr_def Let_def)
  qed
  have last: "?line ! (length l - 1) = newline"
    by (simp add: l_def ctrl_line_def nth_append)
  have pre: "take 19 ?line = EMBED_CTRL_PREF" by (simp add: l_def ctrl_line_def)
  have upd: "?line[19 + length ?dx := nul, length l - 1 := nul] =
      EMBED_CTRL_PREF @ ?dx @ nul # ?dy @ nul # junk"
    by (simp add: l_def ctrl_line_def list_update_append)
  have "atoi (drop 19 (EMBED_CTRL_PREF @ ?dx @ nul # ?dy @ nul # junk)) = Inr (int x)"
    using atoi_decimal [OF assms(1)] by simp
  moreover have "atoi (drop (19 + length ?dx + 1) (EMBED_CTRL_PREF @ ?dx @ nul # ?dy @ nul # junk)) = Inr (int y)"
    using atoi_decimal [OF assms(2)] by simp
  ultimately show ?thesis
    unfolding l_def [symmetric] using m last pre pos upd len by (simp add: parse_ctrl_line_def Let_def del: list_update.simps)
qed

lemma is_ctrl_line_ctrl_line: "is_ctrl_line (ctrl_line x y)"
  by (simp add: is_ctrl_line_def ctrl_line_def Suc_le_eq numeral_eq_Suc)

section \<open>Properties\<close>

text \<open>
  C19: Parsing undoes printing: the control line for any two numbers that fit an \<open>int\<close>, written in
  decimal, is recognised, wherever in a larger buffer it ends, and yields exactly these
  numbers.
\<close>

theorem parse_ctrl_line_roundtrip:
  assumes "x < 2 ^ 31" "y < 2 ^ 31"
  shows "\<exists>line'. parse_ctrl_line (ctrl_line x y @ junk) (length (ctrl_line x y)) seek_to =
    Inr (True, line', \<lparr>write_cmd = of_nat x, write_cmd_offset = of_nat y\<rparr>)"
  by (rule parse_ctrl_line_decimal [OF assms])

theorem parse_ctrl_line_roundtrip_witness:
  "\<exists>line'. parse_ctrl_line (''AESDCHAR_IOCSEEKTO:3,12'' @ [newline, nul])
     (length (''AESDCHAR_IOCSEEKTO:3,12'' @ [newline])) \<lparr>write_cmd = 0, write_cmd_offset = 0\<rparr> =
     Inr (True, line', \<lparr>write_cmd = 3, write_cmd_offset = 12\<rparr>)"
proof -
  have "decimal 3 = ''3''" "decimal 12 = ''12''" by code_simp+
  then show ?thesis
    using parse_ctrl_line_roundtrip [of 3 12 "[nul]" "\<lparr>write_cmd = 0, write_cmd_offset = 0\<rparr>"]
    by (simp add: ctrl_line_def EMBED_CTRL_PREF_def)
qed

text \<open>
  On every line that lies in its buffer the parser stays inside the buffer and decides exactly
  whether the line starts with the prefix, has a comma after it and ends with a newline. A
  line it does not take for a control line is left untouched, so that it is stored as it was
  sent.
\<close>

theorem parse_ctrl_line_decides:
  assumes "n \<le> length line"
  shows "\<exists>line' sk. parse_ctrl_line line n seek_to = Inr (is_ctrl_line (take n line), line', sk) \<and>
    (\<not> is_ctrl_line (take n line) \<longrightarrow> line' = line \<and> sk = seek_to)"
proof -
  obtain b line' sk where r: "parse_ctrl_line line n seek_to = Inr (b, line', sk)"
    using parse_ctrl_line_no_fault [OF assms] by blast
  from parse_ctrl_line_result [OF assms r] r show ?thesis by blast
qed

theorem parse_ctrl_line_decides_witness:
  "\<exists>line' sk. parse_ctrl_line (''hello'' @ [newline, nul]) 6 \<lparr>write_cmd = 0, write_cmd_offset = 0\<rparr> = Inr (False, line', sk) \<and>
     line' = ''hello'' @ [newline, nul]"
  using parse_ctrl_line_decides [of 6 "''hello'' @ [newline, nul]" "\<lparr>write_cmd = 0, write_cmd_offset = 0\<rparr>"]
  by (simp add: is_ctrl_line_def)

text \<open>
  The parser does not check that the parameters are numbers in range: a line without digits is
  taken for a request to seek to byte 0 of command 0, and a negative command number becomes a
  huge unsigned one.
\<close>

theorem parse_ctrl_line_accepts_malformed:
  "map_sum id (\<lambda>(b, _, sk). (b, sk)) (parse_ctrl_line (EMBED_CTRL_PREF @ ''x,'' @ [newline]) 22 \<lparr>write_cmd = 9, write_cmd_offset = 9\<rparr>) =
     Inr (True, \<lparr>write_cmd = 0, write_cmd_offset = 0\<rparr>) \<and>
   map_sum id (\<lambda>(b, _, sk). (b, sk)) (parse_ctrl_line (EMBED_CTRL_PREF @ ''-1,0'' @ [newline]) 24 \<lparr>write_cmd = 9, write_cmd_offset = 9\<rparr>) =
     Inr (True, \<lparr>write_cmd = 0xFFFFFFFF, write_cmd_offset = 0\<rparr>)"
  by code_simp

end
