(* ===== verification/Send_File.thy ===== *)
theory Send_File
  imports Readline
begin

text \<open>
  \<open>send_file\<close> of \<open>server/sock_thread.c\<close>: sending the rest of a file to the client, line by line.
  The file is the bytes \<open>getline\<close> still obtains from it. The socket is the sequence of what it
  does on successive calls of \<open>send\<close>: fail, or take up to some number of bytes. \<open>bytes_left\<close>
  and \<open>offset\<close> are of type \<open>size_t\<close>, and the result -1 of \<open>send\<close> is added to them as it is.
  \<open>None\<close> is a run that does not end: a call of \<open>send\<close> that never returns.
\<close>

section \<open>The file and the socket\<close>

text \<open>The lines successive calls of \<open>getline\<close> return, and the block one of them is stored in.\<close>

function getlines :: "bytes \<Rightarrow> bytes list" where
  "getlines ds = (if ds = [] then [] else first_line ds # getlines (drop (length (first_line ds)) ds))"
  by pat_completeness auto
termination
proof (relation "measure length", goal_cases)
  case (2 ds)
  then show ?case by (cases ds) (auto simp: first_line_def)
qed simp

declare getlines.simps [simp del]

definition line_block :: "bytes \<Rightarrow> bytes" where
  "line_block l = l @ [nul]"

datatype send_event = Send_Error | Send_Up_To nat

text \<open>The result of \<open>send(fd, p, n, 0)\<close>.\<close>

definition send :: "send_event \<Rightarrow> nat \<Rightarrow> int" where
  "send ev n = (case ev of Send_Error \<Rightarrow> - 1 | Send_Up_To k \<Rightarrow> int (min k n))"

section \<open>The function\<close>

text \<open>The inner loop; it also returns what the client has received and the events left over.\<close>

fun send_line ::
  "send_event list \<Rightarrow> bytes \<Rightarrow> u64 \<Rightarrow> u64 \<Rightarrow> bytes \<Rightarrow> (fault + send_event list \<times> bytes) option" where
  "send_line evs line bytes_left offset sent =
     (if bytes_left = 0 then Some (Inr (evs, sent))
      else if length line < unat offset + unat bytes_left then Some (Inl Out_Of_Bounds)
      else case evs of [] \<Rightarrow> None
        | ev # evs' \<Rightarrow>
            (let bytes_sent = send ev (unat bytes_left) in
             send_line evs' line (bytes_left - of_int bytes_sent) (offset + of_int bytes_sent)
               (sent @ take (nat bytes_sent) (drop (unat offset) line))))"

declare send_line.simps [simp del]

text \<open>The outer loop.\<close>

fun send_lines :: "send_event list \<Rightarrow> bytes list \<Rightarrow> bytes \<Rightarrow> (fault + send_event list \<times> bytes) option" where
  "send_lines evs [] sent = Some (Inr (evs, sent))"
| "send_lines evs (l # ls) sent =
     (case send_line evs (line_block l) (of_nat (length l)) 0 sent of
        None \<Rightarrow> None
      | Some (Inl e) \<Rightarrow> Some (Inl e)
      | Some (Inr (evs', sent')) \<Rightarrow> send_lines evs' ls sent')"

text \<open>\<open>err\<close> is the value of \<open>errno\<close> when the loops are done.\<close>

definition send_file :: "send_event list \<Rightarrow> bytes \<Rightarrow> int \<Rightarrow> (fault + bool \<times> bytes) option" where
  "send_file evs contents err =
     map_option (\<lambda>r. ebind r (\<lambda>(_, sent). Inr (err = 0, sent))) (send_lines evs (getlines contents) [])"

section \<open>Correctness\<close>

lemma length_first_line: "length (first_line ds) \<le> length ds"
proof (cases "newline \<in> set ds")
  case True
  then have "length (takeWhile (\<lambda>b. b \<noteq> newline) ds) < length ds" by (auto simp: length_takeWhile_less_iff)
  with True show ?thesis by (simp add: first_line_def)
next
  case False
  then show ?thesis by (simp add: first_line_def length_takeWhile_le)
qed

lemma first_line_prefix: "take (length (first_line ds)) ds = first_line ds"
proof (cases "memchr ds newline")
  case None
  then show ?thesis by (simp add: memchr_None first_line_def pre_self)
next
  case (Some i)
  with first_line_memchr [OF Some, of "[]"] memchr_SomeD(3) [OF Some] show ?thesis by simp
qed

lemma concat_getlines: "concat (getlines ds) = ds"
proof (induction ds rule: getlines.induct)
  case (1 ds)
  then show ?case
    using append_take_drop_id [of "length (first_line ds)" ds] by (subst getlines.simps) (simp add: first_line_prefix)
qed

text \<open>A socket that takes at least one byte per call.\<close>

definition accepting :: "send_event list \<Rightarrow> bool" where
  "accepting evs \<longleftrightarrow> (\<forall>ev \<in> set evs. case ev of Send_Error \<Rightarrow> False | Send_Up_To k \<Rightarrow> 0 < k)"

lemma send_accepting:
  assumes "accepting (ev # evs)" "0 < n"
  obtains m where "send ev n = int m" "0 < m" "m \<le> n" "accepting evs"
  using assms by (cases ev) (auto simp: accepting_def send_def)

lemma send_line_complete:
  assumes "accepting evs" "left \<le> length evs" "unat bl = left" "off + left = length line" "off + left < 2 ^ 63"
  shows "\<exists>evs'. send_line evs (line @ [nul]) bl (of_nat off) sent = Some (Inr (evs', sent @ drop off line)) \<and>
    accepting evs' \<and> length evs - left \<le> length evs'"
  using assms
proof (induction evs arbitrary: left bl off sent)
  case Nil
  then show ?case by (simp add: send_line.simps unat_eq_0)
next
  case (Cons ev evs)
  have uo: "unat (of_nat off :: u64) = off" using Cons.prems(5) by (intro unat_of_nat_u64) simp
  show ?case
  proof (cases "left = 0")
    case True
    with Cons.prems have "bl = 0" by (simp add: unat_eq_0)
    with True Cons.prems show ?thesis by (simp add: send_line.simps)
  next
    case False
    then obtain m where m: "send ev left = int m" "0 < m" "m \<le> left" "accepting evs"
      using send_accepting [OF Cons.prems(1), of left] by blast
    have um: "unat (of_nat m :: u64) = m" using m(3) Cons.prems(5) by (intro unat_of_nat_u64) simp
    have "(of_nat m :: u64) \<le> bl" using um m(3) Cons.prems(3) by (simp add: word_le_nat_alt)
    then have bl': "unat (bl - of_nat m) = left - m" using um Cons.prems(3) by (simp add: unat_sub_le)
    have nz: "bl \<noteq> 0" using False Cons.prems(3) by (auto simp: unat_eq_0)
    have step: "send_line (ev # evs) (line @ [nul]) bl (of_nat off) sent =
        send_line evs (line @ [nul]) (bl - of_nat m) (of_nat (off + m)) (sent @ take m (drop off line))"
      using nz m uo Cons.prems(3,4) by (simp add: send_line.simps [of "ev # evs"])
    have d: "take m (drop off line) @ drop (off + m) line = drop off line"
      by (metis add.commute append_take_drop_id drop_drop)
    have "left - m \<le> length evs" "off + m + (left - m) = length line" "off + m + (left - m) < 2 ^ 63"
      using Cons.prems(2,4,5) m(2,3) by simp_all
    from Cons.IH [OF m(4) this(1) bl' this(2,3), of "sent @ take m (drop off line)"]
    obtain evs' where "send_line evs (line @ [nul]) (bl - of_nat m) (of_nat (off + m)) (sent @ take m (drop off line)) =
        Some (Inr (evs', (sent @ take m (drop off line)) @ drop (off + m) line))" "accepting evs'"
      "length evs - (left - m) \<le> length evs'" by blast
    then show ?thesis unfolding step using d m by (intro exI [of _ evs']) auto
  qed
qed

lemma send_lines_complete:
  assumes "accepting evs" "sum_list (map length ls) \<le> length evs" "\<forall>l \<in> set ls. length l < 2 ^ 63"
  shows "\<exists>evs'. send_lines evs ls sent = Some (Inr (evs', sent @ concat ls))"
  using assms
proof (induction ls arbitrary: evs sent)
  case (Cons l ls)
  have "unat (of_nat (length l) :: u64) = length l" using Cons.prems(3) by (intro unat_of_nat_u64) simp
  with send_line_complete [OF Cons.prems(1), of "length l" "of_nat (length l)" 0 l sent] Cons.prems
  obtain evs' where e: "send_line evs (l @ [nul]) (of_nat (length l)) 0 sent = Some (Inr (evs', sent @ l))"
    "accepting evs'" "length evs - length l \<le> length evs'" by auto
  with Cons.IH [OF e(2), of "sent @ l"] Cons.prems show ?case by (auto simp: line_block_def)
qed simp

lemma send_file_complete:
  assumes "accepting evs" "length contents \<le> length evs" "length contents < 2 ^ 63"
  shows "send_file evs contents err = Some (Inr (err = 0, contents))"
proof -
  have sum: "sum_list (map length (getlines contents)) = length contents"
    using arg_cong [OF concat_getlines, of length] by (simp add: length_concat)
  have "length l < 2 ^ 63" if "l \<in> set (getlines contents)" for l
  proof -
    have "length l \<in> set (map length (getlines contents))" using that by simp
    from member_le_sum_list [OF this] show ?thesis using sum assms(3) by linarith
  qed
  then obtain evs' where "send_lines evs (getlines contents) [] = Some (Inr (evs', [] @ concat (getlines contents)))"
    using send_lines_complete [OF assms(1), of "getlines contents" "[]"] assms(2) sum by metis
  then show ?thesis by (simp add: send_file_def concat_getlines)
qed

section \<open>Properties\<close>

text \<open>
  C20: As long as the socket takes at least one byte on each call, the client receives the whole
  rest of the file, byte for byte and in order, however the socket cuts it up, after at most
  as many calls of \<open>send\<close> as there are bytes; the result is true if \<open>errno\<close> is 0.
\<close>

theorem send_file_sends_everything:
  assumes "accepting evs" "length contents \<le> length evs" "length contents < 2 ^ 63"
  shows "send_file evs contents err = Some (Inr (err = 0, contents))"
  by (rule send_file_complete [OF assms])

theorem send_file_sends_everything_witness:
  "send_file [Send_Up_To 1, Send_Up_To 9, Send_Up_To 1, Send_Up_To 9, Send_Up_To 9]
     (''ab'' @ [newline] @ ''c'' @ [newline]) 0 = Some (Inr (True, ''ab'' @ [newline] @ ''c'' @ [newline]))"
  using send_file_sends_everything [of "[Send_Up_To 1, Send_Up_To 9, Send_Up_To 1, Send_Up_To 9, Send_Up_To 9]"
      "''ab'' @ [newline] @ ''c'' @ [newline]" 0]
  by (simp add: accepting_def)

text \<open>
  C38: A failing \<open>send\<close> is not noticed: its result -1 is subtracted from the number of bytes left and
  added to the offset. If the first call fails, the next one reads before the start of the
  line.
\<close>

theorem send_file_failure_reads_out_of_bounds:
  assumes "contents \<noteq> []" "length contents < 2 ^ 63"
  shows "send_file (Send_Error # evs) contents err = Some (Inl Out_Of_Bounds)"
proof -
  let ?l = "first_line contents"
  have l: "?l \<noteq> []" "length ?l < 2 ^ 63" 
    using assms length_first_line [of contents] by (cases contents; auto simp: first_line_def)+
  have u: "unat (of_nat (length ?l) :: u64) = length ?l" using l by (intro unat_of_nat_u64) simp
  then have nz: "(of_nat (length ?l) :: u64) \<noteq> 0" using l(1) by (metis length_0_conv unat_0)
  have u1: "unat (of_nat (length ?l) + 1 :: u64) = Suc (length ?l)"
    using u l(2) by (subst unat_add_no_wrap) simp_all
  then have nz': "(of_nat (length ?l) + 1 :: u64) \<noteq> 0" by (metis nat.simps(3) unat_0)
  then have nz'': "(of_nat (length ?l) :: u64) \<noteq> - 1" by (metis add.left_inverse)
  have big: "\<not> unat (- 1 :: u64) \<le> length ?l" using l(2) by (simp add: unsigned_minus_1_eq_mask mask_eq_exp_minus_1)
  have "send_line (Send_Error # evs) (line_block ?l) (of_nat (length ?l)) 0 [] = Some (Inl Out_Of_Bounds)"
    unfolding line_block_def
    using nz nz' nz'' u u1 big by (simp add: send_line.simps [of _ "?l @ [nul]"] send_def Let_def)
  moreover have "getlines contents = ?l # getlines (drop (length ?l) contents)"
    using assms(1) by (subst getlines.simps) simp
  ultimately show ?thesis by (simp add: send_file_def)
qed

theorem send_file_failure_reads_out_of_bounds_witness:
  "send_file [Send_Error, Send_Up_To 9] (''ab'' @ [newline]) 0 = Some (Inl Out_Of_Bounds)"
  by (rule send_file_failure_reads_out_of_bounds) simp_all

end
