(* ===== verification/Slist.thy ===== *)
theory Slist
  imports Aesd_Prelude
begin

text \<open>
  The singly linked list of \<open>server/queue.h\<close> (the \<open>SLIST\<close> macros) at the type the server uses
  it, the list of \<open>struct aesd_thread_args\<close> of \<open>server/aesdsocket.h\<close>. A node is a heap block
  with the embedded link \<open>elements.sle_next\<close>; the macros are functions on the heap and the
  head, with the faults of the pointer accesses they perform. The debug hooks of \<open>queue.h\<close>
  (\<open>TRASHIT\<close>, \<open>QMD_SAVELINK\<close>) are empty unless \<open>QUEUE_MACRO_DEBUG\<close> is defined.

  The loop in \<open>SLIST_REMOVE\<close> runs forever on a cyclic list, so it is a
  \<open>partial_function (option)\<close>: \<open>None\<close> is a run that does not end. The last section states the
  contract of a list of nodes as a locale and interprets it on the macros.
\<close>

section \<open>Nodes and heap\<close>

record aesd_thread_args =
  thread_id :: u64
  mutex :: ptr
  sock_fd :: int
  ip_address :: bytes       \<comment> \<open>an array of \<open>INET6_ADDRSTRLEN\<close> characters\<close>
  last_error :: int
  finished :: bool
  sle_next :: ptr           \<comment> \<open>the field \<open>elements.sle_next\<close>\<close>

record thread_args_head =
  slh_first :: ptr

type_synonym args_heap = "nat \<rightharpoonup> aesd_thread_args"

record thread_list =
  list_head :: thread_args_head
  heap :: args_heap

definition node_at :: "args_heap \<Rightarrow> ptr \<Rightarrow> fault + aesd_thread_args" where
  "node_at h p = (case p of NULL \<Rightarrow> Inl Null_Deref
     | Ptr a \<Rightarrow> (case h a of None \<Rightarrow> Inl Dangling | Some n \<Rightarrow> Inr n))"

section \<open>The macros\<close>

definition SLIST_FIRST :: "thread_list \<Rightarrow> ptr" where
  "SLIST_FIRST s = slh_first (list_head s)"

definition SLIST_EMPTY :: "thread_list \<Rightarrow> bool" where
  "SLIST_EMPTY s \<longleftrightarrow> slh_first (list_head s) = NULL"

definition SLIST_INIT :: "thread_list \<Rightarrow> thread_list" where
  "SLIST_INIT s = s\<lparr>list_head := \<lparr>slh_first = NULL\<rparr>\<rparr>"

definition SLIST_NEXT :: "args_heap \<Rightarrow> ptr \<Rightarrow> fault + ptr" where
  "SLIST_NEXT h elm = ebind (node_at h elm) (\<lambda>n. Inr (sle_next n))"

text \<open>Assignment to \<open>SLIST_NEXT(elm, field)\<close>.\<close>

definition set_next :: "args_heap \<Rightarrow> ptr \<Rightarrow> ptr \<Rightarrow> fault + args_heap" where
  "set_next h elm q = (case elm of NULL \<Rightarrow> Inl Null_Deref
     | Ptr a \<Rightarrow> (case h a of None \<Rightarrow> Inl Dangling | Some n \<Rightarrow> Inr (h(a \<mapsto> n\<lparr>sle_next := q\<rparr>))))"

definition SLIST_INSERT_HEAD :: "thread_list \<Rightarrow> ptr \<Rightarrow> fault + thread_list" where
  "SLIST_INSERT_HEAD s elm =
     ebind (set_next (heap s) elm (SLIST_FIRST s)) (\<lambda>h.
       Inr \<lparr>list_head = \<lparr>slh_first = elm\<rparr>, heap = h\<rparr>)"

definition SLIST_REMOVE_HEAD :: "thread_list \<Rightarrow> fault + thread_list" where
  "SLIST_REMOVE_HEAD s =
     ebind (SLIST_NEXT (heap s) (SLIST_FIRST s)) (\<lambda>q. Inr (s\<lparr>list_head := \<lparr>slh_first = q\<rparr>\<rparr>))"

definition SLIST_REMOVE_AFTER :: "thread_list \<Rightarrow> ptr \<Rightarrow> fault + thread_list" where
  "SLIST_REMOVE_AFTER s elm =
     ebind (SLIST_NEXT (heap s) elm) (\<lambda>p.
     ebind (SLIST_NEXT (heap s) p) (\<lambda>q.
     ebind (set_next (heap s) elm q) (\<lambda>h. Inr (s\<lparr>heap := h\<rparr>))))"

text \<open>The loop of \<open>SLIST_REMOVE\<close> that looks for the predecessor.\<close>

partial_function (option) slist_find_prev :: "args_heap \<Rightarrow> ptr \<Rightarrow> ptr \<Rightarrow> (fault + ptr) option" where
  "slist_find_prev h curelm elm =
     (case SLIST_NEXT h curelm of Inl e \<Rightarrow> Some (Inl e)
      | Inr n \<Rightarrow> if n = elm then Some (Inr curelm) else slist_find_prev h n elm)"

definition SLIST_REMOVE :: "thread_list \<Rightarrow> ptr \<Rightarrow> (fault + thread_list) option" where
  "SLIST_REMOVE s elm =
     (if SLIST_FIRST s = elm then Some (SLIST_REMOVE_HEAD s)
      else map_option (\<lambda>r. ebind r (\<lambda>curelm. SLIST_REMOVE_AFTER s curelm))
             (slist_find_prev (heap s) (SLIST_FIRST s) elm))"

section \<open>The list a heap represents\<close>

fun links :: "args_heap \<Rightarrow> ptr \<Rightarrow> nat list \<Rightarrow> bool" where
  "links h p [] \<longleftrightarrow> p = NULL"
| "links h p (a # as) \<longleftrightarrow> p = Ptr a \<and> (case h a of None \<Rightarrow> False | Some n \<Rightarrow> links h (sle_next n) as)"

definition list_repr :: "thread_list \<Rightarrow> nat list \<Rightarrow> bool" where
  "list_repr s as \<longleftrightarrow> links (heap s) (SLIST_FIRST s) as"

text \<open>The contents of a node apart from its link.\<close>

definition payload :: "thread_list \<Rightarrow> nat \<Rightarrow> aesd_thread_args option" where
  "payload s a = map_option (\<lambda>n. n\<lparr>sle_next := NULL\<rparr>) (heap s a)"

lemma links_unique: "links h p as \<Longrightarrow> links h p bs \<Longrightarrow> as = bs"
proof (induction as arbitrary: p bs)
  case Nil
  then show ?case by (cases bs) auto
next
  case (Cons a as)
  then obtain bs' where "bs = a # bs'" by (cases bs) auto
  with Cons show ?case by (auto split: option.splits)
qed

lemma links_suffix: "links h p (as @ b # bs) \<Longrightarrow> links h (Ptr b) (b # bs)"
proof (induction as arbitrary: p)
  case Nil
  then show ?case by simp
next
  case (Cons a as)
  then show ?case by (cases "h a") auto
qed

lemma links_distinct: "links h p as \<Longrightarrow> distinct as"
proof (induction as arbitrary: p)
  case (Cons a as)
  then obtain n where n: "h a = Some n" "links h (sle_next n) as" by (auto split: option.splits)
  have "a \<notin> set as"
  proof
    assume "a \<in> set as"
    then obtain bs cs where s: "as = bs @ a # cs" by (meson split_list)
    have "links h (Ptr a) (a # cs)" using n(2) unfolding s by (rule links_suffix)
    moreover have "links h (Ptr a) (a # as)" using n by simp
    ultimately have "a # cs = a # as" by (rule links_unique)
    then have "cs = as" by simp
    with s show False by simp
  qed
  with Cons.IH [OF n(2)] show ?case by simp
qed simp

lemma links_frame: "links h p as \<Longrightarrow> (\<And>a. a \<in> set as \<Longrightarrow> h' a = h a) \<Longrightarrow> links h' p as"
  by (induction as arbitrary: p) (auto split: option.splits)

lemma links_live: "links h p as \<Longrightarrow> a \<in> set as \<Longrightarrow> \<exists>n. h a = Some n"
  by (induction as arbitrary: p) (auto split: option.splits)

lemma links_NULL [simp]: "links h NULL as \<longleftrightarrow> as = []"
  by (cases as) auto

lemma links_next:
  "links h p (as @ b # bs) \<Longrightarrow> SLIST_NEXT h (Ptr b) = Inr (case bs of [] \<Rightarrow> NULL | c # _ \<Rightarrow> Ptr c)"
  by (drule links_suffix) (auto simp: SLIST_NEXT_def node_at_def split: option.splits list.splits)

lemma links_relink:
  assumes "links h p (as @ c # b # bs)" "h c = Some nc" "h b = Some nb"
  shows "links (h(c \<mapsto> nc\<lparr>sle_next := sle_next nb\<rparr>)) p (as @ c # bs)"
  using assms(1)
proof (induction as arbitrary: p)
  case Nil
  then have "links h (sle_next nb) bs" "c \<notin> set bs" "p = Ptr c"
    using assms(2,3) links_distinct [OF Nil] by auto
  then show ?case by (auto intro: links_frame)
next
  case (Cons a as)
  then have "a \<noteq> c" using links_distinct [OF Cons.prems] by auto
  with Cons show ?case by (auto split: option.splits)
qed

lemma slist_find_prev_spec:
  assumes "links h p (c # as)" "b \<in> set as"
  shows "\<exists>xs d ys. c # as = xs @ d # b # ys \<and> slist_find_prev h (Ptr c) (Ptr b) = Some (Inr (Ptr d))"
  using assms
proof (induction as arbitrary: p c)
  case (Cons a as)
  from Cons.prems(1) have n: "SLIST_NEXT h (Ptr c) = Inr (Ptr a)"
    using links_next [of h p "[]" c "a # as"] by simp
  show ?case
  proof (cases "a = b")
    case True
    with n show ?thesis by (intro exI [of _ "[]"]) (simp add: slist_find_prev.simps)
  next
    case False
    from Cons.prems(1) have "links h (Ptr a) (a # as)" using links_suffix [of h p "[c]" a as] by simp
    from Cons.IH [OF this] False Cons.prems(2) obtain xs d ys where
      "a # as = xs @ d # b # ys" "slist_find_prev h (Ptr a) (Ptr b) = Some (Inr (Ptr d))" by auto
    with n False show ?thesis
      by (intro exI [of _ "c # xs"] exI [of _ d] exI [of _ ys]) (simp add: slist_find_prev.simps [of h "Ptr c"])
  qed
qed simp

lemma payload_upd: "payload (s\<lparr>heap := h\<rparr>) a = map_option (\<lambda>n. n\<lparr>sle_next := NULL\<rparr>) (h a)"
  by (simp add: payload_def)

lemma slist_insert_head:
  assumes "list_repr s as" "a \<notin> set as" "payload s a \<noteq> None"
  shows "\<exists>s'. SLIST_INSERT_HEAD s (Ptr a) = Inr s' \<and> list_repr s' (a # as) \<and> payload s' = payload s"
proof -
  from assms(3) obtain n where n: "heap s a = Some n" by (auto simp: payload_def)
  have "links ((heap s)(a \<mapsto> n\<lparr>sle_next := SLIST_FIRST s\<rparr>)) (SLIST_FIRST s) as"
    using assms(1,2) by (auto simp: list_repr_def intro: links_frame)
  with n show ?thesis
    by (auto simp: SLIST_INSERT_HEAD_def set_next_def list_repr_def SLIST_FIRST_def payload_def)
qed

lemma slist_remove:
  assumes "list_repr s as" "b \<in> set as"
  shows "\<exists>s'. SLIST_REMOVE s (Ptr b) = Some (Inr s') \<and> list_repr s' (remove1 b as) \<and> payload s' = payload s"
proof -
  from assms obtain a as' where as: "as = a # as'" by (cases as) auto
  have l: "links (heap s) (SLIST_FIRST s) (a # as')" using assms(1) as by (simp add: list_repr_def)
  then have f: "SLIST_FIRST s = Ptr a" by simp
  show ?thesis
  proof (cases "a = b")
    case True
    with l f as show ?thesis
      by (auto simp: SLIST_REMOVE_def SLIST_REMOVE_HEAD_def SLIST_NEXT_def node_at_def list_repr_def SLIST_FIRST_def
          payload_def split: option.splits)
  next
    case False
    with assms(2) as have "b \<in> set as'" by simp
    with slist_find_prev_spec [OF l] obtain xs d ys where
      d: "a # as' = xs @ d # b # ys" "slist_find_prev (heap s) (Ptr a) (Ptr b) = Some (Inr (Ptr d))" by blast
    have "d \<in> set (a # as')" "b \<in> set (a # as')" unfolding d(1) by simp_all
    then obtain nd nb where n: "heap s d = Some nd" "heap s b = Some nb"
      using links_live [OF l] by blast
    let ?h = "(heap s)(d \<mapsto> nd\<lparr>sle_next := sle_next nb\<rparr>)"
    have "SLIST_NEXT (heap s) (Ptr d) = Inr (Ptr b)"
      using links_next [of "heap s" "SLIST_FIRST s" xs d "b # ys"] l d(1) by simp
    with n have "SLIST_REMOVE_AFTER s (Ptr d) = Inr (s\<lparr>heap := ?h\<rparr>)"
      by (simp add: SLIST_REMOVE_AFTER_def SLIST_NEXT_def node_at_def set_next_def)
    with d f False have "SLIST_REMOVE s (Ptr b) = Some (Inr (s\<lparr>heap := ?h\<rparr>))" by (simp add: SLIST_REMOVE_def)
    moreover have "links ?h (SLIST_FIRST s) (xs @ d # ys)"
      using links_relink l d(1) n by simp
    moreover have "remove1 b as = xs @ d # ys"
      using links_distinct [OF l] d(1) as by (simp add: remove1_append)
    moreover have "payload (s\<lparr>heap := ?h\<rparr>) = payload s"
      using n by (auto simp: payload_def)
    ultimately show ?thesis by (auto simp: list_repr_def SLIST_FIRST_def)
  qed
qed

section \<open>The contract of a list of nodes\<close>

text \<open>
  What a client of the list relies on: the nodes linked, in order; the contents of the
  nodes, which linking and unlinking never change; and that a node that is not linked can be
  released without disturbing the list.
\<close>

locale node_list =
  fixes repr :: "'s \<Rightarrow> nat list \<Rightarrow> bool"
    and data :: "'s \<Rightarrow> nat \<Rightarrow> 'n option"
    and first :: "'s \<Rightarrow> ptr"
    and succ :: "'s \<Rightarrow> ptr \<Rightarrow> 'f + ptr"
    and insert_head :: "'s \<Rightarrow> ptr \<Rightarrow> 'f + 's"
    and remove :: "'s \<Rightarrow> ptr \<Rightarrow> ('f + 's) option"
    and release :: "'s \<Rightarrow> ptr \<Rightarrow> 'f + 's"
  assumes distinct_law: "repr s as \<Longrightarrow> distinct as"
    and live_law: "repr s as \<Longrightarrow> a \<in> set as \<Longrightarrow> data s a \<noteq> None"
    and first_law: "repr s as \<Longrightarrow> first s = (case as of [] \<Rightarrow> NULL | a # _ \<Rightarrow> Ptr a)"
    and succ_law: "repr s (as @ b # bs) \<Longrightarrow> succ s (Ptr b) = Inr (case bs of [] \<Rightarrow> NULL | c # _ \<Rightarrow> Ptr c)"
    and insert_law: "repr s as \<Longrightarrow> a \<notin> set as \<Longrightarrow> data s a \<noteq> None \<Longrightarrow>
      \<exists>s'. insert_head s (Ptr a) = Inr s' \<and> repr s' (a # as) \<and> data s' = data s"
    and remove_law: "repr s as \<Longrightarrow> a \<in> set as \<Longrightarrow>
      \<exists>s'. remove s (Ptr a) = Some (Inr s') \<and> repr s' (remove1 a as) \<and> data s' = data s"
    and release_law: "repr s as \<Longrightarrow> a \<notin> set as \<Longrightarrow> data s a \<noteq> None \<Longrightarrow>
      \<exists>s'. release s (Ptr a) = Inr s' \<and> repr s' as \<and> data s' = (data s)(a := None)"
begin

text \<open>Unlinking a node and releasing it never faults and never loops.\<close>

lemma unlink_release:
  assumes "repr s (as @ a # bs)"
  shows "\<exists>s1 s2. remove s (Ptr a) = Some (Inr s1) \<and> release s1 (Ptr a) = Inr s2 \<and>
    repr s2 (as @ bs) \<and> data s2 = (data s)(a := None)"
proof -
  have d: "distinct (as @ a # bs)" using assms by (rule distinct_law)
  then have r: "remove1 a (as @ a # bs) = as @ bs" by (simp add: remove1_append)
  from remove_law [OF assms, of a] r obtain s1 where
    s1: "remove s (Ptr a) = Some (Inr s1)" "repr s1 (as @ bs)" "data s1 = data s" by auto
  moreover have "a \<notin> set (as @ bs)" "data s1 a \<noteq> None"
    using d s1(3) live_law [OF assms, of a] by auto
  ultimately show ?thesis using release_law [OF s1(2), of a] by auto
qed

lemma empty_iff: "repr s as \<Longrightarrow> first s = NULL \<longleftrightarrow> as = []"
  by (simp add: first_law split: list.split)

end

text \<open>\<open>free(elm)\<close> of a node.\<close>

definition free_node :: "thread_list \<Rightarrow> ptr \<Rightarrow> fault + thread_list" where
  "free_node s p = ebind (kfree (heap s) p) (\<lambda>h. Inr (s\<lparr>heap := h\<rparr>))"

lemma free_node_unlinked:
  assumes "list_repr s as" "a \<notin> set as" "payload s a \<noteq> None"
  shows "\<exists>s'. free_node s (Ptr a) = Inr s' \<and> list_repr s' as \<and> payload s' = (payload s)(a := None)"
proof -
  from assms(3) obtain n where n: "heap s a = Some n" by (auto simp: payload_def)
  have "links ((heap s)(a := None)) (SLIST_FIRST s) as"
    using assms(1,2) by (auto simp: list_repr_def intro: links_frame)
  with n show ?thesis
    by (auto simp: free_node_def list_repr_def SLIST_FIRST_def payload_def)
qed

interpretation sl: node_list list_repr payload SLIST_FIRST "\<lambda>s. SLIST_NEXT (heap s)"
  SLIST_INSERT_HEAD SLIST_REMOVE free_node
proof (unfold_locales, goal_cases)
  case (1 s as)
  then show ?case by (auto simp: list_repr_def intro: links_distinct)
next
  case (2 s as a)
  then show ?case using links_live by (fastforce simp: list_repr_def payload_def)
next
  case (3 s as)
  then show ?case by (cases as) (simp_all add: list_repr_def)
next
  case (4 s as b bs)
  then show ?case by (auto simp: list_repr_def intro: links_next)
next
  case (5 s as a)
  then show ?case by (rule slist_insert_head)
next
  case (6 s as a)
  then show ?case by (rule slist_remove)
next
  case (7 s as a)
  then show ?case by (rule free_node_unlinked)
qed

end
