(* ===== verification/Driver_Inv.thy ===== *)
theory Driver_Inv
  imports Char_Driver
begin

text \<open>
  The driver's invariant, the specification it refines and the proof for the file
  operations. The specification is a log: the complete commands kept (\<open>hist\<close>, oldest
  first, at most ten) and the bytes of the command being assembled (\<open>pend\<close>).
\<close>

section \<open>Hypotheses on the kernel\<close>

text \<open>
  \<open>kmalloc\<close> and its relatives serve requests up to \<open>KMALLOC_MAX_SIZE\<close> only, a few megabytes;
  the development needs no more than that this is below \<open>2 ^ 40\<close>. The VFS never passes a
  \<open>count\<close> above \<open>MAX_RW_COUNT\<close>, which is below \<open>2 ^ 31\<close>.
\<close>

abbreviation (input) kmalloc_bound :: nat where "kmalloc_bound \<equiv> 2 ^ 40"
abbreviation (input) rw_bound :: nat where "rw_bound \<equiv> 2 ^ 31"

definition kzalloc_ok :: "mem \<Rightarrow> ptr \<Rightarrow> u64 \<Rightarrow> bool" where
  "kzalloc_ok m p n = (case p of NULL \<Rightarrow> True
     | Ptr a \<Rightarrow> m a = None \<and> unat n < kmalloc_bound)"

definition krealloc_ok :: "mem \<Rightarrow> ptr \<Rightarrow> ptr \<Rightarrow> u64 \<Rightarrow> bool" where
  "krealloc_ok m old p n = (case p of NULL \<Rightarrow> True
     | Ptr a \<Rightarrow> (m a = None \<or> old = Ptr a) \<and> unat n < kmalloc_bound)"

definition alloc_ok :: "io_env \<Rightarrow> kernel \<Rightarrow> u64 \<Rightarrow> bool" where
  "alloc_ok env k cnt =
     (let dev = aesd_device k in
      if tmp_buff_size dev = 0 then kzalloc_ok (kmem k) (alloc_ret env) (cnt + 1)
      else krealloc_ok (kmem k) (tmp_buff_ptr dev) (alloc_ret env) (tmp_buff_size dev + cnt + 1))"

text \<open>
  \<open>fixed_size_llseek\<close>: \<open>SEEK_SET\<close>, \<open>SEEK_CUR\<close> and \<open>SEEK_END\<close> move to a position between 0 and
  the size; other targets and other kinds of seek are refused and change nothing.
\<close>

definition seek_target :: "kfile \<Rightarrow> u64 \<Rightarrow> int \<Rightarrow> u64 \<Rightarrow> u64" where
  "seek_target filp off whence sz =
     (if whence = SEEK_SET then off else if whence = SEEK_CUR then f_pos filp + off else sz + off)"

definition fixed_size_llseek_ok :: "llseek_fun \<Rightarrow> bool" where
  "fixed_size_llseek_ok fsl \<longleftrightarrow>
     (\<forall>filp off whence sz. whence \<in> {SEEK_SET, SEEK_CUR, SEEK_END} \<longrightarrow>
        (let t = seek_target filp off whence sz in
         0 \<le> sint t \<and> sint t \<le> sint sz \<longrightarrow> fsl filp off whence sz = (t, filp\<lparr>f_pos := t\<rparr>))) \<and>
     (\<forall>filp off sz. \<not> (0 \<le> sint off \<and> sint off \<le> sint sz) \<longrightarrow>
        fsl filp off SEEK_SET sz = (- 22, filp)) \<and>
     (\<forall>filp off sz. \<not> (0 \<le> sint (sz + off) \<and> sint (sz + off) \<le> sint sz) \<longrightarrow>
        fsl filp off SEEK_END sz = (- 22, filp)) \<and>
     (\<forall>filp off whence sz. whence \<notin> {SEEK_SET, SEEK_CUR, SEEK_END} \<longrightarrow>
        fsl filp off whence sz = (- 22, filp)) \<and>
     (\<forall>filp off whence sz. private_data (snd (fsl filp off whence sz)) = private_data filp)"

text \<open>The fields of an \<open>ioctl\<close> number built by \<open>_IOWR\<close>, and that it transfers data both ways.\<close>

definition ioc_ok :: "ioc_macros \<Rightarrow> bool" where
  "ioc_ok ioc \<longleftrightarrow>
     (\<forall>t n s. t < 256 \<longrightarrow> n < 256 \<longrightarrow> s < 2 ^ 13 \<longrightarrow>
        IOC_TYPE ioc (IOWR ioc t n s) = t \<and> IOC_NR ioc (IOWR ioc t n s) = n \<and>
        IOC_SIZE ioc (IOWR ioc t n s) = s \<and>
        IOC_DIR ioc (IOWR ioc t n s) = IOC_READ ioc OR IOC_WRITE ioc)"

section \<open>Specification\<close>

record aesd_log =
  hist :: "bytes list"
  pend :: bytes

definition log_write :: "aesd_log \<Rightarrow> bytes \<Rightarrow> aesd_log" where
  "log_write s ds =
     (let p = pend s @ ds in
      if p \<noteq> [] \<and> last p = newline then \<lparr>hist = last_n 10 (hist s @ [p]), pend = []\<rparr>
      else s\<lparr>pend := p\<rparr>)"

section \<open>Invariant and abstraction\<close>

definition the_cb :: "kernel \<Rightarrow> aesd_circular_buffer" where
  "the_cb k = (case deref_cb k (buffer (aesd_device k)) of Inl _ \<Rightarrow> aesd_circular_buffer_init
               | Inr cb \<Rightarrow> cb)"

text \<open>
  A live entry owns a block with its bytes, the last of which is a newline, and the
  terminating zero of the debug build.
\<close>

definition entry_ok :: "mem \<Rightarrow> aesd_buffer_entry \<Rightarrow> bool" where
  "entry_ok m e = (case block m (buffptr e) of Inl _ \<Rightarrow> False
     | Inr bs \<Rightarrow> (let n = unat (esize e) in
         0 < n \<and> n < kmalloc_bound \<and> length bs = Suc n \<and> bs ! n = nul \<and> bs ! (n - 1) = newline))"

definition entry_bytes :: "mem \<Rightarrow> aesd_buffer_entry \<Rightarrow> bytes" where
  "entry_bytes m e = (case block m (buffptr e) of Inl _ \<Rightarrow> [] | Inr bs \<Rightarrow> take (unat (esize e)) bs)"

text \<open>
  The pending command: either no block, or a block with room for its bytes and one more.
  A failed \<open>krealloc_array\<close> leaves \<open>NULL\<close> with a size, hence the first case.
\<close>

definition tmp_ok :: "mem \<Rightarrow> aesd_dev \<Rightarrow> bool" where
  "tmp_ok m dev \<longleftrightarrow> unat (tmp_buff_size dev) < kmalloc_bound \<and>
     (tmp_buff_ptr dev = NULL \<or>
      (case block m (tmp_buff_ptr dev) of Inl _ \<Rightarrow> False
       | Inr bs \<Rightarrow> unat (tmp_buff_size dev) < length bs))"

definition drv_inv :: "kernel \<Rightarrow> bool" where
  "drv_inv k \<longleftrightarrow>
     (case deref_cb k (buffer (aesd_device k)) of Inl _ \<Rightarrow> False
      | Inr cb \<Rightarrow> cb_wf cb \<and> (\<forall>e \<in> set (cb_list cb). entry_ok (kmem k) e) \<and>
          distinct (map buffptr (cb_list cb)) \<and> tmp_ok (kmem k) (aesd_device k) \<and>
          tmp_buff_ptr (aesd_device k) \<notin> buffptr ` set (cb_list cb))"

text \<open>The invariant between two operations: the mutex is free.\<close>

definition driver_inv :: "kernel \<Rightarrow> bool" where
  "driver_inv k \<longleftrightarrow> drv_inv k \<and> lock (aesd_device k) = Mutex_Free"

text \<open>A pending command with bytes has its block: no \<open>krealloc_array\<close> failed since it began.\<close>

definition pend_ok :: "kernel \<Rightarrow> bool" where
  "pend_ok k \<longleftrightarrow> tmp_buff_size (aesd_device k) \<noteq> 0 \<longrightarrow> tmp_buff_ptr (aesd_device k) \<noteq> NULL"

definition pend_bytes :: "kernel \<Rightarrow> bytes" where
  "pend_bytes k = (case block (kmem k) (tmp_buff_ptr (aesd_device k)) of Inl _ \<Rightarrow> []
     | Inr bs \<Rightarrow> take (unat (tmp_buff_size (aesd_device k))) bs)"

definition abs_log :: "kernel \<Rightarrow> aesd_log" where
  "abs_log k = \<lparr>hist = map (entry_bytes (kmem k)) (cb_list (the_cb k)), pend = pend_bytes k\<rparr>"

text \<open>No block is allocated that neither an entry nor the pending command refers to.\<close>

definition no_leak :: "kernel \<Rightarrow> bool" where
  "no_leak k \<longleftrightarrow> (\<forall>a. kmem k a \<noteq> None \<longrightarrow>
     Ptr a \<in> insert (tmp_buff_ptr (aesd_device k)) (buffptr ` set (cb_list (the_cb k))))"

lemma drv_inv_iff:
  "drv_inv k \<longleftrightarrow> deref_cb k (buffer (aesd_device k)) = Inr (the_cb k) \<and> cb_wf (the_cb k) \<and>
     (\<forall>e \<in> set (cb_list (the_cb k)). entry_ok (kmem k) e) \<and>
     distinct (map buffptr (cb_list (the_cb k))) \<and> tmp_ok (kmem k) (aesd_device k) \<and>
     tmp_buff_ptr (aesd_device k) \<notin> buffptr ` set (cb_list (the_cb k))"
  unfolding drv_inv_def the_cb_def by (auto split: sum.splits)

lemma drv_invD:
  assumes "drv_inv k"
  shows "deref_cb k (buffer (aesd_device k)) = Inr (the_cb k)" "cb_wf (the_cb k)"
    "e \<in> set (cb_list (the_cb k)) \<Longrightarrow> entry_ok (kmem k) e"
    "distinct (map buffptr (cb_list (the_cb k)))" "tmp_ok (kmem k) (aesd_device k)"
    "tmp_buff_ptr (aesd_device k) \<notin> buffptr ` set (cb_list (the_cb k))"
  using assms unfolding drv_inv_iff by blast+

lemma entry_okE [elim]:
  assumes "entry_ok m e"
  obtains a bs where "buffptr e = Ptr a" "m a = Some bs" "length bs = Suc (unat (esize e))"
    "bs ! unat (esize e) = nul" "bs ! (unat (esize e) - 1) = newline"
    "0 < unat (esize e)" "unat (esize e) < kmalloc_bound" "entry_bytes m e = take (unat (esize e)) bs"
  using assms unfolding entry_ok_def entry_bytes_def block_def Let_def
  by (auto split: sum.splits ptr.splits option.splits)

lemma entry_ok_cong: "block m' (buffptr e) = block m (buffptr e) \<Longrightarrow> entry_ok m' e = entry_ok m e"
  by (simp add: entry_ok_def)

lemma entry_bytes_cong:
  "block m' (buffptr e) = block m (buffptr e) \<Longrightarrow> entry_bytes m' e = entry_bytes m e"
  by (simp add: entry_bytes_def)

lemma length_entry_bytes: "entry_ok m e \<Longrightarrow> length (entry_bytes m e) = unat (esize e)"
  by (auto elim!: entry_okE)

lemma last_entry_bytes: "entry_ok m e \<Longrightarrow> last (entry_bytes m e) = newline"
  by (auto elim!: entry_okE simp: last_take_conv)

text \<open>Neither the mutex nor the pending command matters to the circular buffer.\<close>

lemma deref_cb_frame [simp]:
  "deref_cb (k\<lparr>kmem := m\<rparr>) p = deref_cb k p"
  "deref_cb (k\<lparr>aesd_device := d\<rparr>) p = deref_cb k p"
  "deref_cb (mutex_lock k) p = deref_cb k p"
  "deref_cb (mutex_unlock k) p = deref_cb k p"
  by (simp_all add: deref_cb_def mutex_lock_def mutex_unlock_def split: ptr.splits)

lemma mutex_fields [simp]:
  "kmem (mutex_lock k) = kmem k" "kmem (mutex_unlock k) = kmem k"
  "kcb (mutex_lock k) = kcb k" "kcb (mutex_unlock k) = kcb k"
  "aesd_device (mutex_lock k) = (aesd_device k)\<lparr>lock := Mutex_Held\<rparr>"
  "aesd_device (mutex_unlock k) = (aesd_device k)\<lparr>lock := Mutex_Free\<rparr>"
  by (simp_all add: mutex_lock_def mutex_unlock_def)

lemma mutex_invisible [simp]:
  "the_cb (mutex_lock k) = the_cb k" "the_cb (mutex_unlock k) = the_cb k"
  "drv_inv (mutex_lock k) = drv_inv k" "drv_inv (mutex_unlock k) = drv_inv k"
  "abs_log (mutex_lock k) = abs_log k" "abs_log (mutex_unlock k) = abs_log k"
  "pend_ok (mutex_lock k) = pend_ok k" "pend_ok (mutex_unlock k) = pend_ok k"
  "no_leak (mutex_lock k) = no_leak k" "no_leak (mutex_unlock k) = no_leak k"
  "alloc_ok env (mutex_lock k) cnt = alloc_ok env k cnt"
  by (simp_all add: the_cb_def drv_inv_def abs_log_def pend_bytes_def pend_ok_def no_leak_def
      alloc_ok_def tmp_ok_def Let_def cong: sum.case_cong)

lemma driver_inv_unlock [wf_intros]: "drv_inv k \<Longrightarrow> driver_inv (mutex_unlock k)"
  by (simp add: driver_inv_def)

lemma driver_invD: "driver_inv k \<Longrightarrow> drv_inv k"
  by (simp add: driver_inv_def)

end
