(* ===== verification/Driver_Ops.thy ===== *)
theory Driver_Ops
  imports Driver_Inv
begin

text \<open>
  What each file operation of the driver does on a state that satisfies the invariant:
  no fault, the invariant again, the mutex released, and the specification's result.
\<close>

section \<open>Writing: room for the command\<close>

text \<open>
  The blocks of the live entries are not touched, and a block returned by the allocator
  belongs to the pending command alone.
\<close>

definition keeps_entries :: "kernel \<Rightarrow> mem \<Rightarrow> bool" where
  "keeps_entries k m \<longleftrightarrow> (\<forall>e \<in> set (cb_list (the_cb k)). block m (buffptr e) = block (kmem k) (buffptr e))"

lemma write_size_no_wrap:
  assumes "unat (s :: u64) < 2 ^ 40" "unat c < 2 ^ 31"
  shows "unat (s + c) = unat s + unat c" "unat (s + c + 1) = Suc (unat s + unat c)"
    "unat (c + 1) = Suc (unat c)"
proof -
  show 1: "unat (s + c) = unat s + unat c"
    using assms by (intro unat_add_no_wrap) simp
  show "unat (c + 1) = Suc (unat c)"
    using assms by (subst unat_add_no_wrap) simp_all
  show "unat (s + c + 1) = Suc (unat s + unat c)"
    using assms 1 by (subst unat_add_no_wrap) simp_all
qed

lemma krealloc_array_spec:
  fixes n :: u64 and junk :: "nat \<Rightarrow> char"
  assumes "old = NULL \<and> bs = [] \<or> block m old = Inr bs"
  defines "bs' \<equiv> take (unat n) bs @ map junk [length bs..<unat n]"
  shows "\<exists>m'. krealloc_array m old (Ptr a) n junk = Inr m' \<and> block m' (Ptr a) = Inr bs' \<and>
    (\<forall>q. q \<noteq> old \<longrightarrow> q \<noteq> Ptr a \<longrightarrow> block m' q = block m q) \<and>
    dom m' = insert a {b \<in> dom m. Ptr b \<noteq> old}"
proof (cases old)
  case NULL
  with assms(1) have "krealloc_array m old (Ptr a) n junk = Inr (m(a \<mapsto> bs'))"
    by (auto simp: krealloc_array_def bs'_def)
  with NULL show ?thesis by (auto simp: block_upd)
next
  case (Ptr b)
  with assms(1) have "m b = Some bs" by auto
  with Ptr have "krealloc_array m old (Ptr a) n junk = Inr (m(b := None, a \<mapsto> bs'))"
    by (simp add: krealloc_array_def bs'_def)
  with Ptr show ?thesis by (auto simp: block_upd)
qed

lemma write_alloc_null:
  assumes "drv_inv k" "alloc_ret env = NULL"
  shows "write_alloc env k cnt = Inr (k\<lparr>aesd_device := (aesd_device k)\<lparr>tmp_buff_ptr := NULL\<rparr>\<rparr>)"
proof -
  from drv_invD(5) [OF assms(1)] have "tmp_buff_ptr (aesd_device k) = NULL \<or>
      (\<exists>bs. block (kmem k) (tmp_buff_ptr (aesd_device k)) = Inr bs)"
    by (auto simp: tmp_ok_def split: sum.splits)
  then show ?thesis
    using assms(2) by (auto simp: write_alloc_def kzalloc_def krealloc_array_def Let_def)
qed

lemma write_alloc_ptr:
  assumes inv: "drv_inv k" and p: "alloc_ret env = Ptr a"
    and ok: "alloc_ok env k cnt" "unat cnt < rw_bound"
  defines "dev \<equiv> aesd_device k"
  shows "\<exists>m bs. write_alloc env k cnt = Inr (k\<lparr>kmem := m, aesd_device := dev\<lparr>tmp_buff_ptr := Ptr a\<rparr>\<rparr>)
    \<and> block m (Ptr a) = Inr bs \<and> length bs = Suc (unat (tmp_buff_size dev) + unat cnt)
    \<and> (pend_ok k \<longrightarrow> take (unat (tmp_buff_size dev)) bs = pend_bytes k)
    \<and> keeps_entries k m \<and> Ptr a \<notin> buffptr ` set (cb_list (the_cb k))
    \<and> (tmp_buff_size dev \<noteq> 0 \<longrightarrow> dom m \<subseteq> insert a {b \<in> dom (kmem k). Ptr b \<noteq> tmp_buff_ptr dev})
    \<and> (tmp_buff_size dev = 0 \<longrightarrow> dom m = insert a (dom (kmem k)))"
proof -
  let ?es = "set (cb_list (the_cb k))"
  note live = drv_invD(3) [OF inv]
  from inv have tmp: "tmp_ok (kmem k) dev" "tmp_buff_ptr dev \<notin> buffptr ` ?es"
    unfolding dev_def by (simp_all add: drv_invD)
  have fresh: "Ptr a \<notin> buffptr ` ?es" if "kmem k a = None"
    using that live by (fastforce elim!: entry_okE)
  from tmp have small: "unat (tmp_buff_size dev) < 2 ^ 40" by (simp add: tmp_ok_def)
  note nw = write_size_no_wrap [OF small ok(2)]
  show ?thesis
  proof (cases "tmp_buff_size dev = 0")
    case True
    with ok p have new: "kmem k a = None" by (simp add: alloc_ok_def kzalloc_ok_def dev_def)
    let ?bs = "replicate (Suc (unat cnt)) nul"
    have "write_alloc env k cnt = Inr (k\<lparr>kmem := (kmem k)(a \<mapsto> ?bs), aesd_device := dev\<lparr>tmp_buff_ptr := Ptr a\<rparr>\<rparr>)"
      using True p nw by (simp add: write_alloc_def kzalloc_def dev_def Let_def)
    moreover have "keeps_entries k ((kmem k)(a \<mapsto> ?bs))"
      using fresh [OF new] by (auto simp: keeps_entries_def block_upd image_iff)
    moreover have "pend_bytes k = []"
      using True by (simp add: pend_bytes_def dev_def split: sum.split)
    ultimately show ?thesis
      using True fresh [OF new] by (auto simp: block_upd intro!: exI [of _ "(kmem k)(a \<mapsto> ?bs)"])
  next
    case False
    let ?n = "tmp_buff_size dev + cnt + 1"
    from False ok p have a: "kmem k a = None \<or> tmp_buff_ptr dev = Ptr a"
      by (simp add: alloc_ok_def krealloc_ok_def dev_def Let_def)
    from tmp(1) obtain old where old:
      "tmp_buff_ptr dev = NULL \<and> old = [] \<or> block (kmem k) (tmp_buff_ptr dev) = Inr old"
      "tmp_buff_ptr dev \<noteq> NULL \<longrightarrow> unat (tmp_buff_size dev) < length old"
      by (auto simp: tmp_ok_def split: sum.splits)
    define bs where "bs = take (unat ?n) old @ map (fresh_byte env) [length old..<unat ?n]"
    from krealloc_array_spec [OF old(1), of a ?n "fresh_byte env"] obtain m where
      m: "krealloc_array (kmem k) (tmp_buff_ptr dev) (Ptr a) ?n (fresh_byte env) = Inr m"
        "block m (Ptr a) = Inr bs"
        "\<And>q. q \<noteq> tmp_buff_ptr dev \<Longrightarrow> q \<noteq> Ptr a \<Longrightarrow> block m q = block (kmem k) q"
        "dom m = insert a {b \<in> dom (kmem k). Ptr b \<noteq> tmp_buff_ptr dev}"
      by (auto simp: bs_def)
    have "write_alloc env k cnt = Inr (k\<lparr>kmem := m, aesd_device := dev\<lparr>tmp_buff_ptr := Ptr a\<rparr>\<rparr>)"
      using False p m(1) by (simp add: write_alloc_def dev_def Let_def)
    moreover have notin: "Ptr a \<notin> buffptr ` ?es"
      using a fresh tmp(2) by auto
    moreover have "keeps_entries k m"
      using m(3) notin tmp(2) unfolding keeps_entries_def by (metis image_eqI)
    moreover have "length bs = Suc (unat (tmp_buff_size dev) + unat cnt)"
      using nw by (simp add: bs_def)
    moreover have "take (unat (tmp_buff_size dev)) bs = pend_bytes k" if "pend_ok k"
      using that False old nw by (auto simp: bs_def pend_ok_def pend_bytes_def dev_def)
    ultimately show ?thesis
      using False m(2,4) by (intro exI [of _ m] exI [of _ bs]) simp
  qed
qed

section \<open>Writing: the user's bytes and the terminator\<close>

lemma overwrite_end:
  "length bs = Suc (s + length ds) \<Longrightarrow> overwrite (overwrite bs s ds) (s + length ds) [nul] = take s bs @ ds @ [nul]"
  by (simp add: overwrite_def)

lemma copy_from_user_all:
  "unat left = 0 \<Longrightarrow> copy_from_user m p off ds left = store_range m p off ds"
  by (simp add: copy_from_user_def)

lemma write_fill:
  assumes "block m p = Inr bs" "length bs = Suc (s + length ds)"
  obtains m1 m2 where "copy_from_user m p s ds 0 = Inr m1" "store_range m1 p (s + length ds) [nul] = Inr m2"
    "block m2 p = Inr (take s bs @ ds @ [nul])" "\<And>q. q \<noteq> p \<Longrightarrow> block m2 q = block m q" "dom m2 = dom m"
proof -
  from store_range_block [OF assms(1), of s ds] assms(2) obtain m1 where
    1: "store_range m p s ds = Inr m1" "block m1 p = Inr (overwrite bs s ds)"
      "\<And>q. q \<noteq> p \<Longrightarrow> block m1 q = block m q" "dom m1 = dom m" by auto
  from store_range_block [OF 1(2), of "s + length ds" "[nul]"] assms(2) obtain m2 where
    2: "store_range m1 p (s + length ds) [nul] = Inr m2"
      "block m2 p = Inr (overwrite (overwrite bs s ds) (s + length ds) [nul])"
      "\<And>q. q \<noteq> p \<Longrightarrow> block m2 q = block m1 q" "dom m2 = dom m1" by auto
  show thesis
    by (rule that [of m1 m2]) (use 1 2 assms(2) in \<open>simp_all add: overwrite_end copy_from_user_all\<close>)
qed

section \<open>Writing: committing a complete command\<close>

text \<open>
  A state in which the pending command \<open>xs\<close> has been assembled: the invariant holds and the
  command's block is exactly \<open>xs\<close> and the terminator.
\<close>

definition assembled :: "kernel \<Rightarrow> bytes \<Rightarrow> bool" where
  "assembled k xs \<longleftrightarrow> drv_inv k \<and> xs \<noteq> [] \<and> length xs = unat (tmp_buff_size (aesd_device k)) \<and>
     block (kmem k) (tmp_buff_ptr (aesd_device k)) = Inr (xs @ [nul])"

lemma assembled_last:
  assumes "assembled k xs"
  shows "load_byte (kmem k) (tmp_buff_ptr (aesd_device k)) (unat (tmp_buff_size (aesd_device k) - 1)) = Inr (last xs)"
proof -
  let ?n = "tmp_buff_size (aesd_device k)"
  from assms have n: "unat ?n = length xs" "xs \<noteq> []" "block (kmem k) (tmp_buff_ptr (aesd_device k)) = Inr (xs @ [nul])"
    by (simp_all add: assembled_def)
  then have "?n \<noteq> 0" by (metis length_0_conv unat_0)
  then have "unat (?n - 1) = length xs - 1" using n by (simp add: unat_minus_one)
  with n show ?thesis by (simp add: load_byte_def nth_append last_conv_nth)
qed

lemma write_commit_incomplete:
  "assembled k xs \<Longrightarrow> last xs \<noteq> newline \<Longrightarrow> write_commit k = Inr k"
  by (simp add: write_commit_def assembled_last Let_def)

text \<open>
  Freeing the pointer that insertion returned releases the block of the evicted entry, if
  there was one, and no block of the entries that stay.
\<close>

lemma evict_frees:
  assumes wf: "cb_wf cb" and add: "aesd_circular_buffer_add_entry cb e = Inr (cb', old)"
    and ok: "\<And>x. x \<in> set (cb_list cb @ [e]) \<Longrightarrow> entry_ok m x"
    and dist: "distinct (map buffptr (cb_list cb @ [e]))"
  obtains m' where "kfree m old = Inr m'"
    "\<And>x. x \<in> set (cb_list cb') \<Longrightarrow> block m' (buffptr x) = block m (buffptr x)"
    "dom m' = {a \<in> dom m. Ptr a \<noteq> old}"
    "\<And>x. x \<in> set (cb_list cb @ [e]) \<Longrightarrow> buffptr x = old \<or> x \<in> set (cb_list cb')"
proof (rule add_entry_cases [OF wf add])
  assume "old = NULL" "cb_list cb' = cb_list cb @ [e]"
  then show thesis by (intro that [of m]) auto
next
  fix x assume x: "buffptr x = old" "cb_list cb @ [e] = x # cb_list cb'"
  then have "entry_ok m x" using ok by simp
  then obtain bs where "block m old = Inr bs" using x by (auto elim!: entry_okE)
  from kfree_block [OF this] obtain m' where "kfree m old = Inr m'"
    "\<forall>q. q \<noteq> old \<longrightarrow> block m' q = block m q" "dom m' = {a \<in> dom m. Ptr a \<noteq> old}" by blast
  moreover have "old \<notin> buffptr ` set (cb_list cb')" using dist x by auto
  ultimately show thesis using x by (intro that [of m']) (auto simp: image_iff)
qed

lemma write_commit_complete:
  assumes as: "assembled k xs" and nl: "last xs = newline"
  shows "\<exists>k'. write_commit k = Inr k' \<and> drv_inv k' \<and>
    abs_log k' = \<lparr>hist = last_n 10 (hist (abs_log k) @ [xs]), pend = []\<rparr> \<and>
    lock (aesd_device k') = lock (aesd_device k) \<and> tmp_buff_size (aesd_device k') = 0 \<and>
    (no_leak k \<longrightarrow> no_leak k')"
proof -
  let ?dev = "aesd_device k" and ?cb = "the_cb k"
  let ?e = "\<lparr>buffptr = tmp_buff_ptr ?dev, esize = tmp_buff_size ?dev\<rparr>"
  from as have inv: "drv_inv k" and xs: "xs \<noteq> []" "length xs = unat (tmp_buff_size ?dev)"
    and blk: "block (kmem k) (tmp_buff_ptr ?dev) = Inr (xs @ [nul])"
    by (simp_all add: assembled_def)
  note d = drv_invD [OF inv]
  from d(5) have small: "unat (tmp_buff_size ?dev) < 2 ^ 40" by (simp add: tmp_ok_def)
  from d(1) obtain c where c: "buffer ?dev = Ptr c" "kcb k c = Some ?cb"
    by (auto simp: deref_cb_def split: ptr.splits option.splits)
  obtain cb' old where add: "aesd_circular_buffer_add_entry ?cb ?e = Inr (cb', old)"
    using cb.add_never_fails [OF d(2)] by blast
  let ?all = "cb_list ?cb @ [?e]"
  have e: "entry_ok (kmem k) ?e" "entry_bytes (kmem k) ?e = xs"
    using blk xs small nl
    by (simp_all add: entry_ok_def entry_bytes_def nth_append last_conv_nth Let_def flip: length_greater_0_conv)
  have dist: "distinct (map buffptr ?all)" and ok: "\<And>x. x \<in> set ?all \<Longrightarrow> entry_ok (kmem k) x"
    using d(3,4,6) e by (auto simp: image_iff)
  note items = cb.add_items [OF d(2) add]
  have sub: "set (cb_list cb') \<subseteq> set ?all" "distinct (map buffptr (cb_list cb'))"
    unfolding items last_n_map [symmetric] by (rule set_last_n, rule distinct_last_n [OF dist])
  obtain m' where m': "kfree (kmem k) old = Inr m'"
    "\<And>x. x \<in> set (cb_list cb') \<Longrightarrow> block m' (buffptr x) = block (kmem k) (buffptr x)"
    "dom m' = {a \<in> dom (kmem k). Ptr a \<noteq> old}"
    "\<And>x. x \<in> set ?all \<Longrightarrow> buffptr x = old \<or> x \<in> set (cb_list cb')"
    using evict_frees [OF d(2) add ok dist] by blast
  define k' where "k' = k\<lparr>kmem := m', kcb := (kcb k)(c \<mapsto> cb'),
    aesd_device := ?dev\<lparr>tmp_buff_size := 0, tmp_buff_ptr := NULL\<rparr>\<rparr>"
  have run: "write_commit k = Inr k'"
    using as nl d(1) add m'(1) c by (simp add: write_commit_def assembled_last Let_def k'_def)
  have cb_k': "the_cb k' = cb'" "deref_cb k' (buffer (aesd_device k')) = Inr cb'"
    using c by (simp_all add: the_cb_def deref_cb_def k'_def)
  have ok': "entry_ok m' x" if "x \<in> set (cb_list cb')" for x
    using that sub ok m'(2) by (metis entry_ok_cong subsetD)
  have "NULL \<notin> buffptr ` set (cb_list cb')"
    using ok' by (fastforce elim!: entry_okE)
  then have "drv_inv k'"
    using cb_k' cb.add_invar [OF d(2) add] ok' sub(2)
    by (simp add: drv_inv_iff tmp_ok_def k'_def)
  moreover have "map (entry_bytes m') (cb_list cb') = last_n 10 (map (entry_bytes (kmem k)) ?all)"
    using m'(2) unfolding last_n_map items by (auto intro: entry_bytes_cong)
  then have "abs_log k' = \<lparr>hist = last_n 10 (hist (abs_log k) @ [xs]), pend = []\<rparr>"
    using e cb_k' by (simp add: abs_log_def k'_def pend_bytes_def)
  moreover have "no_leak k'" if leak: "no_leak k"
    unfolding no_leak_def
  proof (intro allI impI)
    fix a assume "kmem k' a \<noteq> None"
    then have a: "a \<in> dom (kmem k)" "Ptr a \<noteq> old"
      using m'(3) by (auto simp: k'_def dom_def)
    then obtain x where x: "x \<in> set ?all" "buffptr x = Ptr a"
      using leak unfolding no_leak_def by (force simp: dom_def)
    with m'(4) [OF x(1)] a have "x \<in> set (cb_list cb')" by simp
    with x(2) show "Ptr a \<in> insert (tmp_buff_ptr (aesd_device k')) (buffptr ` set (cb_list (the_cb k')))"
      using cb_k' by (metis image_eqI insertCI)
  qed
  ultimately show ?thesis
    using run by (auto simp: k'_def)
qed

section \<open>Writing: the whole operation\<close>

text \<open>Replacing the pending command, and nothing else, keeps the invariant and the history.\<close>

lemma replace_pending:
  assumes inv: "drv_inv k" and keep: "keeps_entries k m"
    and dev: "buffer dev' = buffer (aesd_device k)" "tmp_ok m dev'"
      "tmp_buff_ptr dev' \<notin> buffptr ` set (cb_list (the_cb k))"
  defines "k' \<equiv> k\<lparr>kmem := m, aesd_device := dev'\<rparr>"
  shows "drv_inv k'" "the_cb k' = the_cb k" "hist (abs_log k') = hist (abs_log k)"
proof -
  note d = drv_invD [OF inv]
  have der: "deref_cb k' (buffer (aesd_device k')) = deref_cb k (buffer (aesd_device k))"
    using dev(1) by (simp add: k'_def deref_cb_def split: ptr.split)
  show cb: "the_cb k' = the_cb k"
    unfolding the_cb_def der ..
  have ok: "entry_ok m e" and bytes: "entry_bytes m e = entry_bytes (kmem k) e"
    if "e \<in> set (cb_list (the_cb k))" for e
  proof -
    have b: "block m (buffptr e) = block (kmem k) (buffptr e)"
      using that keep by (simp add: keeps_entries_def)
    show "entry_ok m e" "entry_bytes m e = entry_bytes (kmem k) e"
      using entry_ok_cong [OF b] entry_bytes_cong [OF b] d(3) [OF that] by simp_all
  qed
  have m: "kmem k' = m" "aesd_device k' = dev'" by (simp_all add: k'_def)
  show "drv_inv k'"
    using d(1,2,4) dev ok der unfolding drv_inv_iff cb by (simp only: m) blast
  show "hist (abs_log k') = hist (abs_log k)"
    by (simp add: abs_log_def cb m bytes)
qed

lemma keeps_entries_self [simp]: "keeps_entries k (kmem k)"
  by (simp add: keeps_entries_def)

lemma write_enomem:
  assumes "drv_inv k" "alloc_ret env = NULL"
  defines "k' \<equiv> k\<lparr>aesd_device := (aesd_device k)\<lparr>tmp_buff_ptr := NULL\<rparr>\<rparr>"
  shows "write_locked env k ubuf cnt fpos = Inr (- ENOMEM, fpos, k')" "drv_inv k'"
    "hist (abs_log k') = hist (abs_log k)" "pend (abs_log k') = []"
proof -
  show "write_locked env k ubuf cnt fpos = Inr (- ENOMEM, fpos, k')"
    using write_alloc_null [OF assms(1,2)] by (simp add: write_locked_def k'_def)
  have "NULL \<notin> buffptr ` set (cb_list (the_cb k))"
    using drv_invD(3) [OF assms(1)] by (fastforce elim!: entry_okE)
  then show "drv_inv k'" "hist (abs_log k') = hist (abs_log k)"
    using replace_pending [OF assms(1) keeps_entries_self, of "(aesd_device k)\<lparr>tmp_buff_ptr := NULL\<rparr>"]
      drv_invD(5) [OF assms(1)] by (simp_all add: k'_def tmp_ok_def)
  show "pend (abs_log k') = []"
    by (simp add: abs_log_def pend_bytes_def k'_def)
qed

text \<open>
  With memory and a successful copy, the code reaches \<open>write_commit\<close> with the pending bytes
  followed by the user's bytes assembled. Only when an earlier reallocation failed
  (\<open>\<not> pend_ok k\<close>) are the pending bytes not the ones written before.
\<close>

lemma write_assembles:
  assumes inv: "drv_inv k" and p: "alloc_ret env = Ptr a" and ok: "alloc_ok env k cnt" "unat cnt < rw_bound"
    and copy: "not_copied env = 0" "length ubuf = unat cnt"
    and some: "tmp_buff_size (aesd_device k) \<noteq> 0 \<or> cnt \<noteq> 0"
  obtains k1 xs where
    "write_locked env k ubuf cnt fpos = ebind (write_commit k1) (\<lambda>k4. Inr (sint cnt, fpos + cnt, k4))"
    "assembled k1 (xs @ ubuf)" "pend_ok k \<Longrightarrow> xs = pend_bytes k"
    "hist (abs_log k1) = hist (abs_log k)" "lock (aesd_device k1) = lock (aesd_device k)"
    "tmp_buff_ptr (aesd_device k1) \<noteq> NULL"
    "no_leak k \<Longrightarrow> (tmp_buff_size (aesd_device k) = 0 \<Longrightarrow> tmp_buff_ptr (aesd_device k) = NULL) \<Longrightarrow> no_leak k1"
proof -
  let ?dev = "aesd_device k" and ?s = "tmp_buff_size (aesd_device k)"
  from write_alloc_ptr [OF inv p ok] obtain m bs where
    al: "write_alloc env k cnt = Inr (k\<lparr>kmem := m, aesd_device := ?dev\<lparr>tmp_buff_ptr := Ptr a\<rparr>\<rparr>)"
    and bs: "block m (Ptr a) = Inr bs" "length bs = Suc (unat ?s + length ubuf)"
    and pb: "pend_ok k \<Longrightarrow> take (unat ?s) bs = pend_bytes k"
    and keep: "keeps_entries k m" and notin: "Ptr a \<notin> buffptr ` set (cb_list (the_cb k))"
    and dm: "?s \<noteq> 0 \<Longrightarrow> dom m \<subseteq> insert a {b \<in> dom (kmem k). Ptr b \<noteq> tmp_buff_ptr ?dev}"
      "?s = 0 \<Longrightarrow> dom m = insert a (dom (kmem k))"
    using copy(2) by (auto simp del: One_nat_def)
  from write_fill [OF bs] obtain m1 m2 where
    fill: "copy_from_user m (Ptr a) (unat ?s) ubuf 0 = Inr m1"
      "store_range m1 (Ptr a) (unat ?s + length ubuf) [nul] = Inr m2"
      "block m2 (Ptr a) = Inr (take (unat ?s) bs @ ubuf @ [nul])"
    and same: "\<And>q. q \<noteq> Ptr a \<Longrightarrow> block m2 q = block m q" "dom m2 = dom m" by blast
  have small: "unat ?s < 2 ^ 40" using drv_invD(5) [OF inv] by (simp add: tmp_ok_def)
  note nw = write_size_no_wrap [OF small ok(2)]
  let ?dev' = "?dev\<lparr>tmp_buff_ptr := Ptr a, tmp_buff_size := ?s + cnt\<rparr>"
  let ?k1 = "k\<lparr>kmem := m2, aesd_device := ?dev'\<rparr>" and ?xs = "take (unat ?s) bs"
  show thesis
  proof (rule that [of ?k1 ?xs])
    have "printk_string m2 (Ptr a) 0 = Inr ()" using fill(3) by (simp add: printk_string_def)
    then show "write_locked env k ubuf cnt fpos = ebind (write_commit ?k1) (\<lambda>k4. Inr (sint cnt, fpos + cnt, k4))"
      using al copy fill nw by (simp add: write_locked_def Let_def)
    have bound: "unat (?s + cnt) < 2 ^ 40"
      using ok(1) p nw by (auto simp: alloc_ok_def kzalloc_ok_def krealloc_ok_def Let_def split: if_splits)
    have "keeps_entries k m2"
      using keep same(1) notin unfolding keeps_entries_def by (metis image_eqI)
    moreover have "tmp_ok m2 ?dev'"
      using fill(3) bs(2) bound nw copy(2) by (simp add: tmp_ok_def)
    ultimately have "drv_inv ?k1" and cb: "the_cb ?k1 = the_cb k" and h: "hist (abs_log ?k1) = hist (abs_log k)"
      using replace_pending [OF inv, of m2 ?dev'] notin by simp_all
    then show "hist (abs_log ?k1) = hist (abs_log k)" by simp
    have "?xs @ ubuf \<noteq> []"
      using some bs(2) copy(2) by (auto simp: unat_eq_zero)
    with \<open>drv_inv ?k1\<close> show "assembled ?k1 (?xs @ ubuf)"
      using fill(3) bs(2) nw copy(2) by (simp add: assembled_def)
    show "no_leak ?k1" if lk: "no_leak k" and z: "?s = 0 \<Longrightarrow> tmp_buff_ptr ?dev = NULL"
    proof -
      have "b = a \<or> b \<in> dom (kmem k) \<and> Ptr b \<noteq> tmp_buff_ptr ?dev" if "b \<in> dom m2" for b
        using that dm z same(2) by (cases "?s = 0") auto
      then show ?thesis
        using lk unfolding no_leak_def cb by (fastforce simp: dom_def)
    qed
  qed (use pb in simp_all)
qed

lemma write_efault:
  assumes inv: "drv_inv k" and p: "alloc_ret env = Ptr a" and ok: "alloc_ok env k cnt" "unat cnt < rw_bound"
    and fail: "not_copied env \<noteq> 0" "length ubuf = unat cnt"
  obtains k' where "write_locked env k ubuf cnt fpos = Inr (- EFAULT, fpos, k')" "drv_inv k'"
    "hist (abs_log k') = hist (abs_log k)" "pend_ok k'" "pend_ok k \<Longrightarrow> abs_log k' = abs_log k"
    "lock (aesd_device k') = lock (aesd_device k)"
proof -
  let ?dev = "aesd_device k" and ?s = "unat (tmp_buff_size (aesd_device k))"
  let ?ds = "take (length ubuf - unat (not_copied env)) ubuf @ replicate (min (unat (not_copied env)) (length ubuf)) nul"
  from write_alloc_ptr [OF inv p ok] obtain m bs where
    al: "write_alloc env k cnt = Inr (k\<lparr>kmem := m, aesd_device := ?dev\<lparr>tmp_buff_ptr := Ptr a\<rparr>\<rparr>)"
    and bs: "block m (Ptr a) = Inr bs" "length bs = Suc (?s + length ubuf)"
    and pb: "pend_ok k \<Longrightarrow> take ?s bs = pend_bytes k"
    and keep: "keeps_entries k m" and notin: "Ptr a \<notin> buffptr ` set (cb_list (the_cb k))"
    using fail(2) by auto
  have len: "length ?ds = length ubuf" by simp
  from store_range_block [OF bs(1), of ?s ?ds] bs(2) len obtain m' where
    m': "store_range m (Ptr a) ?s ?ds = Inr m'" "block m' (Ptr a) = Inr (overwrite bs ?s ?ds)"
      "\<And>q. q \<noteq> Ptr a \<Longrightarrow> block m' q = block m q" by auto
  let ?dev' = "?dev\<lparr>tmp_buff_ptr := Ptr a\<rparr>"
  let ?k' = "k\<lparr>kmem := m', aesd_device := ?dev'\<rparr>"
  have "keeps_entries k m'"
    using keep m'(3) notin unfolding keeps_entries_def by (metis image_eqI)
  moreover have "tmp_ok m' ?dev'"
    using m'(2) bs(2) len drv_invD(5) [OF inv] by (simp add: tmp_ok_def)
  ultimately have inv': "drv_inv ?k'" and h: "hist (abs_log ?k') = hist (abs_log k)"
    using replace_pending [OF inv, of m' ?dev'] notin by simp_all
  have "pend_bytes ?k' = pend_bytes k" if "pend_ok k"
    using pb [OF that] m'(2) bs(2) by (simp add: pend_bytes_def)
  with h have "abs_log ?k' = abs_log k" if "pend_ok k"
    using that by (simp add: abs_log_def)
  then show thesis
    using al fail m'(1) inv' h
    by (intro that [of ?k']) (simp_all add: write_locked_def copy_from_user_def pend_ok_def)
qed

text \<open>
  The arguments of a write as the VFS passes them, with an allocator that behaves as
  documented: a user buffer of \<open>cnt\<close> bytes, a bounded count, and a command that is not empty.
\<close>

definition write_args_ok :: "io_env \<Rightarrow> kernel \<Rightarrow> bytes \<Rightarrow> u64 \<Rightarrow> bool" where
  "write_args_ok env k ubuf cnt \<longleftrightarrow> length ubuf = unat cnt \<and> unat cnt < rw_bound \<and> alloc_ok env k cnt \<and>
     (tmp_buff_size (aesd_device k) \<noteq> 0 \<or> cnt \<noteq> 0)"

lemma write_locked_ok:
  assumes inv: "drv_inv k" and args: "write_args_ok env k ubuf cnt"
    and ok: "alloc_ret env \<noteq> NULL" "not_copied env = 0"
  obtains k' where "write_locked env k ubuf cnt fpos = Inr (int (length ubuf), fpos + cnt, k')" "drv_inv k'"
    "lock (aesd_device k') = lock (aesd_device k)" "pend_ok k'"
    "pend_ok k \<Longrightarrow> abs_log k' = log_write (abs_log k) ubuf"
    "no_leak k \<Longrightarrow> (tmp_buff_size (aesd_device k) = 0 \<Longrightarrow> tmp_buff_ptr (aesd_device k) = NULL) \<Longrightarrow> no_leak k'"
proof -
  from ok(1) obtain a where a: "alloc_ret env = Ptr a" by (cases "alloc_ret env") auto
  from args have args': "alloc_ok env k cnt" "unat cnt < rw_bound" "length ubuf = unat cnt"
    "tmp_buff_size (aesd_device k) \<noteq> 0 \<or> cnt \<noteq> 0" by (simp_all add: write_args_ok_def)
  from args'(2,3) have cnt: "sint cnt = int (length ubuf)"
    by (simp add: sint_unat_small)
  obtain k1 xs where k1:
    "write_locked env k ubuf cnt fpos = ebind (write_commit k1) (\<lambda>k4. Inr (sint cnt, fpos + cnt, k4))"
    "assembled k1 (xs @ ubuf)" "pend_ok k \<Longrightarrow> xs = pend_bytes k"
    "hist (abs_log k1) = hist (abs_log k)" "lock (aesd_device k1) = lock (aesd_device k)"
    "tmp_buff_ptr (aesd_device k1) \<noteq> NULL"
    "no_leak k \<Longrightarrow> (tmp_buff_size (aesd_device k) = 0 \<Longrightarrow> tmp_buff_ptr (aesd_device k) = NULL) \<Longrightarrow> no_leak k1"
    using write_assembles [OF inv a args'(1,2) ok(2) args'(3,4)] by blast
  have ne: "xs @ ubuf \<noteq> []" using k1(2) unfolding assembled_def by blast
  show thesis
  proof (cases "last (xs @ ubuf) = newline")
    case True
    from write_commit_complete [OF k1(2) True] obtain k' where k': "write_commit k1 = Inr k'" "drv_inv k'"
      "abs_log k' = \<lparr>hist = last_n 10 (hist (abs_log k1) @ [xs @ ubuf]), pend = []\<rparr>"
      "lock (aesd_device k') = lock (aesd_device k1)" "tmp_buff_size (aesd_device k') = 0"
      "no_leak k1 \<longrightarrow> no_leak k'" by blast
    have "abs_log k' = log_write (abs_log k) ubuf" if "pend_ok k"
      using k'(3) k1(3) [OF that] k1(4) True ne by (simp add: log_write_def abs_log_def)
    then show thesis
      using k' k1 cnt by (intro that [of k']) (simp_all add: pend_ok_def)
  next
    case False
    from k1(2) have "drv_inv k1" and "pend_bytes k1 = xs @ ubuf"
      by (auto simp: assembled_def pend_bytes_def)
    then have "abs_log k1 = log_write (abs_log k) ubuf" if "pend_ok k"
      using k1(3) [OF that] k1(4) False by (simp add: log_write_def abs_log_def Let_def)
    then show thesis
      using k1 \<open>drv_inv k1\<close> cnt write_commit_incomplete [OF k1(2) False]
      by (intro that [of k1]) (simp_all add: pend_ok_def)
  qed
qed

end
