(* ===== verification/Driver_Correct.thy ===== *)
theory Driver_Correct
  imports Driver_Ops
begin

text \<open>
  Correctness of the driver's file operations: writes refine the specified log, reads
  return the right bytes, errors change nothing that matters, and no operation faults.
\<close>

section \<open>Writing\<close>

lemma mutex_unlock_lock: "lock (aesd_device k) = Mutex_Free \<Longrightarrow> mutex_unlock (mutex_lock k) = k"
  by (simp add: mutex_unlock_def mutex_lock_def)

lemma dev_of_opened [simp]: "private_data filp = The_Aesd_Device \<Longrightarrow> dev_of k filp = Inr (aesd_device k)"
  by (simp add: dev_of_def)

lemma write_args_ok_lock [simp]: "write_args_ok env (mutex_lock k) ubuf cnt = write_args_ok env k ubuf cnt"
  by (simp add: write_args_ok_def)

lemma aesd_write_unfold:
  "private_data filp = The_Aesd_Device \<Longrightarrow> lock_rc env = 0 \<Longrightarrow>
     aesd_write env k filp ubuf cnt fpos =
       ebind (write_locked env (mutex_lock k) ubuf cnt fpos) (\<lambda>(retval, fpos', k').
         Inr (retval, fpos', mutex_unlock k'))"
  by (simp add: aesd_write_def)

lemma aesd_write_success:
  assumes "driver_inv k" "private_data filp = The_Aesd_Device" "lock_rc env = 0"
    "write_args_ok env k ubuf cnt" "alloc_ret env \<noteq> NULL" "not_copied env = 0"
  obtains k' where "aesd_write env k filp ubuf cnt fpos = Inr (int (length ubuf), fpos + cnt, k')" "driver_inv k'"
    "pend_ok k'" "pend_ok k \<Longrightarrow> abs_log k' = log_write (abs_log k) ubuf"
    "no_leak k \<Longrightarrow> (tmp_buff_size (aesd_device k) = 0 \<Longrightarrow> tmp_buff_ptr (aesd_device k) = NULL) \<Longrightarrow> no_leak k'"
proof -
  from assms(1,4) have "drv_inv (mutex_lock k)" "write_args_ok env (mutex_lock k) ubuf cnt"
    by (simp_all add: driver_invD)
  from write_locked_ok [OF this assms(5,6), of fpos] obtain k1 where
    "write_locked env (mutex_lock k) ubuf cnt fpos = Inr (int (length ubuf), fpos + cnt, k1)" "drv_inv k1"
    "pend_ok k1" "pend_ok (mutex_lock k) \<Longrightarrow> abs_log k1 = log_write (abs_log (mutex_lock k)) ubuf"
    "no_leak (mutex_lock k) \<Longrightarrow> (tmp_buff_size (aesd_device (mutex_lock k)) = 0 \<Longrightarrow>
       tmp_buff_ptr (aesd_device (mutex_lock k)) = NULL) \<Longrightarrow> no_leak k1" by blast
  then show thesis
    using assms(2,3) by (intro that [of "mutex_unlock k1"]) (simp_all add: aesd_write_unfold driver_inv_unlock)
qed

lemma aesd_write_failure:
  assumes "driver_inv k" "private_data filp = The_Aesd_Device" "write_args_ok env k ubuf cnt"
    "lock_rc env \<noteq> 0 \<or> alloc_ret env = NULL \<or> not_copied env \<noteq> 0"
  obtains k' where
    "aesd_write env k filp ubuf cnt fpos =
       Inr (if lock_rc env \<noteq> 0 then - ERESTARTSYS else if alloc_ret env = NULL then - ENOMEM else - EFAULT, fpos, k')"
    "driver_inv k'" "hist (abs_log k') = hist (abs_log k)"
    "lock_rc env \<noteq> 0 \<or> alloc_ret env \<noteq> NULL \<Longrightarrow> pend_ok k \<Longrightarrow> abs_log k' = abs_log k \<and> pend_ok k'"
proof -
  from assms(1,3) have l: "drv_inv (mutex_lock k)" "alloc_ok env (mutex_lock k) cnt" "unat cnt < rw_bound"
    "length ubuf = unat cnt"
    by (simp_all add: driver_invD write_args_ok_def)
  consider (lock) "lock_rc env \<noteq> 0" | (mem) "lock_rc env = 0" "alloc_ret env = NULL"
    | (copy) a where "lock_rc env = 0" "alloc_ret env = Ptr a" "not_copied env \<noteq> 0"
    using assms(4) by (cases "alloc_ret env") auto
  then show thesis
  proof cases
    case lock
    then show thesis using assms(1,2) by (intro that [of k]) (simp_all add: aesd_write_def)
  next
    case mem
    let ?k = "(mutex_lock k)\<lparr>aesd_device := (aesd_device (mutex_lock k))\<lparr>tmp_buff_ptr := NULL\<rparr>\<rparr>"
    note w = write_enomem [OF l(1) mem(2)]
    show thesis
      by (rule that [of "mutex_unlock ?k"])
        (use mem assms(2) w driver_inv_unlock [OF w(2)] in \<open>simp_all add: aesd_write_unfold del: mutex_fields\<close>)
  next
    case copy
    from write_efault [OF l(1) copy(2) l(2,3) copy(3) l(4), of fpos] obtain k1 where
      "write_locked env (mutex_lock k) ubuf cnt fpos = Inr (- EFAULT, fpos, k1)" "drv_inv k1"
      "hist (abs_log k1) = hist (abs_log (mutex_lock k))"
      "pend_ok (mutex_lock k) \<Longrightarrow> abs_log k1 = abs_log (mutex_lock k)" "pend_ok k1" by blast
    then show thesis
      using assms(2) copy by (intro that [of "mutex_unlock k1"]) (simp_all add: aesd_write_unfold driver_inv_unlock)
  qed
qed

section \<open>Reading\<close>

text \<open>The specified read: the rest of the command the position falls in, up to \<open>n\<close> bytes.\<close>

definition log_read :: "bytes list \<Rightarrow> nat \<Rightarrow> nat \<Rightarrow> bytes" where
  "log_read h pos n = (case locate (map length h) pos of None \<Rightarrow> []
     | Some (j, r) \<Rightarrow> take n (drop r (h ! j)))"

lemma log_read_prefix: "\<exists>rest. drop pos (concat h) = log_read h pos n @ rest"
proof (cases "locate (map length h) pos")
  case None
  then show ?thesis by (simp add: log_read_def)
next
  case (Some jr)
  obtain j r where "jr = (j, r)" by (cases jr)
  with drop_concat_locate [of h pos j r] Some show ?thesis
    by (auto simp: log_read_def) (metis append.assoc append_take_drop_id)
qed

lemma log_read_eq_Nil_iff: "log_read h pos n = [] \<longleftrightarrow> length (concat h) \<le> pos \<or> n = 0"
proof (cases "locate (map length h) pos")
  case None
  then show ?thesis
    using locate_None_iff [of "map length h" pos] by (simp add: log_read_def length_concat)
next
  case (Some jr)
  obtain j r where "jr = (j, r)" by (cases jr)
  moreover have "\<not> length (concat h) \<le> pos"
    using Some locate_None_iff [of "map length h" pos] by (simp add: length_concat)
  moreover have "r < length (h ! j)"
    using Some \<open>jr = (j, r)\<close> by (auto simp: locate_Some_iff)
  ultimately show ?thesis using Some by (auto simp: log_read_def)
qed

lemma length_log_read: "length (log_read h pos n) \<le> n"
  by (auto simp: log_read_def split: option.split)

lemma map_length_hist: "drv_inv k \<Longrightarrow> map length (hist (abs_log k)) = map (unat \<circ> esize) (cb_list (the_cb k))"
  by (simp add: abs_log_def length_entry_bytes drv_invD)

lemma read_locked_refines:
  fixes fpos cnt :: u64
  assumes inv: "drv_inv k" and ok: "not_copied env = 0"
  defines "bs \<equiv> log_read (hist (abs_log k)) (unat fpos) (unat cnt)"
  shows "read_locked env (kmem k) (the_cb k) cnt fpos = Inr (int (length bs), fpos + of_nat (length bs), bs)"
proof (cases "aesd_circular_buffer_find_entry_offset_for_fpos (the_cb k) fpos")
  case None
  then have "cb_find (the_cb k) fpos = None" by (simp add: cb_find_def)
  then have "bs = []"
    using cb.find_None_iff [OF drv_invD(2) [OF inv]] unfolding bs_def log_read_eq_Nil_iff length_concat
    by (simp add: map_length_hist [OF inv])
  with None show ?thesis by (simp add: read_locked_def)
next
  case (Some io)
  let ?cb = "the_cb k"
  obtain i off where io: "io = (i, off)" by (cases io)
  let ?e = "entry ?cb ! i"
  from Some io have found: "cb_find ?cb fpos = Some (?e, off)" by (simp add: cb_find_def)
  then obtain j where j: "locate (map (unat \<circ> esize) (cb_list ?cb)) (unat fpos) = Some (j, unat off)"
    "?e = cb_list ?cb ! j" "j < length (cb_list ?cb)"
    by (rule cb.find_SomeE [OF drv_invD(2) [OF inv]])
  then have "entry_ok (kmem k) ?e" using drv_invD(3) [OF inv] by simp
  then obtain a blk where e: "buffptr ?e = Ptr a" "kmem k a = Some blk" "length blk = Suc (unat (esize ?e))"
    "blk ! unat (esize ?e) = nul" "unat (esize ?e) < kmalloc_bound"
    "entry_bytes (kmem k) ?e = take (unat (esize ?e)) blk"
    by (rule entry_okE)
  have off: "unat off < unat (esize ?e)"
    using cb.find_offset [OF drv_invD(2) [OF inv] found] by simp
  define n where "n = (if cnt > esize ?e - off then esize ?e - off else cnt)"
  have rest: "unat (esize ?e - off) = unat (esize ?e) - unat off"
    using off by (intro unat_sub_le) (simp add: word_le_nat_alt)
  then have n: "unat n = min (unat (esize ?e) - unat off) (unat cnt)"
    by (simp add: n_def word_less_nat_alt min_def)
  have "hist (abs_log k) ! j = take (unat (esize ?e)) blk"
    using j e(6) by (simp add: abs_log_def)
  then have bs: "bs = take (unat n) (drop (unat off) blk)"
    using j(1) n unfolding bs_def log_read_def map_length_hist [OF inv]
    by (simp add: drop_take min.commute)
  have "nul \<in> set (drop (unat off) blk)"
    using nth_mem [of "unat (esize ?e) - unat off" "drop (unat off) blk"] e(3,4) off by simp
  then have pr: "printk_string (kmem k) (buffptr ?e) (unat off) = Inr ()"
    using e by (simp add: printk_string_def)
  have ld: "load_range (kmem k) (buffptr ?e) (unat off) (unat n) = Inr bs"
    using e off n bs by (simp add: load_range_live)
  have len: "length bs = unat n" using bs n e(3) off by simp
  then have "sint n = int (length bs)" using n e(5) by (simp add: sint_unat_small)
  moreover have "n = of_nat (length bs)" using len by simp
  ultimately show ?thesis
    using Some io ok ld pr unfolding read_locked_def by (simp add: Let_def flip: n_def)
qed

lemma aesd_read_success:
  assumes "driver_inv k" "private_data filp = The_Aesd_Device" "lock_rc env = 0" "not_copied env = 0"
  shows "aesd_read env k filp cnt fpos =
    (let bs = log_read (hist (abs_log k)) (unat fpos) (unat cnt)
     in Inr (int (length bs), fpos + of_nat (length bs), bs, k))"
proof -
  from assms(1) have inv: "drv_inv k" and "lock (aesd_device k) = Mutex_Free"
    by (simp_all add: driver_inv_def)
  then show ?thesis
    using assms(2-4) read_locked_refines [OF inv assms(4)] drv_invD(1) [OF inv]
    by (simp add: aesd_read_def mutex_unlock_lock Let_def)
qed

text \<open>A read that fails, whatever the reason, leaves the device and the position alone.\<close>

lemma read_locked_efault:
  assumes inv: "drv_inv k" and fail: "not_copied env \<noteq> 0"
  shows "\<exists>r bs. read_locked env (kmem k) (the_cb k) cnt fpos = Inr (r, fpos, bs) \<and> r \<in> {0, - EFAULT}"
proof (cases "aesd_circular_buffer_find_entry_offset_for_fpos (the_cb k) fpos")
  case (Some io)
  let ?cb = "the_cb k"
  obtain i off where io: "io = (i, off)" by (cases io)
  let ?e = "entry ?cb ! i"
  from Some io have found: "cb_find ?cb fpos = Some (?e, off)" by (simp add: cb_find_def)
  note d = drv_invD [OF inv]
  obtain a blk where e: "buffptr ?e = Ptr a" "kmem k a = Some blk" "length blk = Suc (unat (esize ?e))"
    by (rule entry_okE [OF d(3) [OF cb.find_in_items [OF d(2) found]]])
  let ?n = "if cnt > esize ?e - off then esize ?e - off else cnt"
  have off: "unat off < unat (esize ?e)"
    using cb.find_offset [OF d(2) found] by simp
  then have "unat (esize ?e - off) = unat (esize ?e) - unat off"
    by (intro unat_sub_le) (simp add: word_le_nat_alt)
  then have "unat off + unat ?n \<le> length blk"
    using off e(3) by (auto simp: word_less_nat_alt)
  then have "load_range (kmem k) (buffptr ?e) (unat off) (unat ?n) = Inr (take (unat ?n) (drop (unat off) blk))"
    using e by (simp add: load_range_live)
  with Some io fail show ?thesis
    unfolding read_locked_def by (simp only: option.case prod.case Let_def ebind_simps if_True) auto
qed (simp add: read_locked_def)

end
