(* ===== verification/Driver_Seek.thy ===== *)
theory Driver_Seek
  imports Driver_Correct
begin

text \<open>
  Positioning: \<open>get_buffer_size\<close>, \<open>aesd_llseek\<close>, \<open>aesd_adjust_file_offset\<close> and \<open>aesd_ioctl\<close>.
\<close>

section \<open>The size of the log\<close>

definition log_size :: "kernel \<Rightarrow> nat" where
  "log_size k = length (concat (hist (abs_log k)))"

lemma sum_list_map_mset: "mset xs = mset ys \<Longrightarrow> sum_list (map f xs) = (sum_list (map f ys) :: nat)"
  by (metis mset_map sum_mset_sum_list)

lemma sum_entry_sizes:
  assumes "cb_wf cb"
  shows "sum_list (map (unat \<circ> esize) (entry cb)) = sum_list (map (unat \<circ> esize) (cb_list cb))"
proof -
  have "sum_list (map (unat \<circ> esize) (entry cb)) =
    sum_list (map (unat \<circ> esize) (cb_list cb @ replicate (10 - entry_count cb) zero_entry))"
    by (rule sum_list_map_mset) (simp add: mset_entry [OF assms])
  then show ?thesis by (simp add: zero_entry_def sum_list_replicate)
qed

lemma log_size_sum: "drv_inv k \<Longrightarrow> log_size k = sum_list (map (unat \<circ> esize) (cb_list (the_cb k)))"
  by (simp add: log_size_def length_concat map_length_hist)

lemma log_size_bound: "drv_inv k \<Longrightarrow> log_size k \<le> 10 * 2 ^ 40"
proof -
  assume inv: "drv_inv k"
  let ?ss = "map (unat \<circ> esize) (cb_list (the_cb k))"
  have "s \<le> 2 ^ 40" if "s \<in> set ?ss" for s
    using that drv_invD(3) [OF inv] by (fastforce elim!: entry_okE)
  then have "sum_list ?ss \<le> length ?ss * 2 ^ 40"
    by (rule sum_list_le_length)
  also have "\<dots> \<le> 10 * 2 ^ 40"
    using entry_count_le [OF drv_invD(2) [OF inv]] by simp
  finally show ?thesis using log_size_sum [OF inv] by simp
qed

lemma get_buffer_size_eq:
  assumes inv: "drv_inv k"
  shows "get_buffer_size (the_cb k) = of_nat (log_size k)"
proof -
  let ?cb = "the_cb k"
  have wf: "cb_wf ?cb" by (rule drv_invD [OF inv])
  have "map (\<lambda>i. unat (esize (entry ?cb ! i))) [0..<10] = map (unat \<circ> esize) (entry ?cb)"
    using wf by (intro nth_equalityI) (simp_all add: cb_wf_def)
  then show ?thesis
    using sum_entry_sizes [OF wf] log_size_sum [OF inv]
    unfolding get_buffer_size_def foldl_add_word by simp
qed

lemma sint_buffer_size: "drv_inv k \<Longrightarrow> sint (get_buffer_size (the_cb k)) = int (log_size k)"
  using log_size_bound [of k] by (simp add: get_buffer_size_eq sint_of_nat_small)

section \<open>Reading to the end\<close>

text \<open>
  The loop of a reader such as \<open>cat\<close> or \<open>getline\<close>: read until a call returns nothing.
\<close>

fun read_all :: "nat \<Rightarrow> io_env \<Rightarrow> kernel \<Rightarrow> kfile \<Rightarrow> u64 \<Rightarrow> u64 \<Rightarrow> bytes option" where
  "read_all 0 env k filp cnt fpos = None"
| "read_all (Suc fuel) env k filp cnt fpos =
     (case aesd_read env k filp cnt fpos of Inl _ \<Rightarrow> None
      | Inr (r, fpos', bs, k') \<Rightarrow>
          if r \<le> 0 then Some [] else map_option ((@) bs) (read_all fuel env k' filp cnt fpos'))"

lemma read_all_complete:
  assumes inv: "driver_inv k" and env: "private_data filp = The_Aesd_Device" "lock_rc env = 0" "not_copied env = 0"
    and cnt: "cnt \<noteq> 0" and fuel: "log_size k - unat fpos < fuel"
  shows "read_all fuel env k filp cnt fpos = Some (drop (unat fpos) (concat (hist (abs_log k))))"
  using fuel
proof (induction fuel arbitrary: fpos)
  case 0
  then show ?case by simp
next
  case (Suc fuel)
  let ?h = "hist (abs_log k)"
  define bs where "bs = log_read ?h (unat fpos) (unat cnt)"
  have rd: "aesd_read env k filp cnt fpos = Inr (int (length bs), fpos + of_nat (length bs), bs, k)"
    using aesd_read_success [OF inv env, of cnt fpos] by (simp add: bs_def Let_def)
  have nil: "bs = [] \<longleftrightarrow> log_size k \<le> unat fpos"
    using cnt by (simp add: bs_def log_read_eq_Nil_iff log_size_def unat_eq_zero)
  show ?case
  proof (cases "bs = []")
    case True
    with nil rd show ?thesis by (simp add: log_size_def)
  next
    case False
    obtain rest where rest: "drop (unat fpos) (concat ?h) = bs @ rest"
      using log_read_prefix bs_def by blast
    have "unat fpos + length bs \<le> log_size k"
      using arg_cong [OF rest, of length] False nil by (simp add: log_size_def)
    then have "unat fpos + length bs < 2 ^ 64"
      using log_size_bound [OF driver_invD [OF inv]] by simp
    then have pos: "unat (fpos + of_nat (length bs)) = unat fpos + length bs"
      by (subst unat_add_no_wrap) (simp_all add: unat_of_nat_u64)
    have "read_all fuel env k filp cnt (fpos + of_nat (length bs)) = Some (drop (unat fpos + length bs) (concat ?h))"
      using Suc.IH [of "fpos + of_nat (length bs)"] Suc.prems False nil pos by (cases bs) simp_all
    moreover have "drop (unat fpos + length bs) (concat ?h) = rest"
      using arg_cong [OF rest, of "drop (length bs)"] by (simp add: add.commute)
    ultimately show ?thesis using rd False rest by simp
  qed
qed

section \<open>llseek\<close>

lemma aesd_llseek_unfold:
  assumes "driver_inv k" "private_data filp = The_Aesd_Device" "lock_rc env = 0"
  shows "aesd_llseek fsl env k filp off whence =
    (let (r, filp') = fsl filp off whence (of_nat (log_size k)) in Inr (sint r, filp', k))"
proof -
  from assms(1) have inv: "drv_inv k" and "lock (aesd_device k) = Mutex_Free"
    by (simp_all add: driver_inv_def)
  then show ?thesis
    using assms(2,3) drv_invD(1) [OF inv] get_buffer_size_eq [OF inv]
    by (simp add: aesd_llseek_def mutex_unlock_lock Let_def case_prod_unfold)
qed

lemma fixed_size_llseek_inside:
  assumes "fixed_size_llseek_ok fsl" "whence \<in> {SEEK_SET, SEEK_CUR, SEEK_END}"
    "0 \<le> sint (seek_target filp off whence sz)" "sint (seek_target filp off whence sz) \<le> sint sz"
  shows "fsl filp off whence sz =
    (seek_target filp off whence sz, filp\<lparr>f_pos := seek_target filp off whence sz\<rparr>)"
  using assms unfolding fixed_size_llseek_ok_def Let_def by blast

lemma fixed_size_llseek_refused:
  assumes "fixed_size_llseek_ok fsl" "whence \<noteq> SEEK_CUR"
    "whence \<in> {SEEK_SET, SEEK_END} \<Longrightarrow>
      \<not> (0 \<le> sint (seek_target filp off whence sz) \<and> sint (seek_target filp off whence sz) \<le> sint sz)"
  shows "fsl filp off whence sz = (- 22, filp)"
  using assms unfolding fixed_size_llseek_ok_def seek_target_def by (cases "whence = SEEK_SET"; cases "whence = SEEK_END") auto

section \<open>Seeking to a command\<close>

lemma cmd_offset_eq: "cmd_offset cb cmd = of_nat (\<Sum>i<unat cmd. unat (esize (entry cb ! i)))"
  by (simp add: cmd_offset_def foldl_add_word interv_sum_list_conv_sum_set_nat atLeast0LessThan
      del: of_nat_sum)

text \<open>
  While nothing was evicted yet, slot and command numbers agree (\<open>out_offs = 0\<close>): slot \<open>i\<close>
  holds command \<open>i\<close>, and the slots behind the last command are zero.
\<close>

lemma slot_is_command:
  assumes "cb_wf cb" "out_offs cb = 0" "i < 10"
  shows "entry cb ! i = (if i < entry_count cb then cb_list cb ! i else zero_entry)"
  using assms by (auto simp: cb_wf_def nth_cb_list entry_index_def entry_count_def split: if_splits)

text \<open>The specified position of byte \<open>off\<close> of command \<open>cmd\<close>, if there is such a byte.\<close>

definition log_seek :: "bytes list \<Rightarrow> nat \<Rightarrow> nat \<Rightarrow> nat option" where
  "log_seek h cmd off =
     (if cmd < length h \<and> off < length (h ! cmd) then Some (length (concat (take cmd h)) + off) else None)"

lemma log_seek_content:
  assumes "log_seek h cmd off = Some p"
  shows "drop p (concat h) = drop off (h ! cmd) @ concat (drop (Suc cmd) h)" "p < length (concat h)"
proof -
  from assms have c: "cmd < length h" "off < length (h ! cmd)" "p = length (concat (take cmd h)) + off"
    by (auto simp: log_seek_def split: if_splits)
  have "concat h = concat (take cmd h) @ h ! cmd @ concat (drop (Suc cmd) h)"
    using c(1) by (metis concat.simps(2) concat_append id_take_nth_drop)
  then show "drop p (concat h) = drop off (h ! cmd) @ concat (drop (Suc cmd) h)" "p < length (concat h)"
    using c by simp_all
qed

text \<open>
  What \<open>aesd_adjust_file_offset\<close> computes: it numbers the commands by their slots. \<open>h\<close> are the
  commands in the order of the slots.
\<close>

definition in_slots :: "aesd_circular_buffer \<Rightarrow> bytes list \<Rightarrow> bool" where
  "in_slots cb h \<longleftrightarrow> length h \<le> 10 \<and> (\<forall>i < 10. unat (esize (entry cb ! i)) = (if i < length h then length (h ! i) else 0))"

lemma adjust_offset:
  assumes slot: "in_slots cb h" and cmd: "cmd < 10"
  shows "ucast (cmd_off :: u32) \<ge> esize (entry cb ! unat cmd) \<longleftrightarrow> log_seek h (unat cmd) (unat cmd_off) = None"
    "log_seek h (unat cmd) (unat cmd_off) = Some p \<Longrightarrow> cmd_offset cb cmd + ucast cmd_off = of_nat p"
proof -
  have c10: "unat cmd < 10" using cmd by (simp add: word_less_nat_alt)
  show "ucast cmd_off \<ge> esize (entry cb ! unat cmd) \<longleftrightarrow> log_seek h (unat cmd) (unat cmd_off) = None"
    using slot c10 by (auto simp: in_slots_def word_le_nat_alt log_seek_def)
  assume p: "log_seek h (unat cmd) (unat cmd_off) = Some p"
  then have lt: "unat cmd < length h" by (simp add: log_seek_def split: if_splits)
  have "(\<Sum>i<unat cmd. unat (esize (entry cb ! i))) = (\<Sum>i<unat cmd. length (h ! i))"
    using slot lt c10 by (intro sum.cong) (auto simp: in_slots_def)
  also have "\<dots> = length (concat (take (unat cmd) h))"
    using lt by (simp add: length_concat sum_list_sum_nth atLeast0LessThan take_map [symmetric])
  finally show "cmd_offset cb cmd + ucast cmd_off = of_nat p"
    using p by (auto simp: cmd_offset_eq log_seek_def split: if_splits)
qed

lemma aesd_adjust_file_offset_slots:
  assumes inv: "driver_inv k" and slots: "in_slots (the_cb k) h" "length (concat h) = log_size k"
    and env: "private_data filp = The_Aesd_Device" "lock_rc env = 0" "fixed_size_llseek_ok fsl"
  shows "aesd_adjust_file_offset fsl env k filp cmd cmd_off =
    (case log_seek h (unat cmd) (unat cmd_off) of
       None \<Rightarrow> Inr (- EINVAL, filp, k)
     | Some p \<Rightarrow> Inr (0, filp\<lparr>f_pos := of_nat p\<rparr>, k))"
proof (cases "cmd < 10")
  case False
  with slots(1) have "log_seek h (unat cmd) (unat cmd_off) = None"
    by (simp add: log_seek_def word_less_nat_alt in_slots_def)
  with False show ?thesis by (simp add: aesd_adjust_file_offset_def not_less)
next
  case True
  from inv have drv: "drv_inv k" and free: "lock (aesd_device k) = Mutex_Free"
    by (simp_all add: driver_inv_def)
  note adj = adjust_offset [OF slots(1) True, of cmd_off]
  show ?thesis
  proof (cases "log_seek h (unat cmd) (unat cmd_off)")
    case None
    with adj(1) True env free show ?thesis
      by (simp add: aesd_adjust_file_offset_def drv_invD(1) [OF drv] mutex_unlock_lock not_le Let_def)
  next
    case (Some p)
    have p: "p < log_size k" using log_seek_content(2) [OF Some] slots(2) by simp
    then have sp: "sint (of_nat p :: u64) = int p"
      using log_size_bound [OF drv] by (intro sint_of_nat_small) simp
    have "fsl filp (of_nat p) SEEK_SET (get_buffer_size (the_cb k)) = (of_nat p, filp\<lparr>f_pos := of_nat p\<rparr>)"
      using fixed_size_llseek_inside [OF env(3), of SEEK_SET filp "of_nat p"] sp p sint_buffer_size [OF drv]
      by (simp add: seek_target_def)
    with adj True env free Some sp show ?thesis
      by (simp add: aesd_adjust_file_offset_def drv_invD(1) [OF drv] mutex_unlock_lock not_le Let_def)
  qed
qed

lemma hist_in_slots:
  assumes inv: "drv_inv k" and out: "out_offs (the_cb k) = 0"
  shows "in_slots (the_cb k) (hist (abs_log k))"
  using slot_is_command [OF drv_invD(2) [OF inv] out] drv_invD(3) [OF inv] entry_count_le [OF drv_invD(2) [OF inv]]
  by (auto simp: in_slots_def abs_log_def length_entry_bytes zero_entry_def)

lemma aesd_adjust_file_offset_refines:
  assumes inv: "driver_inv k" and out: "out_offs (the_cb k) = 0"
    and env: "private_data filp = The_Aesd_Device" "lock_rc env = 0" "fixed_size_llseek_ok fsl"
  shows "aesd_adjust_file_offset fsl env k filp cmd cmd_off =
    (case log_seek (hist (abs_log k)) (unat cmd) (unat cmd_off) of
       None \<Rightarrow> Inr (- EINVAL, filp, k)
     | Some p \<Rightarrow> Inr (0, filp\<lparr>f_pos := of_nat p\<rparr>, k))"
  using aesd_adjust_file_offset_slots [OF inv hist_in_slots [OF driver_invD [OF inv] out] _ env] by (simp add: log_size_def)

text \<open>A full buffer: slot 0 holds the command at \<open>10 - out_offs\<close>.\<close>

definition slot_order :: "kernel \<Rightarrow> bytes list" where
  "slot_order k = rotate (10 - unat (out_offs (the_cb k))) (hist (abs_log k))"

lemma hist_full:
  assumes inv: "drv_inv k" and full: "full (the_cb k)"
  shows "length (hist (abs_log k)) = 10" "i < 10 \<Longrightarrow> hist (abs_log k) ! i \<noteq> []" "unat (out_offs (the_cb k)) < 10"
    "length (concat (slot_order k)) = log_size k" "in_slots (the_cb k) (slot_order k)"
proof -
  note wf = drv_invD(2) [OF inv]
  have "entry_count (the_cb k) = 10" using full by (simp add: entry_count_def)
  then show len: "length (hist (abs_log k)) = 10" by (simp add: abs_log_def)
  show "unat (out_offs (the_cb k)) < 10" using wf full by (simp add: cb_wf_def)
  have ok: "entry_ok (kmem k) e" if "e \<in> set (cb_list (the_cb k))" for e using drv_invD(3) [OF inv] that by blast
  show "hist (abs_log k) ! i \<noteq> []" if "i < 10"
    using ok [OF nth_mem, of i] that len length_entry_bytes [OF ok [OF nth_mem], of i]
    by (auto simp: abs_log_def elim!: entry_okE)
  have "mset (slot_order k) = mset (hist (abs_log k))" by (simp add: slot_order_def mset_rotate)
  then show "length (concat (slot_order k)) = log_size k"
    unfolding log_size_def length_concat by (rule sum_list_map_mset)
  have "slot_order k = map (entry_bytes (kmem k)) (entry (the_cb k))"
    using entry_split_full [OF wf full] by (simp add: slot_order_def abs_log_def rotate_map)
  moreover have "set (entry (the_cb k)) = set (cb_list (the_cb k))" using cb_list_full [OF wf full] by simp
  moreover have "length (entry (the_cb k)) = 10" using wf by (simp add: cb_wf_def)
  ultimately show "in_slots (the_cb k) (slot_order k)" 
    using length_entry_bytes [OF ok] by (simp add: in_slots_def) (metis nth_mem)
qed

section \<open>The ioctl dispatcher\<close>

lemma aesd_ioctl_other:
  "cmd \<noteq> AESDCHAR_IOCSEEKTO ioc \<Longrightarrow>
     \<exists>e \<in> {ENOTTY, EFAULT}. aesd_ioctl ioc fsl env k filp cmd = Inr (- e, filp, k)"
  by (simp add: aesd_ioctl_def)

lemma aesd_ioctl_seekto:
  assumes "ioc_ok ioc" "access_ok_ret env" "not_copied env = 0"
  shows "aesd_ioctl ioc fsl env k filp (AESDCHAR_IOCSEEKTO ioc) =
    ebind (aesd_adjust_file_offset fsl env k filp (write_cmd (user_seekto env)) (write_cmd_offset (user_seekto env)))
      (\<lambda>(retval, filp', k'). Inr (to_int retval, filp', k'))"
  using assms by (simp add: aesd_ioctl_def AESDCHAR_IOCSEEKTO_def ioc_ok_def)

section \<open>No faults\<close>

lemma aesd_read_no_fault:
  assumes "driver_inv k" "private_data filp = The_Aesd_Device"
  shows "\<exists>r p bs. aesd_read env k filp cnt fpos = Inr (r, p, bs, k) \<and> (r < 0 \<longrightarrow> p = fpos)"
proof -
  from assms(1) have inv: "drv_inv k" and free: "lock (aesd_device k) = Mutex_Free"
    by (simp_all add: driver_inv_def)
  consider "lock_rc env \<noteq> 0" | "lock_rc env = 0" "not_copied env = 0" | "lock_rc env = 0" "not_copied env \<noteq> 0"
    by blast
  then show ?thesis
  proof cases
    case 1
    with assms(2) show ?thesis by (simp add: aesd_read_def)
  next
    case 2
    with aesd_read_success [OF assms 2] show ?thesis by (simp add: Let_def)
  next
    case 3
    from read_locked_efault [OF inv 3(2), of cnt fpos] obtain r bs where
      "read_locked env (kmem k) (the_cb k) cnt fpos = Inr (r, fpos, bs)" by blast
    with 3 assms(2) drv_invD(1) [OF inv] free show ?thesis
      by (simp add: aesd_read_def mutex_unlock_lock Let_def)
  qed
qed

lemma aesd_llseek_no_fault:
  assumes "driver_inv k" "private_data filp = The_Aesd_Device"
  shows "\<exists>r filp'. aesd_llseek fsl env k filp off whence = Inr (r, filp', k)"
  using assms aesd_llseek_unfold [OF assms, of env fsl off whence]
  by (cases "lock_rc env = 0") (auto simp: aesd_llseek_def split: prod.splits)

lemma aesd_adjust_no_fault:
  assumes "driver_inv k" "private_data filp = The_Aesd_Device"
  shows "\<exists>r filp'. aesd_adjust_file_offset fsl env k filp cmd off = Inr (r, filp', k)"
  using assms drv_invD(1) [OF driver_invD [OF assms(1)]]
  by (simp add: aesd_adjust_file_offset_def driver_inv_def mutex_unlock_lock Let_def case_prod_unfold)

lemma aesd_ioctl_no_fault:
  assumes "driver_inv k" "private_data filp = The_Aesd_Device"
  shows "\<exists>r filp'. aesd_ioctl ioc fsl env k filp cmd = Inr (r, filp', k)"
proof -
  obtain r filp' where "aesd_adjust_file_offset fsl env k filp (write_cmd (user_seekto env))
      (write_cmd_offset (user_seekto env)) = Inr (r, filp', k)"
    using aesd_adjust_no_fault [OF assms] by blast
  then show ?thesis by (simp add: aesd_ioctl_def)
qed

end
