(* ===== verification/Driver_Module.thy ===== *)
theory Driver_Module
  imports Driver_Seek
begin

text \<open>
  Loading and unloading the module: a successful load establishes the invariant, a failed
  one releases what it took, and unloading frees every block the driver still owns.
\<close>

section \<open>Loading\<close>

text \<open>
  The documented behaviour of the functions \<open>aesd_init_module\<close> calls: the circular buffer
  is a new block, and the region is one that nobody registered.
\<close>

definition init_env_ok :: "init_env \<Rightarrow> kernel \<Rightarrow> bool" where
  "init_env_ok ienv k \<longleftrightarrow> region_dev ienv \<notin> regions k \<and>
     (case cb_alloc ienv of NULL \<Rightarrow> True | Ptr a \<Rightarrow> kcb k a = None)"

text \<open>The state a successful load leaves: an empty log, the mutex free, the device live.\<close>

lemma init_success:
  assumes "0 \<le> region_rc ienv" "cb_alloc ienv = Ptr a" "cdev_rc ienv = 0"
  obtains k' where "aesd_init_module ienv MAJOR MKDEV k = Inr (0, k')" "driver_inv k'" "pend_ok k'"
    "abs_log k' = \<lparr>hist = [], pend = []\<rparr>" "kmem k' = kmem k"
    "kcb k' = (kcb k)(a \<mapsto> aesd_circular_buffer_init)" "buffer (aesd_device k') = Ptr a"
    "tmp_buff_ptr (aesd_device k') = NULL" "tmp_buff_size (aesd_device k') = 0"
    "regions k' = insert (region_dev ienv) (regions k)" "aesd_major k' = MAJOR (region_dev ienv)"
    "aesd_minor k' = aesd_minor k"
    "cdev (aesd_device k') = Cdev_Live (MKDEV (MAJOR (region_dev ienv)) (aesd_minor k))"
proof -
  define k' where "k' = k\<lparr>aesd_major := MAJOR (region_dev ienv), regions := insert (region_dev ienv) (regions k),
    kcb := (kcb k)(a \<mapsto> aesd_circular_buffer_init),
    aesd_device := zero_dev\<lparr>buffer := Ptr a, lock := Mutex_Free,
      cdev := Cdev_Live (MKDEV (MAJOR (region_dev ienv)) (aesd_minor k))\<rparr>\<rparr>"
  have der: "deref_cb k' (buffer (aesd_device k')) = Inr aesd_circular_buffer_init"
    by (simp add: k'_def deref_cb_def)
  then have cb: "the_cb k' = aesd_circular_buffer_init" by (simp add: the_cb_def)
  have "drv_inv k'"
    unfolding drv_inv_iff cb der by (simp add: cb_wf_init tmp_ok_def k'_def zero_dev_def)
  then show thesis
    using assms by (intro that [of k'])
      (simp_all add: aesd_init_module_def aesd_setup_cdev_def Let_def driver_inv_def pend_ok_def
        abs_log_def pend_bytes_def cb, simp_all add: k'_def zero_dev_def)
qed

lemma init_failure:
  assumes "init_env_ok ienv k" "region_rc ienv < 0 \<or> cb_alloc ienv = NULL \<or> cdev_rc ienv \<noteq> 0"
  shows "\<exists>k'. aesd_init_module ienv MAJOR MKDEV k =
      Inr (if region_rc ienv < 0 then region_rc ienv else if cb_alloc ienv = NULL then - ENOMEM else cdev_rc ienv, k')
    \<and> regions k' = regions k \<and> kcb k' = kcb k \<and> kmem k' = kmem k"
proof -
  have up: "(kcb k)(a := None) = kcb k" if "cb_alloc ienv = Ptr a" for a
    using assms(1) that by (auto simp: init_env_ok_def fun_upd_idem)
  show ?thesis
    by (cases "cb_alloc ienv"; cases "region_rc ienv < 0")
      (use assms up in \<open>simp_all add: aesd_init_module_def aesd_setup_cdev_def Let_def init_env_ok_def zero_dev_def\<close>)
qed

section \<open>Unloading\<close>

lemma free_entries_spec:
  assumes "distinct (filter (\<lambda>p. p \<noteq> NULL) (map buffptr es))"
    "\<And>e. e \<in> set es \<Longrightarrow> buffptr e \<noteq> NULL \<Longrightarrow> \<exists>bs. block m (buffptr e) = Inr bs"
  shows "\<exists>m'. free_entries m es = Inr m' \<and> dom m' = {a \<in> dom m. Ptr a \<notin> buffptr ` set es}"
  using assms
proof (induction es arbitrary: m)
  case Nil
  then show ?case by auto
next
  case (Cons e es)
  show ?case
  proof (cases "buffptr e = NULL")
    case True
    with Cons show ?thesis by auto
  next
    case False
    with Cons.prems(2) [of e] obtain bs where "block m (buffptr e) = Inr bs" by auto
    from kfree_block [OF this] obtain m1 where m1: "kfree m (buffptr e) = Inr m1"
      "\<And>q. q \<noteq> buffptr e \<Longrightarrow> block m1 q = block m q" "dom m1 = {a \<in> dom m. Ptr a \<noteq> buffptr e}" by blast
    have "\<exists>bs. block m1 (buffptr x) = Inr bs" if "x \<in> set es" "buffptr x \<noteq> NULL" for x
    proof -
      have "buffptr x \<noteq> buffptr e" using Cons.prems(1) False that by (auto simp: image_iff)
      then show ?thesis using m1(2) Cons.prems(2) [of x] that by simp
    qed
    then obtain m' where "free_entries m1 es = Inr m'" "dom m' = {a \<in> dom m1. Ptr a \<notin> buffptr ` set es}"
      using Cons.IH [of m1] Cons.prems(1) False by auto
    with False m1 show ?thesis by auto
  qed
qed

text \<open>The array slots with a pointer are exactly the live entries, in some order.\<close>

lemma slots_with_pointer:
  assumes "cb_wf cb" "NULL \<notin> buffptr ` set (cb_list cb)"
  shows "mset (filter (\<lambda>p. p \<noteq> NULL) (map buffptr (entry cb))) = mset (map buffptr (cb_list cb))"
proof -
  have "filter_mset (\<lambda>p. p \<noteq> NULL) (image_mset buffptr (mset (entry cb))) =
    filter_mset (\<lambda>p. p \<noteq> NULL) (image_mset buffptr (mset (cb_list cb)))"
    by (simp add: mset_entry [OF assms(1)] zero_entry_def)
  also have "\<dots> = image_mset buffptr (mset (cb_list cb))"
    using assms(2) by (auto simp: filter_mset_eq_conv image_iff)
  finally show ?thesis by simp
qed

text \<open>The pending command is freed unless its size is 0, even if there is a block.\<close>

definition tmp_freed :: "aesd_dev \<Rightarrow> nat \<Rightarrow> bool" where
  "tmp_freed dev a \<longleftrightarrow> tmp_buff_size dev \<noteq> 0 \<and> Ptr a = tmp_buff_ptr dev"

lemma cleanup_tmp:
  assumes ok: "tmp_ok m dev"
  obtains m1 where "(if tmp_buff_size dev > 0 then kfree m (tmp_buff_ptr dev) else Inr m) = Inr m1"
    "\<And>q. q \<noteq> tmp_buff_ptr dev \<Longrightarrow> block m1 q = block m q" "dom m1 = {a \<in> dom m. \<not> tmp_freed dev a}"
proof (cases "tmp_buff_ptr dev = NULL \<or> tmp_buff_size dev = 0")
  case True
  then show thesis by (intro that [of m]) (auto simp: tmp_freed_def)
next
  case False
  with ok obtain bs where "block m (tmp_buff_ptr dev) = Inr bs" by (auto simp: tmp_ok_def split: sum.splits)
  from kfree_block [OF this] obtain m1 where "kfree m (tmp_buff_ptr dev) = Inr m1"
    "\<forall>q. q \<noteq> tmp_buff_ptr dev \<longrightarrow> block m1 q = block m q"
    "dom m1 = {a \<in> dom m. Ptr a \<noteq> tmp_buff_ptr dev}" by blast
  with False show thesis by (intro that [of m1]) (simp_all add: tmp_freed_def word_gt_0)
qed

lemma cleanup_spec:
  assumes inv: "drv_inv k"
  shows "\<exists>k'. aesd_cleanup_module MKDEV k = Inr k' \<and>
    dom (kmem k') = {a \<in> dom (kmem k). \<not> tmp_freed (aesd_device k) a \<and> Ptr a \<notin> buffptr ` set (cb_list (the_cb k))} \<and>
    (\<exists>a. buffer (aesd_device k) = Ptr a \<and> kcb k' = (kcb k)(a := None)) \<and>
    regions k' = regions k - {MKDEV (aesd_major k) (aesd_minor k)} \<and>
    lock (aesd_device k') = Mutex_Destroyed \<and> cdev (aesd_device k') = Cdev_Deleted"
proof -
  let ?dev = "aesd_device k" and ?cb = "the_cb k"
  note d = drv_invD [OF inv]
  from d(1) obtain c where c: "buffer ?dev = Ptr c" "kcb k c = Some ?cb"
    by (auto simp: deref_cb_def split: ptr.splits option.splits)
  obtain m1 where m1: "(if tmp_buff_size ?dev > 0 then kfree (kmem k) (tmp_buff_ptr ?dev) else Inr (kmem k)) = Inr m1"
    "\<And>q. q \<noteq> tmp_buff_ptr ?dev \<Longrightarrow> block m1 q = block (kmem k) q"
    "dom m1 = {a \<in> dom (kmem k). \<not> tmp_freed ?dev a}"
    using cleanup_tmp [OF d(5)] by blast
  have nn: "NULL \<notin> buffptr ` set (cb_list ?cb)" using d(3) by (fastforce elim!: entry_okE)
  note slots = slots_with_pointer [OF d(2) nn]
  have ptrs: "p \<in> buffptr ` set (entry ?cb) \<longleftrightarrow> p \<in> buffptr ` set (cb_list ?cb)" if "p \<noteq> NULL" for p
    using that mset_eq_setD [OF slots] by auto
  have "\<exists>m2. free_entries m1 (entry ?cb) = Inr m2 \<and> dom m2 = {a \<in> dom m1. Ptr a \<notin> buffptr ` set (entry ?cb)}"
  proof (rule free_entries_spec)
    show "distinct (filter (\<lambda>p. p \<noteq> NULL) (map buffptr (entry ?cb)))"
      using d(4) mset_eq_imp_distinct_iff [OF slots] by simp
    fix e assume "e \<in> set (entry ?cb)" "buffptr e \<noteq> NULL"
    then obtain x where x: "x \<in> set (cb_list ?cb)" "buffptr x = buffptr e"
      using ptrs [of "buffptr e"] by auto
    then have "buffptr e \<noteq> tmp_buff_ptr ?dev" using d(6) by (metis image_eqI)
    with m1(2) d(3) [OF x(1)] x(2) show "\<exists>bs. block m1 (buffptr e) = Inr bs"
      by (metis entry_okE block_simps(2))
  qed
  then obtain m2 where m2: "free_entries m1 (foreach_entries ?cb) = Inr m2"
    "dom m2 = {a \<in> dom m1. Ptr a \<notin> buffptr ` set (entry ?cb)}"
    using d(2) by (auto simp: foreach_entries_eq cb_wf_def)
  have "dom m2 = {a \<in> dom (kmem k). \<not> tmp_freed ?dev a \<and> Ptr a \<notin> buffptr ` set (cb_list ?cb)}"
    unfolding m2(2) m1(3) using ptrs by auto
  then show ?thesis
    using m1(1) m2(1) d(1) c
    by (cases "tmp_buff_size ?dev > 0") (simp_all add: aesd_cleanup_module_def Let_def)
qed

lemma cleanup_frees:
  assumes inv: "drv_inv k" and tmp: "tmp_buff_size (aesd_device k) = 0 \<Longrightarrow> tmp_buff_ptr (aesd_device k) = NULL"
    and leak: "no_leak k"
  shows "\<exists>k'. aesd_cleanup_module MKDEV k = Inr k' \<and> kmem k' = Map.empty \<and>
    (\<exists>a. buffer (aesd_device k) = Ptr a \<and> kcb k' = (kcb k)(a := None)) \<and>
    regions k' = regions k - {MKDEV (aesd_major k) (aesd_minor k)} \<and>
    lock (aesd_device k') = Mutex_Destroyed \<and> cdev (aesd_device k') = Cdev_Deleted"
proof -
  have "{a \<in> dom (kmem k). \<not> tmp_freed (aesd_device k) a \<and> Ptr a \<notin> buffptr ` set (cb_list (the_cb k))} = {}"
    using leak tmp unfolding no_leak_def tmp_freed_def by (auto simp: dom_def)
  with cleanup_spec [OF inv, of MKDEV] show ?thesis by auto
qed

end
