(* ===== verification/Driver_System.thy ===== *)
theory Driver_System
  imports Driver_Module
begin

text \<open>
  The driver under arbitrary sequences of system calls from any number of open files: a
  labelled step relation on the kernel state and the table of open files, one rule per
  entry of \<open>aesd_fops\<close>. An operation is one step here; every operation holds the device mutex
  from its first access to the shared state to its last, and \<open>Driver_Parallel\<close> shows that calls
  whose steps interleave take effect one after the other.
\<close>

record drv_sys =
  kern :: kernel
  files :: "nat \<rightharpoonup> kfile"

text \<open>What a system call did, as its caller sees it.\<close>

datatype drv_event =
    Ev_Open nat
  | Ev_Release nat
  | Ev_Read nat u64 int bytes
  | Ev_Write nat bytes int
  | Ev_Llseek nat u64 int int
  | Ev_Ioctl nat u32 int

definition new_file :: kfile where
  "new_file = \<lparr>private_data = No_Dev, f_pos = 0\<rparr>"

inductive drv_step :: "ioc_macros \<Rightarrow> llseek_fun \<Rightarrow> drv_sys \<Rightarrow> drv_event \<Rightarrow> drv_sys \<Rightarrow> bool"
  for ioc fsl where
  step_open: "\<lbrakk>files s fd = None; aesd_open \<lparr>i_cdev = The_Aesd_Device\<rparr> new_file = (0, filp)\<rbrakk> \<Longrightarrow>
    drv_step ioc fsl s (Ev_Open fd) (s\<lparr>files := (files s)(fd \<mapsto> filp)\<rparr>)"
| step_release: "\<lbrakk>files s fd = Some filp; aesd_release \<lparr>i_cdev = The_Aesd_Device\<rparr> filp = 0\<rbrakk> \<Longrightarrow>
    drv_step ioc fsl s (Ev_Release fd) (s\<lparr>files := (files s)(fd := None)\<rparr>)"
| step_read: "\<lbrakk>files s fd = Some filp; aesd_read env (kern s) filp cnt (f_pos filp) = Inr (r, p, bs, k')\<rbrakk> \<Longrightarrow>
    drv_step ioc fsl s (Ev_Read fd cnt r bs)
      (s\<lparr>kern := k', files := (files s)(fd \<mapsto> filp\<lparr>f_pos := p\<rparr>)\<rparr>)"
| step_write: "\<lbrakk>files s fd = Some filp; write_args_ok env (kern s) ubuf cnt;
     aesd_write env (kern s) filp ubuf cnt (f_pos filp) = Inr (r, p, k')\<rbrakk> \<Longrightarrow>
    drv_step ioc fsl s (Ev_Write fd ubuf r)
      (s\<lparr>kern := k', files := (files s)(fd \<mapsto> filp\<lparr>f_pos := p\<rparr>)\<rparr>)"
| step_llseek: "\<lbrakk>files s fd = Some filp; aesd_llseek fsl env (kern s) filp off whence = Inr (r, filp', k')\<rbrakk> \<Longrightarrow>
    drv_step ioc fsl s (Ev_Llseek fd off whence r)
      (s\<lparr>kern := k', files := (files s)(fd \<mapsto> filp')\<rparr>)"
| step_ioctl: "\<lbrakk>files s fd = Some filp; aesd_ioctl ioc fsl env (kern s) filp cmd = Inr (r, filp', k')\<rbrakk> \<Longrightarrow>
    drv_step ioc fsl s (Ev_Ioctl fd cmd r)
      (s\<lparr>kern := k', files := (files s)(fd \<mapsto> filp')\<rparr>)"

inductive_cases write_stepE: "drv_step ioc fsl s (Ev_Write fd ubuf r) s'"

inductive drv_run :: "ioc_macros \<Rightarrow> llseek_fun \<Rightarrow> drv_sys \<Rightarrow> drv_event list \<Rightarrow> drv_sys \<Rightarrow> bool"
  for ioc fsl where
  run_nil: "drv_run ioc fsl s [] s"
| run_snoc: "drv_run ioc fsl s evs s' \<Longrightarrow> drv_step ioc fsl s' ev s'' \<Longrightarrow> drv_run ioc fsl s (evs @ [ev]) s''"

section \<open>Invariant of the system\<close>

text \<open>The driver's invariant, and every open file belongs to the device.\<close>

definition sys_inv :: "drv_sys \<Rightarrow> bool" where
  "sys_inv s \<longleftrightarrow> driver_inv (kern s) \<and> (\<forall>fd filp. files s fd = Some filp \<longrightarrow> private_data filp = The_Aesd_Device)"

text \<open>Only a write changes the device.\<close>

lemma aesd_read_keeps:
  assumes "driver_inv k" "private_data filp = The_Aesd_Device" "aesd_read env k filp cnt fpos = Inr (r, p, bs, k')"
  shows "k' = k"
  using aesd_read_no_fault [OF assms(1,2), of env cnt fpos] assms(3) by auto

lemma aesd_llseek_keeps:
  assumes "driver_inv k" "private_data filp = The_Aesd_Device" "aesd_llseek fsl env k filp off whence = Inr (r, filp', k')"
  shows "k' = k"
  using aesd_llseek_no_fault [OF assms(1,2), of fsl env off whence] assms(3) by auto

lemma aesd_ioctl_keeps:
  assumes "driver_inv k" "private_data filp = The_Aesd_Device" "aesd_ioctl ioc fsl env k filp cmd = Inr (r, filp', k')"
  shows "k' = k"
  using aesd_ioctl_no_fault [OF assms(1,2), of ioc fsl env cmd] assms(3) by auto

lemma fixed_size_llseek_device:
  "fixed_size_llseek_ok fsl \<Longrightarrow> private_data (snd (fsl filp off whence sz)) = private_data filp"
  by (simp add: fixed_size_llseek_ok_def)

lemma aesd_adjust_device:
  assumes "fixed_size_llseek_ok fsl" "aesd_adjust_file_offset fsl env k filp cmd off = Inr (r, filp', k')"
  shows "private_data filp' = private_data filp"
  using assms fixed_size_llseek_device [OF assms(1)]
  by (fastforce simp: aesd_adjust_file_offset_def Let_def case_prod_unfold ebind_eq_Inr split: if_splits)

lemma aesd_write_driver_inv:
  assumes "driver_inv k" "private_data filp = The_Aesd_Device" "write_args_ok env k ubuf cnt"
    "aesd_write env k filp ubuf cnt fpos = Inr (r, p, k')"
  shows "driver_inv k'"
proof (cases "lock_rc env = 0 \<and> alloc_ret env \<noteq> NULL \<and> not_copied env = 0")
  case True
  with aesd_write_success [OF assms(1,2) _ assms(3), of fpos] assms(4) show ?thesis by auto
next
  case False
  with aesd_write_failure [OF assms(1-3), of fpos] assms(4) show ?thesis by auto
qed

lemma drv_step_inv [wf_intros]:
  assumes "drv_step ioc fsl s ev s'" "fixed_size_llseek_ok fsl" "sys_inv s"
  shows "sys_inv s'"
  using assms(1)
proof cases
  case (step_read fd filp env cnt r p bs k')
  with assms(3) show ?thesis by (auto simp: sys_inv_def dest: aesd_read_keeps)
next
  case (step_write fd filp env ubuf cnt r p k')
  with assms(3) show ?thesis by (auto simp: sys_inv_def dest: aesd_write_driver_inv)
next
  case (step_llseek fd filp env off whence r filp' k')
  have "private_data filp' = private_data filp"
    using step_llseek assms(3) fixed_size_llseek_device [OF assms(2)]
    by (fastforce simp: aesd_llseek_def Let_def case_prod_unfold ebind_eq_Inr sys_inv_def split: if_splits)
  with step_llseek assms(3) show ?thesis by (auto simp: sys_inv_def dest: aesd_llseek_keeps)
next
  case (step_ioctl fd filp env cmd r filp' k')
  have "private_data filp' = private_data filp"
    using step_ioctl assms(2) by (auto simp: aesd_ioctl_def split: if_splits dest: aesd_adjust_device)
  with step_ioctl assms(3) show ?thesis by (auto simp: sys_inv_def dest: aesd_ioctl_keeps)
qed (use assms(3) in \<open>auto simp: sys_inv_def aesd_open_def\<close>)

lemma drv_run_inv:
  assumes "drv_run ioc fsl s evs s'" "fixed_size_llseek_ok fsl" "sys_inv s"
  shows "sys_inv s'"
  using assms by (induction rule: drv_run.induct) (auto intro: drv_step_inv)

section \<open>Simulation by the specified log\<close>

text \<open>The bytes a run wrote successfully, in order.\<close>

fun written :: "drv_event list \<Rightarrow> bytes list" where
  "written [] = []"
| "written (Ev_Write fd ubuf r # evs) = (if r < 0 then written evs else ubuf # written evs)"
| "written (_ # evs) = written evs"

lemma written_append [simp]: "written (evs @ evs') = written evs @ written evs'"
  by (induction evs rule: written.induct) simp_all

definition out_of_memory :: "drv_event \<Rightarrow> bool" where
  "out_of_memory ev = (case ev of Ev_Write _ _ r \<Rightarrow> r = - ENOMEM | _ \<Rightarrow> False)"

text \<open>Reads and seeks do not change the log.\<close>

lemma drv_step_kernel:
  assumes "drv_step ioc fsl s ev s'" "sys_inv s" "written [ev] = []" "\<And>fd u r. ev \<noteq> Ev_Write fd u r"
  shows "kern s' = kern s"
  using assms(1)
proof cases
  case (step_read fd filp env cnt r p bs k')
  with assms(2) show ?thesis by (auto simp: sys_inv_def dest: aesd_read_keeps)
next
  case (step_llseek fd filp env off whence r filp' k')
  with assms(2) show ?thesis by (auto simp: sys_inv_def dest: aesd_llseek_keeps)
next
  case (step_ioctl fd filp env cmd r filp' k')
  with assms(2) show ?thesis by (auto simp: sys_inv_def dest: aesd_ioctl_keeps)
qed (use assms(4) in auto)

text \<open>A write step, with and without an error, as a step of the log.\<close>

lemma aesd_write_log:
  assumes "driver_inv k" "pend_ok k" "private_data filp = The_Aesd_Device" "write_args_ok env k ubuf cnt"
    "aesd_write env k filp ubuf cnt fpos = Inr (r, p, k')" "r \<noteq> - ENOMEM"
  shows "pend_ok k'" "abs_log k' = (if r < 0 then abs_log k else log_write (abs_log k) ubuf)"
proof -
  have "pend_ok k' \<and> abs_log k' = (if r < 0 then abs_log k else log_write (abs_log k) ubuf)"
  proof (cases "lock_rc env = 0 \<and> alloc_ret env \<noteq> NULL \<and> not_copied env = 0")
    case True
    then obtain k1 where "aesd_write env k filp ubuf cnt fpos = Inr (int (length ubuf), fpos + cnt, k1)"
      "pend_ok k1" "abs_log k1 = log_write (abs_log k) ubuf"
      using aesd_write_success [OF assms(1,3) _ assms(4), of fpos] assms(2) by metis
    with assms(5) show ?thesis by simp
  next
    case False
    then obtain k1 where k1: "aesd_write env k filp ubuf cnt fpos =
        Inr (if lock_rc env \<noteq> 0 then - ERESTARTSYS else if alloc_ret env = NULL then - ENOMEM else - EFAULT, fpos, k1)"
      "lock_rc env \<noteq> 0 \<or> alloc_ret env \<noteq> NULL \<Longrightarrow> abs_log k1 = abs_log k \<and> pend_ok k1"
      using aesd_write_failure [OF assms(1,3,4), of fpos] assms(2) by metis
    with assms(5,6) show ?thesis by (simp split: if_splits)
  qed
  then show "pend_ok k'" "abs_log k' = (if r < 0 then abs_log k else log_write (abs_log k) ubuf)" by simp_all
qed

lemma drv_step_log:
  assumes "drv_step ioc fsl s ev s'" "sys_inv s" "pend_ok (kern s)" "\<not> out_of_memory ev"
  shows "pend_ok (kern s') \<and> abs_log (kern s') = foldl log_write (abs_log (kern s)) (written [ev])"
proof (cases "\<exists>fd u r. ev = Ev_Write fd u r")
  case True
  then obtain fd u r where ev: "ev = Ev_Write fd u r" by blast
  from assms(1) [unfolded ev] show ?thesis
  proof (rule write_stepE)
    fix filp env cnt p k'
    assume st: "s' = s\<lparr>kern := k', files := (files s)(fd \<mapsto> filp\<lparr>f_pos := p\<rparr>)\<rparr>" "files s fd = Some filp"
      "write_args_ok env (kern s) u cnt" "aesd_write env (kern s) filp u cnt (f_pos filp) = Inr (r, p, k')"
    moreover from assms(2) st(2) have "driver_inv (kern s)" "private_data filp = The_Aesd_Device"
      by (auto simp: sys_inv_def)
    moreover have "r \<noteq> - ENOMEM" using assms(4) ev by (simp add: out_of_memory_def)
    ultimately show ?thesis
      using aesd_write_log [OF _ assms(3), of filp env u cnt "f_pos filp" r p k'] ev by simp
  qed
next
  case False
  then have "written [ev] = []" by (cases ev) auto
  with False drv_step_kernel [OF assms(1,2)] assms(3) show ?thesis by simp
qed

lemma drv_run_log:
  assumes "drv_run ioc fsl s evs s'" "fixed_size_llseek_ok fsl" "sys_inv s" "pend_ok (kern s)"
    "\<forall>ev \<in> set evs. \<not> out_of_memory ev"
  shows "sys_inv s' \<and> pend_ok (kern s') \<and> abs_log (kern s') = foldl log_write (abs_log (kern s)) (written evs)"
  using assms
proof (induction rule: drv_run.induct)
  case (run_nil s)
  then show ?case by simp
next
  case (run_snoc s evs s' ev s'')
  then have "sys_inv s'" "pend_ok (kern s')"
    "abs_log (kern s') = foldl log_write (abs_log (kern s)) (written evs)" by simp_all
  moreover have "\<not> out_of_memory ev" using run_snoc.prems(4) by simp
  ultimately show ?case
    using drv_step_log [OF run_snoc.hyps(2)] drv_step_inv [OF run_snoc.hyps(2) run_snoc.prems(1)] by simp
qed

end
