(* ===== verification/Sock_Thread.thy ===== *)
theory Sock_Thread
  imports Ctrl_Line Send_File Slist Driver_System
begin

text \<open>
  \<open>sock_thread_func\<close> of \<open>server/sock_thread.c\<close> and \<open>append_to_file\<close> of \<open>server/main.c\<close>: the life
  of one client connection. The thread reads a line, appends it to \<open>OUTPUT_FILE\<close> (or seeks, if it
  is a control line), and sends the file back to the client, the last part under the mutex all
  client threads share. The code's labels are definitions of their own, each label running
  into the next, so that every \<open>goto\<close> is a call.

  What the C library and the kernel return is a field of \<open>thread_env\<close>. The file behind
  \<open>OUTPUT_FILE\<close> is a record of four operations on an abstract state (\<open>out_file\<close>): write, flush,
  seek by \<open>ioctl\<close>, read to the end. A stream is a \<open>FILE\<close> object of the thread: what \<open>fwrite\<close> keeps in its
  buffer reaches the file when \<open>fclose\<close> flushes it. The variable \<open>file\<close> names the stream opened last;
  a stream it no longer names stays open. The contract of the file is the locale \<open>log_file\<close>, in
  which the thread's behaviour is proved; the character device is shown to meet that contract
  in the theory of the whole system.
\<close>

section \<open>Environment and state\<close>

record 'd out_file =
  of_write :: "bytes \<Rightarrow> 'd \<Rightarrow> fault + (nat \<times> bytes \<times> 'd)"
    \<comment> \<open>\<open>fwrite\<close>: the bytes taken, those of them that stay in the buffer, the new state of the file\<close>
  of_flush :: "bytes \<Rightarrow> 'd \<Rightarrow> fault + (int \<times> 'd)"
    \<comment> \<open>\<open>fclose\<close> writes what is in the buffer: \<open>errno\<close> or 0, new state\<close>
  of_seek :: "aesd_seekto \<Rightarrow> 'd \<Rightarrow> fault + (int \<times> u64)"
    \<comment> \<open>\<open>ioctl\<close> on a newly opened file: its result and the position of the file\<close>
  of_contents :: "u64 \<Rightarrow> 'd \<Rightarrow> bytes option"
    \<comment> \<open>what \<open>getline\<close> obtains from that position to the end; \<open>None\<close> if it never ends\<close>

text \<open>\<open>fwrite\<close> to a new stream and \<open>fclose\<close>, together: bytes taken, \<open>errno\<close> of the flush, new state.\<close>

definition of_append :: "'d out_file \<Rightarrow> bytes \<Rightarrow> 'd \<Rightarrow> fault + (nat \<times> int \<times> 'd)" where
  "of_append api l d = ebind (of_write api l d) (\<lambda>(w, rest, d1).
     if rest = [] then Inr (w, 0, d1) else ebind (of_flush api rest d1) (\<lambda>(e, d2). Inr (w, e, d2)))"

record thread_env =
  use_char_device :: bool     \<comment> \<open>the build: is \<open>USE_AESD_CHAR_DEVICE\<close> defined?\<close>
  malloc_ok :: bool
  realloc_ok :: "nat \<Rightarrow> bool"
  uninit :: "nat \<Rightarrow> char"
  client :: socket
  errno_readline :: int
  fopen_a_ok :: bool
  errno_fopen_a :: int
  lock_ret :: int
  errno_append :: int
  fclose_a_ret :: int         \<comment> \<open>of the \<open>fclose\<close> after appending, apart from the flush\<close>
  errno_fclose_a :: int
  fopen_r_ok :: bool
  errno_fopen_r :: int
  client_sends :: "send_event list"
  errno_send :: int
  unlock_ret :: int
  fclose_ret :: int
  errno_fclose :: int

datatype file_stream = Append_Stream bytes | Read_Stream | Closed_Stream

record 'd thread_state =
  t_args :: aesd_thread_args
  t_dev :: 'd
  t_sent :: bytes              \<comment> \<open>what the client has received\<close>
  t_file :: "nat option"       \<comment> \<open>the variable \<open>file\<close>: the number of a stream, or \<open>NULL\<close>\<close>
  t_streams :: "file_stream list"   \<comment> \<open>the streams this thread has opened\<close>
  line_live :: bool            \<comment> \<open>\<open>line\<close> is allocated\<close>
  sock_open :: bool
  mtx_held :: bool             \<comment> \<open>this thread holds the mutex\<close>

text \<open>\<open>file = fopen(...)\<close>\<close>

definition open_stream :: "file_stream \<Rightarrow> 'd thread_state \<Rightarrow> 'd thread_state" where
  "open_stream f s = s\<lparr>t_file := Some (length (t_streams s)), t_streams := t_streams s @ [f]\<rparr>"

definition cur_stream :: "'d thread_state \<Rightarrow> fault + (nat \<times> file_stream)" where
  "cur_stream s =
     (case t_file s of None \<Rightarrow> Inl Null_Deref
      | Some i \<Rightarrow> if i < length (t_streams s) \<and> t_streams s ! i \<noteq> Closed_Stream then Inr (i, t_streams s ! i) else Inl Dangling)"

text \<open>\<open>fclose(file)\<close>: the error of the flush, or 0.\<close>

definition fclose :: "'d out_file \<Rightarrow> 'd thread_state \<Rightarrow> fault + (int \<times> 'd thread_state)" where
  "fclose api s = ebind (cur_stream s) (\<lambda>(i, f).
     let s1 = s\<lparr>t_streams := (t_streams s)[i := Closed_Stream]\<rparr> in
     case f of
       Append_Stream buf \<Rightarrow>
         if buf = [] then Inr (0, s1) else ebind (of_flush api buf (t_dev s)) (\<lambda>(e, d). Inr (e, s1\<lparr>t_dev := d\<rparr>))
     | _ \<Rightarrow> Inr (0, s1))"

definition set_error :: "int \<Rightarrow> 'd thread_state \<Rightarrow> 'd thread_state" where
  "set_error e s = s\<lparr>t_args := (t_args s)\<lparr>last_error := e\<rparr>\<rparr>"

text \<open>``Update \<open>last_error\<close> only if no prior error.''\<close>

definition note_error :: "int \<Rightarrow> 'd thread_state \<Rightarrow> 'd thread_state" where
  "note_error e s = (if last_error (t_args s) = 0 then set_error e s else s)"

section \<open>The code\<close>

text \<open>
  \<open>append_to_file\<close>: the statement \<open>false;\<close> on a short write has no effect, the function always
  returns true. Writing to a stream that is open for reading takes no byte.
\<close>

definition append_to_file :: "'d out_file \<Rightarrow> bytes \<Rightarrow> nat \<Rightarrow> 'd thread_state \<Rightarrow> fault + (bool \<times> 'd thread_state)" where
  "append_to_file api line line_size s =
     (if length line < line_size then Inl Out_Of_Bounds
      else ebind (cur_stream s) (\<lambda>(i, f).
        ebind (case f of
                 Append_Stream buf \<Rightarrow> ebind (of_write api (take line_size line) (t_dev s)) (\<lambda>(w, rest, d).
                   Inr (w, s\<lparr>t_dev := d, t_streams := (t_streams s)[i := Append_Stream (buf @ rest)]\<rparr>))
               | _ \<Rightarrow> Inr (0, s)) (\<lambda>(bytes_written, s1).
          Inr (if bytes_written < line_size then (let _ = False in True) else True, s1))))"

text \<open>\<open>fclose\<close> with its error noted, as the thread does it twice.\<close>

definition close_file :: "'d out_file \<Rightarrow> int \<Rightarrow> int \<Rightarrow> 'd thread_state \<Rightarrow> fault + 'd thread_state" where
  "close_file api rt err s = ebind (fclose api s) (\<lambda>(e, s1).
     Inr (if e \<noteq> 0 then note_error e s1 else if rt \<noteq> 0 then note_error err s1 else s1))"

definition err_readline_from_socket :: "'d thread_state \<Rightarrow> 'd thread_state" where
  "err_readline_from_socket s = s\<lparr>sock_open := False, t_args := (t_args s)\<lparr>finished := True\<rparr>\<rparr>"

definition err_fopen_a :: "'d thread_state \<Rightarrow> 'd thread_state" where
  "err_fopen_a s = err_readline_from_socket (s\<lparr>line_live := False\<rparr>)"

definition err_mutex_lock :: "thread_env \<Rightarrow> 'd out_file \<Rightarrow> 'd thread_state \<Rightarrow> fault + 'd thread_state" where
  "err_mutex_lock env api s =
     ebind (close_file api (fclose_ret env) (errno_fclose env) s) (\<lambda>s1. Inr (err_fopen_a s1))"

text \<open>The labels \<open>err_ioctl\<close>, \<open>err_fopen_r\<close> and \<open>err_append_to_file\<close>.\<close>

definition err_append_to_file :: "thread_env \<Rightarrow> 'd out_file \<Rightarrow> 'd thread_state \<Rightarrow> fault + 'd thread_state" where
  "err_append_to_file env api s =
     (let rt = unlock_ret env;
          s1 = s\<lparr>mtx_held := (rt \<noteq> 0)\<rparr>
      in err_mutex_lock env api (if rt \<noteq> 0 then note_error rt s1 else s1))"

text \<open>From \<open>fopen(OUTPUT_FILE, "r")\<close> to the labels.\<close>

definition echo_file ::
  "thread_env \<Rightarrow> 'd out_file \<Rightarrow> bool \<Rightarrow> aesd_seekto \<Rightarrow> 'd thread_state \<Rightarrow> (fault + 'd thread_state) option" where
  "echo_file env api is_ctrl_cmd seek_to s =
     (if \<not> fopen_r_ok env then
        Some (err_append_to_file env api (set_error (errno_fopen_r env) (s\<lparr>t_file := None\<rparr>)))
      else
        (let s1 = open_stream Read_Stream s in
         case (if is_ctrl_cmd then of_seek api seek_to (t_dev s1) else Inr (0, 0)) of
           Inl e \<Rightarrow> Some (Inl e)
         | Inr (rt, pos) \<Rightarrow>
             if rt \<noteq> 0 then Some (err_append_to_file env api (set_error rt s1))
             else
               (case of_contents api pos (t_dev s1) of None \<Rightarrow> None
                | Some contents \<Rightarrow>
                    (case send_file (client_sends env) contents (errno_send env) of None \<Rightarrow> None
                     | Some (Inl e) \<Rightarrow> Some (Inl e)
                     | Some (Inr (ok, sent)) \<Rightarrow>
                         (let s2 = s1\<lparr>t_sent := t_sent s1 @ sent\<rparr>
                          in Some (err_append_to_file env api (if ok then s2 else set_error (errno_send env) s2)))))))"

text \<open>Everything under the mutex.\<close>

definition locked_part ::
  "thread_env \<Rightarrow> 'd out_file \<Rightarrow> bool \<Rightarrow> aesd_seekto \<Rightarrow> bytes \<Rightarrow> nat \<Rightarrow> 'd thread_state \<Rightarrow>
     (fault + 'd thread_state) option" where
  "locked_part env api is_ctrl_cmd seek_to line line_size s =
     (if is_ctrl_cmd then echo_file env api True seek_to s
      else case append_to_file api line line_size s of
        Inl e \<Rightarrow> Some (Inl e)
      | Inr (ok, s1) \<Rightarrow>
          if \<not> ok then Some (err_append_to_file env api (set_error (errno_append env) s1))
          else
            (case close_file api (fclose_a_ret env) (errno_fclose_a env) s1 of
               Inl e \<Rightarrow> Some (Inl e)
             | Inr s2 \<Rightarrow> echo_file env api False seek_to s2))"

text \<open>Control lines exist in the build with the character device only.\<close>

definition check_ctrl_cmd :: "thread_env \<Rightarrow> bytes \<Rightarrow> nat \<Rightarrow> fault + (bool \<times> bytes \<times> aesd_seekto)" where
  "check_ctrl_cmd env line line_size =
     (let seek_to = \<lparr>write_cmd = 0, write_cmd_offset = 0\<rparr>
      in if use_char_device env then parse_ctrl_line line line_size seek_to else Inr (False, line, seek_to))"

definition sock_thread_func ::
  "thread_env \<Rightarrow> 'd out_file \<Rightarrow> aesd_thread_args \<Rightarrow> 'd \<Rightarrow> (fault + 'd thread_state) option" where
  "sock_thread_func env api args d =
     (let s0 = \<lparr>t_args = args, t_dev = d, t_sent = [], t_file = None, t_streams = [], line_live = False, sock_open = True,
                mtx_held = False\<rparr>
      in case readline_from_socket (malloc_ok env) (realloc_ok env) (uninit env) (client env) of
           Inl e \<Rightarrow> Some (Inl e)
         | Inr None \<Rightarrow> Some (Inr (err_readline_from_socket (set_error (errno_readline env) s0)))
         | Inr (Some (line, line_size)) \<Rightarrow>
             (case check_ctrl_cmd env line line_size of
                Inl e \<Rightarrow> Some (Inl e)
              | Inr (is_ctrl_cmd, line', seek_to) \<Rightarrow>
                  (let s1 = s0\<lparr>line_live := True\<rparr> in
                   if \<not> is_ctrl_cmd \<and> \<not> fopen_a_ok env then
                     Some (Inr (err_fopen_a (set_error (errno_fopen_a env) s1)))
                   else
                     (let s2 = (if is_ctrl_cmd then s1 else open_stream (Append_Stream []) s1);
                          s3 = set_error (lock_ret env) s2
                      in if lock_ret env \<noteq> 0 then Some (err_mutex_lock env api s3)
                         else locked_part env api is_ctrl_cmd seek_to line' line_size
                                (s3\<lparr>mtx_held := True\<rparr>)))))"

section \<open>Resources\<close>

definition all_closed :: "file_stream list \<Rightarrow> bool" where
  "all_closed fs \<longleftrightarrow> (\<forall>f \<in> set fs. f = Closed_Stream)"

lemma all_closed_simps [simp]:
  "all_closed []" "all_closed (xs @ ys) \<longleftrightarrow> all_closed xs \<and> all_closed ys" "all_closed (f # fs) \<longleftrightarrow> f = Closed_Stream \<and> all_closed fs"
  by (auto simp: all_closed_def)

text \<open>What a thread that has ended must have given back.\<close>

definition released :: "'d thread_state \<Rightarrow> bool" where
  "released s \<longleftrightarrow> \<not> line_live s \<and> \<not> sock_open s \<and> all_closed (t_streams s) \<and> finished (t_args s)"

text \<open>Every stream is closed but the one \<open>file\<close> names, which has nothing in its buffer.\<close>

definition tidy :: "'d thread_state \<Rightarrow> bool" where
  "tidy s \<longleftrightarrow> t_file s = None \<and> all_closed (t_streams s) \<or>
     (\<exists>fs f. t_file s = Some (length fs) \<and> t_streams s = fs @ [f] \<and> all_closed fs \<and> f \<in> {Append_Stream [], Read_Stream})"

lemmas label_defs = err_readline_from_socket_def err_fopen_a_def err_mutex_lock_def err_append_to_file_def
  set_error_def note_error_def close_file_def fclose_def cur_stream_def

lemma set_error_fields [simp]:
  "line_live (set_error e s) = line_live s" "sock_open (set_error e s) = sock_open s"
  "t_file (set_error e s) = t_file s" "t_streams (set_error e s) = t_streams s" "mtx_held (set_error e s) = mtx_held s"
  "t_dev (set_error e s) = t_dev s" "t_sent (set_error e s) = t_sent s" "last_error (t_args (set_error e s)) = e"
  by (simp_all add: set_error_def)

lemma note_error_fields [simp]:
  "line_live (note_error e s) = line_live s" "sock_open (note_error e s) = sock_open s"
  "t_file (note_error e s) = t_file s" "t_streams (note_error e s) = t_streams s" "mtx_held (note_error e s) = mtx_held s"
  "t_dev (note_error e s) = t_dev s" "t_sent (note_error e s) = t_sent s"
  by (simp_all add: note_error_def)

lemma open_stream_fields [simp]:
  "line_live (open_stream f s) = line_live s" "sock_open (open_stream f s) = sock_open s" "mtx_held (open_stream f s) = mtx_held s"
  "t_dev (open_stream f s) = t_dev s" "t_sent (open_stream f s) = t_sent s" "t_args (open_stream f s) = t_args s"
  "t_file (open_stream f s) = Some (length (t_streams s))" "t_streams (open_stream f s) = t_streams s @ [f]"
  by (simp_all add: open_stream_def)

lemma tidy_cong: "t_file s = t_file s' \<Longrightarrow> t_streams s = t_streams s' \<Longrightarrow> tidy s \<longleftrightarrow> tidy s'"
  by (simp add: tidy_def)

lemma tidy_simps [simp]:
  "tidy (set_error e s) = tidy s" "tidy (note_error e s) = tidy s" "tidy (s\<lparr>mtx_held := h\<rparr>) = tidy s" "tidy (s\<lparr>t_sent := x\<rparr>) = tidy s"
  "tidy (s\<lparr>line_live := l\<rparr>) = tidy s" "tidy (s\<lparr>t_file := None\<rparr>) = all_closed (t_streams s)"
  "f \<in> {Append_Stream [], Read_Stream} \<Longrightarrow> all_closed (t_streams s) \<Longrightarrow> tidy (open_stream f s)"
  by (auto intro!: tidy_cong) (auto simp: tidy_def)

lemma err_fopen_a_released: "all_closed (t_streams s) \<Longrightarrow> released (err_fopen_a s)"
  by (simp add: released_def err_readline_from_socket_def err_fopen_a_def)

lemma err_fopen_a_fields [simp]:
  "mtx_held (err_fopen_a s) = mtx_held s" "t_dev (err_fopen_a s) = t_dev s" "t_sent (err_fopen_a s) = t_sent s"
  "last_error (t_args (err_fopen_a s)) = last_error (t_args s)"
  by (simp_all add: err_fopen_a_def err_readline_from_socket_def)

lemma cur_stream_InrD: "cur_stream s = Inr (i, f) \<Longrightarrow> t_file s = Some i \<and> i < length (t_streams s) \<and> t_streams s ! i = f"
  by (auto simp: cur_stream_def split: option.splits if_splits)

lemma cur_stream_dev [simp]: "cur_stream (s\<lparr>t_dev := d\<rparr>) = cur_stream s"
  by (simp add: cur_stream_def split: option.split)

lemma fclose_InrD:
  assumes "fclose api s = Inr (e, s')"
  shows "\<exists>i d. t_file s = Some i \<and> i < length (t_streams s) \<and> s' = s\<lparr>t_dev := d, t_streams := (t_streams s)[i := Closed_Stream]\<rparr> \<and>
    ((\<forall>buf. t_streams s ! i = Append_Stream buf \<longrightarrow> buf = []) \<longrightarrow> d = t_dev s)"
proof -
  from assms obtain i f where f: "cur_stream s = Inr (i, f)" by (auto simp: fclose_def ebind_eq_Inr)
  note i = cur_stream_InrD [OF f]
  have c: "s\<lparr>t_streams := fs, t_dev := d\<rparr> = s\<lparr>t_dev := d, t_streams := fs\<rparr>" for fs d by simp
  show ?thesis
  proof (cases f)
    case (Append_Stream buf)
    with assms f i show ?thesis by (cases "buf = []") (auto simp: fclose_def Let_def ebind_eq_Inr c)
  qed (use assms f i in \<open>auto simp: fclose_def Let_def intro!: exI [of _ "t_dev s"]\<close>)
qed

lemma append_to_file_InrD:
  assumes "append_to_file api line n s = Inr (ok, s')"
  shows "ok \<and> (\<exists>i d f. t_file s = Some i \<and> i < length (t_streams s) \<and> s' = s\<lparr>t_dev := d, t_streams := (t_streams s)[i := f]\<rparr>)"
proof -
  from assms obtain i f where f: "cur_stream s = Inr (i, f)" by (auto simp: append_to_file_def ebind_eq_Inr split: if_splits)
  note i = cur_stream_InrD [OF f]
  then have same: "(t_streams s)[i := f] = t_streams s" by (metis list_update_id)
  show ?thesis
  proof (cases f)
    case (Append_Stream buf)
    with assms f i show ?thesis by (fastforce simp: append_to_file_def ebind_eq_Inr split: if_splits)
  qed (use assms f i same in \<open>auto simp: append_to_file_def ebind_eq_Inr split: if_splits
      intro!: exI [of _ "t_dev s"] exI [of _ "t_streams s ! i"]\<close>)
qed

text \<open>\<open>fclose\<close> on a tidy state faults on the null pointer only, and then leaves no stream open.\<close>

lemma fclose_tidy:
  assumes "tidy s"
  shows "t_file s = None \<and> fclose api s = Inl Null_Deref \<or>
    (\<exists>fs. t_file s \<noteq> None \<and> fclose api s = Inr (0, s\<lparr>t_streams := fs\<rparr>) \<and> all_closed fs)"
  using assms by (auto simp: tidy_def fclose_def cur_stream_def split: file_stream.splits)

lemma err_mutex_lock_tidy:
  assumes "tidy s"
  shows "t_file s = None \<and> err_mutex_lock env api s = Inl Null_Deref \<or>
    (\<exists>s'. t_file s \<noteq> None \<and> err_mutex_lock env api s = Inr s' \<and> released s' \<and> mtx_held s' = mtx_held s \<and> t_dev s' = t_dev s \<and>
      t_sent s' = t_sent s \<and> (fclose_ret env = 0 \<longrightarrow> last_error (t_args s') = last_error (t_args s)))"
  using fclose_tidy [OF assms, of api]
  by (cases "fclose_ret env = 0") (auto simp: err_mutex_lock_def close_file_def intro!: err_fopen_a_released)

lemma err_append_tidy:
  assumes "tidy s"
  shows "t_file s = None \<and> err_append_to_file env api s = Inl Null_Deref \<or>
    (\<exists>s'. t_file s \<noteq> None \<and> err_append_to_file env api s = Inr s' \<and> released s' \<and> mtx_held s' = (unlock_ret env \<noteq> 0) \<and>
      t_dev s' = t_dev s \<and> t_sent s' = t_sent s \<and>
      (fclose_ret env = 0 \<longrightarrow> unlock_ret env = 0 \<longrightarrow> last_error (t_args s') = last_error (t_args s)))"
  using err_mutex_lock_tidy [where env = env and api = api,
      of "if unlock_ret env \<noteq> 0 then note_error (unlock_ret env) (s\<lparr>mtx_held := True\<rparr>) else s\<lparr>mtx_held := False\<rparr>"] assms
  by (auto simp: err_append_to_file_def Let_def split: if_splits)

text \<open>
  How a part of the thread ends: it has released everything, or it faults; it never touches a
  stream that is closed, and \<open>b\<close> is the only way to the null pointer, unless the file itself faults.
\<close>

definition faultless :: "'d out_file \<Rightarrow> bool" where
  "faultless api \<longleftrightarrow> (\<forall>l d e. of_write api l d \<noteq> Inl e) \<and> (\<forall>l d e. of_flush api l d \<noteq> Inl e) \<and> (\<forall>sk d e. of_seek api sk d \<noteq> Inl e)"

definition ends_well :: "thread_env \<Rightarrow> 'd out_file \<Rightarrow> bool \<Rightarrow> (fault + 'd thread_state) option \<Rightarrow> bool" where
  "ends_well env api b r \<longleftrightarrow> (\<forall>s. r = Some (Inr s) \<longrightarrow> released s \<and> (mtx_held s \<longrightarrow> unlock_ret env \<noteq> 0)) \<and>
     (faultless api \<longrightarrow> r \<noteq> Some (Inl Dangling) \<and> (r = Some (Inl Null_Deref) \<longrightarrow> b))"

lemma ends_well_simps [simp]:
  "ends_well env api b None" "ends_well env api b (Some (Inl Out_Of_Bounds))" "ends_well env api b (Some (Inl Int_Overflow))"
  "ends_well env api b (Some (Inl Null_Deref)) \<longleftrightarrow> (faultless api \<longrightarrow> b)"
  "ends_well env api b (Some (Inr s)) \<longleftrightarrow> released s \<and> (mtx_held s \<longrightarrow> unlock_ret env \<noteq> 0)"
  by (auto simp: ends_well_def)

lemma ends_well_faulty: "\<not> faultless api \<Longrightarrow> ends_well env api b (Some (Inl e))"
  by (simp add: ends_well_def)

lemma err_append_ends:
  assumes "tidy s" "t_file s = None \<Longrightarrow> b"
  shows "ends_well env api b (Some (err_append_to_file env api s))"
  using err_append_tidy [OF assms(1), of env api] assms(2) by auto

lemma send_line_fault: "send_line evs line bl off sent = Some (Inl e) \<Longrightarrow> e = Out_Of_Bounds"
proof (induction evs arbitrary: bl off sent)
  case Nil
  then show ?case by (simp add: send_line.simps split: if_splits)
next
  case (Cons ev evs)
  from Cons.prems Cons.IH show ?case by (simp add: send_line.simps [of "ev # evs"] Let_def split: if_splits)
qed

lemma send_file_fault: "send_file evs contents err = Some (Inl e) \<Longrightarrow> e = Out_Of_Bounds"
proof -
  have "e = Out_Of_Bounds" if "send_lines evs ls sent = Some (Inl e)" for ls sent
    using that by (induction ls arbitrary: evs sent) (auto dest: send_line_fault split: option.splits sum.splits prod.splits)
  then show "send_file evs contents err = Some (Inl e) \<Longrightarrow> e = Out_Of_Bounds"
    unfolding send_file_def by (cases "send_lines evs (getlines contents) []"; cases "the (send_lines evs (getlines contents) [])") auto
qed

lemma echo_file_ends:
  assumes "all_closed (t_streams s)" "\<not> fopen_r_ok env \<Longrightarrow> b"
  shows "ends_well env api b (echo_file env api c sk s)"
proof (cases "fopen_r_ok env")
  case False
  with assms show ?thesis by (auto simp: echo_file_def intro!: err_append_ends)
next
  case True
  let ?s = "open_stream Read_Stream s"
  have ok: "ends_well env api b (Some (err_append_to_file env api s'))" if "t_file s' = t_file ?s" "t_streams s' = t_streams ?s" for s'
    using that tidy_cong [OF that] assms(1) by (intro err_append_ends) auto
  show ?thesis
  proof (cases "if c then of_seek api sk (t_dev ?s) else Inr (0, 0)")
    case (Inl e)
    then have "\<not> faultless api" by (auto simp: faultless_def split: if_splits)
    with Inl True show ?thesis by (simp add: echo_file_def Let_def ends_well_faulty)
  next
    case (Inr r)
    then show ?thesis
      using True ok by (cases r) (auto simp: echo_file_def Let_def dest!: send_file_fault split: option.split sum.split prod.split)
  qed
qed

text \<open>Appending and closing: the stream the line was written to is closed again.\<close>

definition appends :: "'d thread_state \<Rightarrow> bool" where
  "appends s \<longleftrightarrow> (\<exists>fs. t_file s = Some (length fs) \<and> t_streams s = fs @ [Append_Stream []] \<and> all_closed fs)"

lemma append_to_file_spec:
  assumes "appends s"
  shows "append_to_file api line n s = (if length line < n then Inl Out_Of_Bounds
    else ebind (of_write api (take n line) (t_dev s)) (\<lambda>(w, rest, d).
      Inr (True, s\<lparr>t_dev := d, t_streams := butlast (t_streams s) @ [Append_Stream rest]\<rparr>)))"
  using assms by (auto simp: appends_def append_to_file_def cur_stream_def ebind_def split: sum.split)

lemma fclose_append:
  assumes "t_file s = Some (length fs)" "t_streams s = fs @ [Append_Stream buf]"
  shows "fclose api s = (if buf = [] then Inr (0, s\<lparr>t_streams := fs @ [Closed_Stream]\<rparr>)
    else ebind (of_flush api buf (t_dev s)) (\<lambda>(e, d). Inr (e, s\<lparr>t_dev := d, t_streams := fs @ [Closed_Stream]\<rparr>)))"
  using assms by (auto simp: fclose_def cur_stream_def ebind_def split: sum.split)

lemma locked_part_ends:
  assumes "c \<and> all_closed (t_streams s) \<or> \<not> c \<and> appends s" "\<not> fopen_r_ok env \<Longrightarrow> b"
  shows "ends_well env api b (locked_part env api c sk line n s)"
proof (cases c)
  case True
  with assms show ?thesis by (simp add: locked_part_def echo_file_ends)
next
  case False
  with assms obtain fs where fs: "t_file s = Some (length fs)" "t_streams s = fs @ [Append_Stream []]" "all_closed fs" "appends s"
    by (auto simp: appends_def)
  have w: "ends_well env api b (Some (Inl e))" if "of_write api l d = Inl e \<or> of_flush api l d = Inl e" for l d e
    using that by (intro ends_well_faulty) (auto simp: faultless_def)
  show ?thesis
    using False fs assms(2)
    by (auto simp: locked_part_def append_to_file_spec fclose_append close_file_def ebind_def
        intro!: echo_file_ends intro: w split: sum.split if_splits)
qed

text \<open>The paths to \<open>fclose(NULL)\<close>.\<close>

definition closes_null :: "thread_env \<Rightarrow> bool" where
  "closes_null env \<longleftrightarrow> lock_ret env = 0 \<and> \<not> fopen_r_ok env \<or> lock_ret env \<noteq> 0 \<and> use_char_device env"

lemma check_ctrl_cmd_decided:
  assumes "take n line = l" "n = length l" "n \<le> length line"
  shows "\<exists>line' sk. check_ctrl_cmd env line n = Inr (use_char_device env \<and> is_ctrl_line l, line', sk) \<and>
    (\<not> (use_char_device env \<and> is_ctrl_line l) \<longrightarrow> line' = line)"
proof (cases "use_char_device env")
  case True
  let ?sk = "\<lparr>write_cmd = 0, write_cmd_offset = 0\<rparr>"
  obtain b line' sk' where r: "parse_ctrl_line line n ?sk = Inr (b, line', sk')"
    using parse_ctrl_line_no_fault [OF assms(3)] by blast
  with parse_ctrl_line_result [OF assms(3) r] assms(1) True show ?thesis by (auto simp: check_ctrl_cmd_def)
qed (simp add: check_ctrl_cmd_def)

lemma sock_thread_ends: "ends_well env api (closes_null env) (sock_thread_func env api args d)"
proof -
  let ?rd = "readline_from_socket (malloc_ok env) (realloc_ok env) (uninit env) (client env)"
  let ?s0 = "\<lparr>t_args = args, t_dev = d, t_sent = [], t_file = None, t_streams = [], line_live = True, sock_open = True,
    mtx_held = False\<rparr>"
  have safe: "readline_safe ?rd"
    using readline_loop_safe [OF readline_inv_start [of "uninit env"], of "realloc_ok env" "uninit env" "client env"]
    by (simp add: readline_from_socket_def)
  show ?thesis
  proof (cases ?rd)
    case (Inl e)
    with safe show ?thesis by (simp add: sock_thread_func_def Let_def)
  next
    case (Inr r)
    show ?thesis
    proof (cases r)
      case None
      with Inr show ?thesis by (auto simp: sock_thread_func_def Let_def err_readline_from_socket_def released_def)
    next
      case (Some ln)
      obtain line n where ln: "ln = (line, n)" by (cases ln)
      with Inr Some safe have n: "n \<le> length line" by simp
      obtain c line' sk where p: "check_ctrl_cmd env line n = Inr (c, line', sk)" "c \<longrightarrow> use_char_device env"
        using check_ctrl_cmd_decided [OF refl _ n, of env] n by auto
      let ?s = "set_error (lock_ret env) (if c then ?s0 else open_stream (Append_Stream []) ?s0)"
      have "appends ?s \<or> c" by (auto simp: appends_def)
      then have l: "ends_well env api (closes_null env) (locked_part env api c sk line' n (?s\<lparr>mtx_held := True\<rparr>))" if "lock_ret env = 0"
        using that by (intro locked_part_ends) (auto simp: appends_def closes_null_def)
      have m: "ends_well env api (closes_null env) (Some (err_mutex_lock env api ?s))" if "lock_ret env \<noteq> 0"
        using err_mutex_lock_tidy [of ?s env api] that p(2) by (cases c) (auto simp: closes_null_def tidy_def)
      show ?thesis
      proof (cases "\<not> c \<and> \<not> fopen_a_ok env")
        case True
        with Inr Some ln p(1) show ?thesis by (simp add: sock_thread_func_def Let_def err_fopen_a_released)
      next
        case False
        with Inr Some ln p(1) have "sock_thread_func env api args d = (if lock_ret env \<noteq> 0 then Some (err_mutex_lock env api ?s)
            else locked_part env api c sk line' n (?s\<lparr>mtx_held := True\<rparr>))" by (auto simp: sock_thread_func_def Let_def)
        with l m show ?thesis by simp
      qed
    qed
  qed
qed

section \<open>Properties of any output file\<close>

definition ex_tenv :: thread_env where
  "ex_tenv = \<lparr>use_char_device = True, malloc_ok = True, realloc_ok = (\<lambda>_. True), uninit = (\<lambda>_. nul), client = [Recv_Bytes (''y'' @ [newline])],
     errno_readline = 0, fopen_a_ok = True, errno_fopen_a = 0, lock_ret = 0, errno_append = 0, fclose_a_ret = 0, errno_fclose_a = 0, fopen_r_ok = True, errno_fopen_r = 0,
     client_sends = replicate 99 (Send_Up_To 9), errno_send = 0, unlock_ret = 0, fclose_ret = 0, errno_fclose = 0\<rparr>"

definition ex_args :: aesd_thread_args where
  "ex_args = \<lparr>thread_id = 1, mutex = Ptr 0, sock_fd = 5, ip_address = replicate 46 nul, last_error = 0, finished = False,
     sle_next = NULL\<rparr>"

text \<open>
  When \<open>OUTPUT_FILE\<close> cannot be opened for reading, the clean-up passes the null pointer to
  \<open>fclose\<close>: for every client, control line or not, the thread ends in a memory fault and takes
  the server down.
\<close>

theorem fopen_failure_closes_null:
  assumes "readline_from_socket (malloc_ok env) (realloc_ok env) (uninit env) (client env) = Inr (Some (line, n))"
    "of_append api (take n line) d = Inr r" "fopen_a_ok env" "lock_ret env = 0" "\<not> fopen_r_ok env"
  shows "sock_thread_func env api args d = Some (Inl Null_Deref)"
proof -
  have n: "n \<le> length line"
    using readline_loop_safe [OF readline_inv_start [of "uninit env"], of "realloc_ok env" "uninit env" "client env"] assms(1)
    by (auto simp: readline_from_socket_def split: if_splits)
  obtain b line' sk where p: "check_ctrl_cmd env line n = Inr (b, line', sk)" "\<not> b \<longrightarrow> line' = line"
    using check_ctrl_cmd_decided [OF refl _ n, of env] n by auto
  have e: "echo_file env api c sk s = Some (Inl Null_Deref)" for c s
    using assms(5) by (simp add: echo_file_def label_defs Let_def)
  obtain w cerr d' where r: "r = (w, cerr, d')" by (cases r)
  show ?thesis
  proof (cases b)
    case True
    with assms p e show ?thesis by (simp add: sock_thread_func_def locked_part_def Let_def)
  next
    case False
    with p(2) have "line' = line" by simp
    with False assms p e n r show ?thesis
      by (auto simp: sock_thread_func_def locked_part_def append_to_file_spec appends_def open_stream_def fclose_append [where fs = "[]"]
          close_file_def of_append_def ebind_eq_Inr Let_def split: if_splits)
  qed
qed

text \<open>A file that accepts everything and shows it again.\<close>

definition ex_store :: "bytes out_file" where
  "ex_store = \<lparr>of_write = (\<lambda>l d. Inr (length l, l, d)), of_flush = (\<lambda>l d. Inr (0, d @ l)), of_seek = (\<lambda>sk d. Inr (- 1, 0)),
     of_contents = (\<lambda>p d. Some (drop (unat p) d))\<rparr>"

theorem fopen_failure_closes_null_witness:
  "sock_thread_func (ex_tenv\<lparr>fopen_r_ok := False, errno_fopen_r := 2\<rparr>) ex_store ex_args [] = Some (Inl Null_Deref)"
proof -
  let ?env = "ex_tenv\<lparr>fopen_r_ok := False, errno_fopen_r := 2\<rparr>"
  have "stream (client ?env) = (''y'' @ [newline], False)" by (simp add: ex_tenv_def)
  with readline_loop_correct [where realloc_ok = "realloc_ok ?env" and junk = "uninit ?env" and sock = "client ?env",
      OF readline_inv_start]
  obtain line where "readline_from_socket (malloc_ok ?env) (realloc_ok ?env) (uninit ?env) (client ?env) =
      Inr (Some (line, length (first_line (''y'' @ [newline]))))"
    by (auto simp: readline_from_socket_def readline_result_def ex_tenv_def)
  then show ?thesis
    by (rule fopen_failure_closes_null [where r = "(min (length line) (Suc (Suc 0)), 0, take (Suc (Suc 0)) line)"])
      (auto simp: ex_store_def ex_tenv_def of_append_def first_line_def)
qed

section \<open>The contract of the output file\<close>

text \<open>
  \<open>inv\<close> is the invariant of the file's state, \<open>log\<close> the log it holds; \<open>seekable\<close> says when the
  seek request can be trusted, \<open>bound\<close> how long an incomplete command may get.
\<close>

locale log_file =
  fixes api :: "'d out_file"
    and inv :: "'d \<Rightarrow> bool"
    and log :: "'d \<Rightarrow> aesd_log"
    and seekable :: "'d \<Rightarrow> bool"
    and bound :: nat
  assumes append_law: "inv d \<Longrightarrow> l \<noteq> [] \<Longrightarrow> newline \<notin> set (butlast l) \<Longrightarrow> length l < 2 ^ 31 \<Longrightarrow>
      length (pend (log d)) + length l < bound \<Longrightarrow>
      \<exists>d'. of_append api l d = Inr (length l, 0, d') \<and> inv d' \<and> log d' = log_write (log d) l"
    and contents_law: "inv d \<Longrightarrow> of_contents api p d = Some (drop (unat p) (concat (hist (log d))))"
    and seek_law: "inv d \<Longrightarrow> seekable d \<Longrightarrow> of_seek api sk d =
      Inr (case log_seek (hist (log d)) (unat (write_cmd sk)) (unat (write_cmd_offset sk)) of
             None \<Rightarrow> (- 1, 0) | Some p \<Rightarrow> (0, of_nat p))"

definition all_calls_succeed :: "thread_env \<Rightarrow> bool" where
  "all_calls_succeed env \<longleftrightarrow> malloc_ok env \<and> (\<forall>n. realloc_ok env n) \<and> fopen_a_ok env \<and> lock_ret env = 0 \<and>
     fclose_a_ret env = 0 \<and> fopen_r_ok env \<and> errno_send env = 0 \<and> unlock_ret env = 0 \<and> fclose_ret env = 0 \<and> accepting (client_sends env)"

text \<open>The client sends the line \<open>l\<close>: complete, or cut short by closing the connection.\<close>

definition client_line :: "thread_env \<Rightarrow> bytes \<Rightarrow> bool" where
  "client_line env l \<longleftrightarrow> (\<exists>ds err. stream (client env) = (ds, err) \<and> (newline \<in> set ds \<or> \<not> err) \<and>
     length (takeWhile (\<lambda>b. b \<noteq> newline) ds) < 2 ^ 30 \<and> l = first_line ds)"

lemma butlast_first_line: "newline \<notin> set (butlast (first_line ds))"
  by (auto simp: first_line_def butlast_append dest!: set_takeWhileD in_set_butlastD)

lemma length_client_line: "client_line env l \<Longrightarrow> length l < 2 ^ 31"
  by (auto simp: client_line_def first_line_def)

lemma client_line_read:
  assumes "all_calls_succeed env" "client_line env l"
  shows "\<exists>buf. readline_from_socket (malloc_ok env) (realloc_ok env) (uninit env) (client env) = Inr (Some (buf, length l)) \<and>
    length l \<le> length buf \<and> take (length l) buf = l"
proof -
  from assms(2) obtain ds err where d: "stream (client env) = (ds, err)" "newline \<in> set ds \<or> \<not> err"
    "length (takeWhile (\<lambda>b. b \<noteq> newline) ds) < 2 ^ 30" "l = first_line ds"
    by (auto simp: client_line_def)
  have "malloc_ok env" "realloc_ok env = (\<lambda>_. True)" using assms(1) by (auto simp: all_calls_succeed_def)
  with d readline_loop_correct [where realloc_ok = "\<lambda>_. True" and junk = "uninit env" and sock = "client env",
      OF readline_inv_start]
  show ?thesis by (auto simp: readline_result_def readline_from_socket_def)
qed

text \<open>The two ways an error-free run ends.\<close>

lemma echo_file_ok:
  assumes "all_calls_succeed env" "of_contents api pos (t_dev s) = Some bs" "length bs \<le> length (client_sends env)"
    "length bs < 2 ^ 63" "if c then of_seek api sk (t_dev s) = Inr (0, pos) else pos = 0"
    "last_error (t_args s) = 0" "all_closed (t_streams s)"
  shows "\<exists>s'. echo_file env api c sk s = Some (Inr s') \<and> released s' \<and> \<not> mtx_held s' \<and> t_dev s' = t_dev s \<and>
    t_sent s' = t_sent s @ bs \<and> last_error (t_args s') = 0"
proof -
  from assms(1) have e: "fopen_r_ok env" "errno_send env = 0" "unlock_ret env = 0" "fclose_ret env = 0"
    "accepting (client_sends env)" by (simp_all add: all_calls_succeed_def)
  have "send_file (client_sends env) bs 0 = Some (Inr (True, bs))"
    using send_file_complete [OF e(5) assms(3,4), of 0] by simp
  with err_append_tidy [of "(open_stream Read_Stream s)\<lparr>t_sent := t_sent s @ bs\<rparr>" env api] e assms(2,5,6,7) show ?thesis
    by (auto simp: echo_file_def Let_def split: if_splits)
qed

lemma thread_appends_and_echoes:
  assumes env: "all_calls_succeed env" and l: "client_line env l" "\<not> (use_char_device env \<and> is_ctrl_line l)"
    and app: "of_append api l d = Inr (length l, 0, d')" and con: "of_contents api 0 d' = Some bs"
    and room: "length bs \<le> length (client_sends env)" "length bs < 2 ^ 63"
  shows "\<exists>s'. sock_thread_func env api args d = Some (Inr s') \<and> released s' \<and> \<not> mtx_held s' \<and>
    last_error (t_args s') = 0 \<and> t_dev s' = d' \<and> t_sent s' = bs"
proof -
  obtain buf where b: "readline_from_socket (malloc_ok env) (realloc_ok env) (uninit env) (client env) =
      Inr (Some (buf, length l))" "length l \<le> length buf" "take (length l) buf = l"
    using client_line_read [OF env l(1)] by blast
  from check_ctrl_cmd_decided [OF b(3) refl b(2), of env] l(2) obtain sk where
    p: "check_ctrl_cmd env buf (length l) = Inr (False, buf, sk)" by auto
  from env have e: "fopen_a_ok env" "lock_ret env = 0" "fclose_a_ret env = 0" by (simp_all add: all_calls_succeed_def)
  let ?s = "set_error 0 \<lparr>t_args = args, t_dev = d', t_sent = [], t_file = Some 0, t_streams = [Closed_Stream], line_live = True,
              sock_open = True, mtx_held = True\<rparr>"
  have "sock_thread_func env api args d = echo_file env api False sk ?s"
    using b p e app
    by (auto simp: sock_thread_func_def locked_part_def append_to_file_spec appends_def open_stream_def fclose_append [where fs = "[]"]
        close_file_def of_append_def ebind_eq_Inr Let_def set_error_def split: if_splits)
  moreover have "\<exists>s'. echo_file env api False sk ?s = Some (Inr s') \<and> released s' \<and> \<not> mtx_held s' \<and> t_dev s' = t_dev ?s \<and>
    t_sent s' = t_sent ?s @ bs \<and> last_error (t_args s') = 0"
    by (rule echo_file_ok [OF env, where pos = 0]) (use con room in \<open>simp_all\<close>)
  ultimately show ?thesis by auto
qed

lemma ex_tenv_ok: "all_calls_succeed ex_tenv"
  by (simp add: all_calls_succeed_def ex_tenv_def accepting_def)

lemma ex_tenv_line: "client_line ex_tenv (''y'' @ [newline])"
  by (auto simp: client_line_def ex_tenv_def first_line_def)

text \<open>
  C21: However a client thread returns, on every one of its error paths, it has freed its line, closed
  its socket and every stream it opened, the one it appended to and the one it read from, and told the
  main thread that it is finished; it still holds the mutex only if \<open>pthread_mutex_unlock\<close> itself
  failed. It never uses a stream that is closed, and there are two ways in which it passes the null
  pointer to \<open>fclose\<close> instead of returning: the file cannot be opened for reading, or the lock fails for a
  control line (provided the operations of the file itself do not fault).
\<close>

theorem thread_releases_everything:
  assumes "sock_thread_func env api args d = r"
  shows "(\<forall>s'. r = Some (Inr s') \<longrightarrow> \<not> line_live s' \<and> \<not> sock_open s' \<and> (\<forall>f \<in> set (t_streams s'). f = Closed_Stream) \<and>
      finished (t_args s') \<and> (mtx_held s' \<longrightarrow> unlock_ret env \<noteq> 0)) \<and>
    (faultless api \<longrightarrow> r \<noteq> Some (Inl Dangling) \<and>
      (r = Some (Inl Null_Deref) \<longrightarrow> lock_ret env = 0 \<and> \<not> fopen_r_ok env \<or> lock_ret env \<noteq> 0 \<and> use_char_device env))"
  using sock_thread_ends [of env api args d] assms
  by (simp add: ends_well_def released_def all_closed_def closes_null_def)

theorem thread_releases_everything_witness:
  "\<exists>s'. sock_thread_func ex_tenv ex_store ex_args ''x'' = Some (Inr s') \<and> t_dev s' = ''xy'' @ [newline] \<and>
     t_sent s' = ''xy'' @ [newline] \<and> (\<forall>f \<in> set (t_streams s'). f = Closed_Stream) \<and> \<not> line_live s' \<and> \<not> sock_open s' \<and> \<not> mtx_held s'"
proof -
  have "\<not> (use_char_device ex_tenv \<and> is_ctrl_line (''y'' @ [newline]))" by (simp add: is_ctrl_line_def)
  from thread_appends_and_echoes [OF ex_tenv_ok ex_tenv_line this, of ex_store "''x''" "''xy'' @ [newline]" "''xy'' @ [newline]" ex_args]
  obtain s' where s': "sock_thread_func ex_tenv ex_store ex_args ''x'' = Some (Inr s')" "\<not> mtx_held s'" "t_dev s' = ''xy'' @ [newline]"
    "t_sent s' = ''xy'' @ [newline]" by (auto simp: ex_store_def ex_tenv_def of_append_def)
  with thread_releases_everything [OF s'(1)] show ?thesis by blast
qed

context log_file
begin

lemma thread_stores_and_echoes:
  assumes env: "all_calls_succeed env" and l: "client_line env l" "l \<noteq> []" "\<not> is_ctrl_line l" and inv: "inv d"
    and small: "length (pend (log d)) + length l < bound"
    and room: "length (concat (hist (log_write (log d) l))) \<le> length (client_sends env)"
      "length (concat (hist (log_write (log d) l))) < 2 ^ 63"
  shows "\<exists>s'. sock_thread_func env api args d = Some (Inr s') \<and> released s' \<and> \<not> mtx_held s' \<and>
    last_error (t_args s') = 0 \<and> inv (t_dev s') \<and> log (t_dev s') = log_write (log d) l \<and>
    t_sent s' = concat (hist (log (t_dev s')))"
proof -
  have "newline \<notin> set (butlast l)" using l(1) butlast_first_line by (auto simp: client_line_def)
  then obtain d' where d': "of_append api l d = Inr (length l, 0, d')" "inv d'" "log d' = log_write (log d) l"
    using append_law [OF inv l(2)] length_client_line [OF l(1)] small by blast
  from thread_appends_and_echoes [OF env l(1) _ d'(1) contents_law [OF d'(2)], of args] l(3) d' room show ?thesis by auto
qed

lemma thread_seeks_and_echoes:
  assumes env: "all_calls_succeed env" "use_char_device env" and l: "client_line env (ctrl_line x y)" "x < 2 ^ 31" "y < 2 ^ 31"
    and inv: "inv d" "seekable d" and p: "log_seek (hist (log d)) x y = Some p"
    and room: "length (concat (hist (log d))) \<le> length (client_sends env)" "length (concat (hist (log d))) < 2 ^ 63"
  shows "\<exists>s'. sock_thread_func env api args d = Some (Inr s') \<and> released s' \<and> \<not> mtx_held s' \<and>
    last_error (t_args s') = 0 \<and> t_dev s' = d \<and> t_sent s' = drop p (concat (hist (log d)))"
proof -
  let ?l = "ctrl_line x y"
  obtain buf where b: "readline_from_socket (malloc_ok env) (realloc_ok env) (uninit env) (client env) =
      Inr (Some (buf, length ?l))" "take (length ?l) buf = ?l"
    using client_line_read [OF env(1) l(1)] by blast
  have "buf = ?l @ drop (length ?l) buf" using b(2) by (metis append_take_drop_id)
  then obtain line' sk' where
    ps: "parse_ctrl_line buf (length ?l) \<lparr>write_cmd = 0, write_cmd_offset = 0\<rparr> = Inr (True, line', sk')"
      "sk' = \<lparr>write_cmd = of_nat x, write_cmd_offset = of_nat y\<rparr>"
    using parse_ctrl_line_decimal [OF l(2,3)] by metis
  have sk: "unat (write_cmd sk') = x" "unat (write_cmd_offset sk') = y"
    using l(2,3) by (simp_all add: ps(2) unat_of_nat_u32)
  have "p < 2 ^ 64" using log_seek_content(2) [OF p] room(2) by simp
  then have up: "unat (of_nat p :: u64) = p" by (rule unat_of_nat_u64)
  from env(1) have e: "fopen_a_ok env" "lock_ret env = 0" by (simp_all add: all_calls_succeed_def)
  let ?s = "set_error 0 \<lparr>t_args = args, t_dev = d, t_sent = [], t_file = None, t_streams = [], line_live = True, sock_open = True,
              mtx_held = True\<rparr>"
  have "sock_thread_func env api args d = echo_file env api True sk' ?s"
    using b ps(1) e env(2) by (simp add: sock_thread_func_def check_ctrl_cmd_def locked_part_def Let_def set_error_def)
  moreover have "\<exists>s'. echo_file env api True sk' ?s = Some (Inr s') \<and> released s' \<and> \<not> mtx_held s' \<and> t_dev s' = t_dev ?s \<and>
    t_sent s' = t_sent ?s @ drop p (concat (hist (log d))) \<and> last_error (t_args s') = 0"
    by (rule echo_file_ok [OF env(1), where pos = "of_nat p"])
      (use up contents_law [OF inv(1), of "of_nat p"] seek_law [OF inv, of sk'] sk p room in \<open>simp_all\<close>)
  ultimately show ?thesis by auto
qed

end

text \<open>
  Several clients, in the order in which their threads get the mutex: each thread's run is a
  transaction on the file. The result is what each client received.
\<close>

fun serve_all ::
  "'d out_file \<Rightarrow> (thread_env \<times> aesd_thread_args) list \<Rightarrow> 'd \<Rightarrow> (fault + bytes list \<times> 'd) option" where
  "serve_all api [] d = Some (Inr ([], d))"
| "serve_all api ((env, args) # cs) d =
     (case sock_thread_func env api args d of None \<Rightarrow> None
      | Some (Inl e) \<Rightarrow> Some (Inl e)
      | Some (Inr s) \<Rightarrow>
          map_option (\<lambda>r. ebind r (\<lambda>(outs, d'). Inr (t_sent s # outs, d'))) (serve_all api cs (t_dev s)))"

text \<open>A client that sends the complete line \<open>l\<close>, which is not a control line.\<close>

definition plain_client :: "nat \<Rightarrow> thread_env \<Rightarrow> bytes \<Rightarrow> bool" where
  "plain_client n env l \<longleftrightarrow> all_calls_succeed env \<and> client_line env l \<and> l \<noteq> [] \<and> last l = newline \<and> \<not> is_ctrl_line l \<and>
     n \<le> length (client_sends env)"

lemma log_write_complete:
  "pend s = [] \<Longrightarrow> l \<noteq> [] \<Longrightarrow> last l = newline \<Longrightarrow> log_write s l = \<lparr>hist = last_n 10 (hist s @ [l]), pend = []\<rparr>"
  by (simp add: log_write_def)

lemma length_concat_bound: "\<forall>x \<in> set xs. length x \<le> m \<Longrightarrow> length (concat xs) \<le> length xs * m"
  by (induction xs) auto

lemma length_concat_last_n:
  assumes "\<forall>x \<in> set xs. length x \<le> m"
  shows "length (concat (last_n n xs)) \<le> n * m"
proof -
  have "length (concat (last_n n xs)) \<le> length (last_n n xs) * m"
    using assms set_last_n [of n xs] by (intro length_concat_bound) blast
  also have "\<dots> \<le> n * m" by simp
  finally show ?thesis .
qed

lemma upt_Suc_map: "map f [0..<Suc n] = f 0 # map (\<lambda>i. f (Suc i)) [0..<n]"
  by (simp only: upt_conv_Cons map_Suc_upt [symmetric] list.map list.map_comp comp_def)

context log_file
begin

text \<open>One more complete line, with all lines at most \<open>m\<close> bytes long.\<close>

definition short_log :: "nat \<Rightarrow> 'd \<Rightarrow> bool" where
  "short_log m d \<longleftrightarrow> inv d \<and> pend (log d) = [] \<and> (\<forall>x \<in> set (hist (log d)). length x \<le> m)"

lemma plain_client_served:
  assumes "plain_client n env l" "short_log m d" "length l \<le> m" "m < bound" "10 * m \<le> n" "n < 2 ^ 63"
  shows "\<exists>s. sock_thread_func env api args d = Some (Inr s) \<and> short_log m (t_dev s) \<and>
    log (t_dev s) = \<lparr>hist = last_n 10 (hist (log d) @ [l]), pend = []\<rparr> \<and> t_sent s = concat (hist (log (t_dev s)))"
proof -
  let ?h = "hist (log d)"
  from assms(1) have pc: "all_calls_succeed env" "client_line env l" "l \<noteq> []" "last l = newline"
    "\<not> is_ctrl_line l" "n \<le> length (client_sends env)" by (simp_all add: plain_client_def)
  have sl: "inv d" "pend (log d) = []" "\<forall>x \<in> set (?h @ [l]). length x \<le> m"
    using assms(2,3) by (auto simp: short_log_def)
  have lw: "log_write (log d) l = \<lparr>hist = last_n 10 (?h @ [l]), pend = []\<rparr>"
    using sl(2) pc(3,4) by (rule log_write_complete)
  have len: "length (concat (last_n 10 (?h @ [l]))) \<le> n" using length_concat_last_n [OF sl(3), of 10] assms(5) by simp
  have "\<forall>x \<in> set (last_n 10 (?h @ [l])). length x \<le> m"
    using sl(3) set_last_n [of 10 "?h @ [l]"] by (meson subsetD)
  moreover from thread_stores_and_echoes [OF pc(1,2,3,5) sl(1), of args] obtain s where
    "sock_thread_func env api args d = Some (Inr s)" "inv (t_dev s)" "log (t_dev s) = log_write (log d) l"
      "t_sent s = concat (hist (log (t_dev s)))"
    using len assms(3,4,6) pc(6) sl(2) by (force simp: lw)
  ultimately show ?thesis by (auto simp: short_log_def lw)
qed

lemma serve_all_law:
  assumes "list_all2 (\<lambda>c l. plain_client n (fst c) l \<and> length l \<le> m) cs ls" "short_log m d" "m < bound" "10 * m \<le> n" "n < 2 ^ 63"
  shows "\<exists>d'. serve_all api cs d =
      Some (Inr (map (\<lambda>i. concat (last_n 10 (hist (log d) @ take (Suc i) ls))) [0..<length ls], d')) \<and>
    short_log m d' \<and> (if ls = [] then d' = d else log d' = \<lparr>hist = last_n 10 (hist (log d) @ ls), pend = []\<rparr>)"
  using assms(1,2)
proof (induction cs ls arbitrary: d rule: list_all2_induct)
  case Nil
  then show ?case by simp
next
  case (Cons c cs l ls)
  obtain env args where c: "c = (env, args)" by (cases c)
  let ?h = "hist (log d)"
  from Cons.hyps(1) c plain_client_served [OF _ Cons.prems _ assms(3-5), of env l args] obtain s where
    s: "sock_thread_func env api args d = Some (Inr s)" "short_log m (t_dev s)"
      "log (t_dev s) = \<lparr>hist = last_n 10 (?h @ [l]), pend = []\<rparr>" "t_sent s = concat (hist (log (t_dev s)))" by auto
  from Cons.IH [OF s(2)] obtain d' where d': "serve_all api cs (t_dev s) =
      Some (Inr (map (\<lambda>i. concat (last_n 10 ((?h @ [l]) @ take (Suc i) ls))) [0..<length ls], d'))" "short_log m d'"
    "log d' = \<lparr>hist = last_n 10 ((?h @ [l]) @ ls), pend = []\<rparr>"
    unfolding s(3) by (cases "ls = []") (auto simp: s(3) last_n_last_n_append)
  then show ?case
    using s(1,4) c by (intro exI [of _ d']) (simp add: s(3) upt_Suc_map del: upt_Suc)
qed

end

end
