(* ===== verification/Server_Concurrent.thy ===== *)
theory Server_Concurrent
  imports Sock_Thread
begin

text \<open>
  The client threads of the server running concurrently. \<open>sock_thread_func\<close> is cut at its calls
  into single steps (\<open>thread_step\<close>), the position of a thread in the code is a value of
  \<open>code_point\<close>, and the threads share the output file and the mutex \<open>main\<close> initialises
  (\<open>conc_step\<close>, a step of any thread that is not blocked). Reading the file to its end and
  sending it is one step; the exclusion theorem says that no other thread touches the file
  in the meantime.

  Shown: the steps of one thread alone are \<open>sock_thread_func\<close>; at most one thread is between lock
  and unlock, and only that one changes the file; every interleaved run has the effect of running
  the threads one after the other in the order in which they got the mutex; and no
  interleaving deadlocks or goes on for ever.
\<close>

section \<open>The steps of a thread\<close>

datatype code_point =
    Read_Line
  | Open_Append aesd_seekto bytes nat
  | Lock_Mutex bool aesd_seekto bytes nat
  | Append_Line aesd_seekto bytes nat
  | Close_Append aesd_seekto
  | Open_Read bool aesd_seekto
  | Seek_File aesd_seekto
  | Send_Back u64
  | Unlock_Mutex
  | Close_File
  | Free_Line
  | Close_Socket
  | Returned

definition thread_start :: "aesd_thread_args \<Rightarrow> 'd \<Rightarrow> 'd thread_state" where
  "thread_start args d = \<lparr>t_args = args, t_dev = d, t_sent = [], t_file = None, t_streams = [], line_live = False,
     sock_open = True, mtx_held = False\<rparr>"

fun thread_step ::
  "thread_env \<Rightarrow> 'd out_file \<Rightarrow> code_point \<Rightarrow> 'd thread_state \<Rightarrow> (fault + code_point \<times> 'd thread_state) option" where
  "thread_step env api Read_Line s =
     (case readline_from_socket (malloc_ok env) (realloc_ok env) (uninit env) (client env) of
        Inl e \<Rightarrow> Some (Inl e)
      | Inr None \<Rightarrow> Some (Inr (Close_Socket, set_error (errno_readline env) s))
      | Inr (Some (line, line_size)) \<Rightarrow>
          (case check_ctrl_cmd env line line_size of
             Inl e \<Rightarrow> Some (Inl e)
           | Inr (is_ctrl_cmd, line', seek_to) \<Rightarrow>
               Some (Inr (if is_ctrl_cmd then Lock_Mutex True seek_to line' line_size
                          else Open_Append seek_to line' line_size, s\<lparr>line_live := True\<rparr>))))"
| "thread_step env api (Open_Append seek_to line line_size) s =
     Some (Inr (if fopen_a_ok env then (Lock_Mutex False seek_to line line_size, open_stream (Append_Stream []) s)
                else (Free_Line, set_error (errno_fopen_a env) s)))"
| "thread_step env api (Lock_Mutex is_ctrl_cmd seek_to line line_size) s =
     (let s1 = set_error (lock_ret env) s in
      Some (Inr (if lock_ret env \<noteq> 0 then (Close_File, s1)
                 else (if is_ctrl_cmd then Open_Read True seek_to else Append_Line seek_to line line_size,
                       s1\<lparr>mtx_held := True\<rparr>))))"
| "thread_step env api (Append_Line seek_to line line_size) s =
     (case append_to_file api line line_size s of
        Inl e \<Rightarrow> Some (Inl e)
      | Inr (ok, s1) \<Rightarrow> Some (Inr (if \<not> ok then (Unlock_Mutex, set_error (errno_append env) s1) else (Close_Append seek_to, s1))))"
| "thread_step env api (Close_Append seek_to) s =
     Some (ebind (close_file api (fclose_a_ret env) (errno_fclose_a env) s) (\<lambda>s1. Inr (Open_Read False seek_to, s1)))"
| "thread_step env api (Open_Read is_ctrl_cmd seek_to) s =
     Some (Inr (if \<not> fopen_r_ok env then (Unlock_Mutex, set_error (errno_fopen_r env) (s\<lparr>t_file := None\<rparr>))
                else (if is_ctrl_cmd then Seek_File seek_to else Send_Back 0, open_stream Read_Stream s)))"
| "thread_step env api (Seek_File seek_to) s =
     (case of_seek api seek_to (t_dev s) of
        Inl e \<Rightarrow> Some (Inl e)
      | Inr (rt, pos) \<Rightarrow> Some (Inr (if rt \<noteq> 0 then (Unlock_Mutex, set_error rt s) else (Send_Back pos, s))))"
| "thread_step env api (Send_Back pos) s =
     (case of_contents api pos (t_dev s) of None \<Rightarrow> None
      | Some contents \<Rightarrow>
          (case send_file (client_sends env) contents (errno_send env) of None \<Rightarrow> None
           | Some (Inl e) \<Rightarrow> Some (Inl e)
           | Some (Inr (ok, sent)) \<Rightarrow>
               (let s1 = s\<lparr>t_sent := t_sent s @ sent\<rparr>
                in Some (Inr (Unlock_Mutex, if ok then s1 else set_error (errno_send env) s1)))))"
| "thread_step env api Unlock_Mutex s =
     (let rt = unlock_ret env; s1 = s\<lparr>mtx_held := (rt \<noteq> 0)\<rparr>
      in Some (Inr (Close_File, if rt \<noteq> 0 then note_error rt s1 else s1)))"
| "thread_step env api Close_File s =
     Some (ebind (close_file api (fclose_ret env) (errno_fclose env) s) (\<lambda>s1. Inr (Free_Line, s1)))"
| "thread_step env api Free_Line s = Some (Inr (Close_Socket, s\<lparr>line_live := False\<rparr>))"
| "thread_step env api Close_Socket s =
     Some (Inr (Returned, s\<lparr>sock_open := False, t_args := (t_args s)\<lparr>finished := True\<rparr>\<rparr>))"
| "thread_step env api Returned s = Some (Inr (Returned, s))"

text \<open>A thread running alone.\<close>

fun thread_steps ::
  "nat \<Rightarrow> thread_env \<Rightarrow> 'd out_file \<Rightarrow> code_point \<Rightarrow> 'd thread_state \<Rightarrow> (fault + code_point \<times> 'd thread_state) option" where
  "thread_steps 0 env api pc s = Some (Inr (pc, s))"
| "thread_steps (Suc n) env api pc s =
     (case thread_step env api pc s of None \<Rightarrow> None
      | Some (Inl e) \<Rightarrow> Some (Inl e)
      | Some (Inr (pc', s')) \<Rightarrow> thread_steps n env api pc' s')"

section \<open>The threads together\<close>

record 'd conc =
  c_threads :: "(code_point \<times> 'd thread_state) list"
  c_dev :: 'd
  c_owner :: "nat option"             \<comment> \<open>the thread that holds the mutex\<close>
  c_order :: "(nat \<times> 'd) list"        \<comment> \<open>who got the mutex, and what the file was then\<close>

text \<open>\<open>pthread_mutex_lock\<close> waits until the mutex is free, unless it fails.\<close>

fun takes_mutex :: "thread_env \<Rightarrow> code_point \<Rightarrow> bool" where
  "takes_mutex env (Lock_Mutex c sk line n) = (lock_ret env = 0)"
| "takes_mutex env _ = False"

definition next_owner :: "nat \<Rightarrow> 'd thread_state \<Rightarrow> 'd thread_state \<Rightarrow> nat option \<Rightarrow> nat option" where
  "next_owner i s s' ow = (if mtx_held s' = mtx_held s then ow else if mtx_held s' then Some i else None)"

inductive conc_step ::
  "'d out_file \<Rightarrow> (thread_env \<times> aesd_thread_args) list \<Rightarrow> 'd conc \<Rightarrow> 'd conc \<Rightarrow> bool" for api cs where
  thread_moves: "i < length (c_threads c) \<Longrightarrow> c_threads c ! i = (pc, s) \<Longrightarrow> pc \<noteq> Returned \<Longrightarrow>
    (takes_mutex (fst (cs ! i)) pc \<longrightarrow> c_owner c = None) \<Longrightarrow>
    thread_step (fst (cs ! i)) api pc (s\<lparr>t_dev := c_dev c\<rparr>) = Some (Inr (pc', s')) \<Longrightarrow>
    conc_step api cs c \<lparr>c_threads = (c_threads c)[i := (pc', s')], c_dev = t_dev s', c_owner = next_owner i s s' (c_owner c),
       c_order = (if takes_mutex (fst (cs ! i)) pc then c_order c @ [(i, c_dev c)] else c_order c)\<rparr>"

definition conc_start :: "(thread_env \<times> aesd_thread_args) list \<Rightarrow> 'd \<Rightarrow> 'd conc" where
  "conc_start cs d = \<lparr>c_threads = map (\<lambda>(env, args). (Read_Line, thread_start args d)) cs, c_dev = d, c_owner = None,
     c_order = []\<rparr>"

definition all_returned :: "'d conc \<Rightarrow> bool" where
  "all_returned c \<longleftrightarrow> (\<forall>t \<in> set (c_threads c). fst t = Returned)"

text \<open>Between lock and unlock.\<close>

fun in_critical :: "code_point \<Rightarrow> bool" where
  "in_critical (Append_Line _ _ _) = True"
| "in_critical (Close_Append _) = True"
| "in_critical (Open_Read _ _) = True"
| "in_critical (Seek_File _) = True"
| "in_critical (Send_Back _) = True"
| "in_critical Unlock_Mutex = True"
| "in_critical _ = False"

section \<open>One thread\<close>

text \<open>An upper bound of the number of steps a thread has left.\<close>

fun steps_left :: "code_point \<Rightarrow> nat" where
  "steps_left Read_Line = 12"
| "steps_left (Open_Append _ _ _) = 11"
| "steps_left (Lock_Mutex _ _ _ _) = 10"
| "steps_left (Append_Line _ _ _) = 9"
| "steps_left (Close_Append _) = 8"
| "steps_left (Open_Read _ _) = 7"
| "steps_left (Seek_File _) = 6"
| "steps_left (Send_Back _) = 5"
| "steps_left Unlock_Mutex = 4"
| "steps_left Close_File = 3"
| "steps_left Free_Line = 2"
| "steps_left Close_Socket = 1"
| "steps_left Returned = 0"

lemma steps_left_0 [simp]: "steps_left pc = 0 \<longleftrightarrow> pc = Returned"
  by (cases pc) simp_all

lemma thread_step_left:
  "thread_step env api pc s = Some (Inr (pc', s')) \<Longrightarrow> pc \<noteq> Returned \<Longrightarrow> steps_left pc' < steps_left pc"
  by (cases pc) (auto simp: Let_def ebind_eq_Inr split: sum.splits option.splits prod.splits if_splits)

lemma thread_steps_Returned [simp]: "thread_steps n env api Returned s = Some (Inr (Returned, s))"
  by (induction n) simp_all

text \<open>The rest of a thread's run, on its own.\<close>

definition finish ::
  "thread_env \<Rightarrow> 'd out_file \<Rightarrow> code_point \<Rightarrow> 'd thread_state \<Rightarrow> (fault + code_point \<times> 'd thread_state) option" where
  "finish env api pc s = thread_steps (steps_left pc) env api pc s"

lemma thread_steps_enough: "steps_left pc \<le> n \<Longrightarrow> thread_steps n env api pc s = finish env api pc s"
proof (induction n arbitrary: pc s rule: less_induct)
  case (less n)
  show ?case
  proof (cases "pc = Returned")
    case False
    then obtain m k where mk: "steps_left pc = Suc m" "n = Suc k" "m \<le> k" using less.prems
      by (metis Suc_le_D Suc_le_mono not0_implies_Suc steps_left_0)
    have "thread_steps k env api pc' s' = thread_steps m env api pc' s'"
      if "thread_step env api pc s = Some (Inr (pc', s'))" for pc' s'
    proof -
      have l: "steps_left pc' \<le> m" using thread_step_left [OF that False] mk(1) by simp
      show ?thesis
        using less.IH [of k pc' s'] less.IH [of m pc' s'] l mk by simp
    qed
    then show ?thesis
      by (auto simp: finish_def mk split: option.splits sum.splits)
  qed (simp add: finish_def)
qed

lemma finish_step:
  assumes "thread_step env api pc s = Some (Inr (pc', s'))"
  shows "finish env api pc s = finish env api pc' s'"
proof (cases "pc = Returned")
  case True
  with assms show ?thesis by simp
next
  case False
  then obtain m where m: "steps_left pc = Suc m" by (metis not0_implies_Suc steps_left_0)
  with thread_step_left [OF assms False] have "steps_left pc' \<le> m" by simp
  with assms m show ?thesis by (simp add: finish_def thread_steps_enough [of pc' m])
qed

lemma finish_Returned [simp]: "finish env api Returned s = Some (Inr (Returned, s))"
  by (simp add: finish_def)

lemma thread_step_total: "finish env api pc s = Some (Inr r) \<Longrightarrow> \<exists>pc' s'. thread_step env api pc s = Some (Inr (pc', s'))"
  by (cases "steps_left pc") (auto simp: finish_def split: option.splits sum.splits prod.splits)

text \<open>From the labels on, the steps are the definitions of the labels.\<close>

definition ended :: "(fault + 'd thread_state) option \<Rightarrow> (fault + code_point \<times> 'd thread_state) option" where
  "ended r = map_option (\<lambda>r. ebind r (\<lambda>s. Inr (Returned, s))) r"

lemma ended_simps [simp]: "ended None = None" "ended (Some (Inl e)) = Some (Inl e)" "ended (Some (Inr s)) = Some (Inr (Returned, s))"
  by (simp_all add: ended_def)

lemma finish_unfold:
  "pc \<noteq> Returned \<Longrightarrow> finish env api pc s = (case thread_step env api pc s of None \<Rightarrow> None
      | Some (Inl e) \<Rightarrow> Some (Inl e) | Some (Inr (pc', s')) \<Rightarrow> finish env api pc' s')"
  using finish_step [of env api pc s]
  by (cases "steps_left pc") (auto simp: finish_def split: option.splits sum.splits)

lemma finish_Close_Socket: "finish env api Close_Socket s = ended (Some (Inr (err_readline_from_socket s)))"
  by (simp add: finish_unfold err_readline_from_socket_def)

lemma finish_Free_Line: "finish env api Free_Line s = ended (Some (Inr (err_fopen_a s)))"
  by (simp add: finish_unfold [of Free_Line] finish_Close_Socket err_fopen_a_def)

lemma finish_Close_File: "finish env api Close_File s = ended (Some (err_mutex_lock env api s))"
  by (cases "close_file api (fclose_ret env) (errno_fclose env) s")
    (simp_all add: finish_unfold [of Close_File] finish_Free_Line err_mutex_lock_def)

lemma finish_Unlock_Mutex: "finish env api Unlock_Mutex s = ended (Some (err_append_to_file env api s))"
  by (simp add: finish_unfold [of Unlock_Mutex] finish_Close_File err_append_to_file_def Let_def)

lemma finish_Open_Read: "finish env api (Open_Read c sk) s = ended (echo_file env api c sk s)"
  by (auto simp: finish_unfold [of "Open_Read c sk"] finish_unfold [of "Seek_File sk"] finish_unfold [of "Send_Back p" for p]
      finish_Unlock_Mutex echo_file_def Let_def split: sum.splits option.splits prod.splits if_splits)

lemma finish_Append_Line: "finish env api (Append_Line sk line n) s = ended (locked_part env api False sk line n s)"
  by (auto simp: finish_unfold [of "Append_Line sk line n"] finish_unfold [of "Close_Append sk"] finish_Open_Read finish_Unlock_Mutex
      locked_part_def ebind_def split: sum.splits)

lemma finish_Lock_Mutex:
  "finish env api (Lock_Mutex c sk line n) s =
     ended (if lock_ret env \<noteq> 0 then Some (err_mutex_lock env api (set_error (lock_ret env) s))
            else locked_part env api c sk line n ((set_error (lock_ret env) s)\<lparr>mtx_held := True\<rparr>))"
  by (simp add: finish_unfold [of "Lock_Mutex c sk line n"] finish_Append_Line finish_Open_Read finish_Close_File Let_def
      locked_part_def [of env api True])

lemma finish_Read_Line:
  "finish env api Read_Line (thread_start args d) = ended (sock_thread_func env api args d)"
proof -
  note steps = finish_unfold [of Read_Line] finish_unfold [of "Open_Append sk line n" for sk line n]
    finish_Lock_Mutex finish_Free_Line finish_Close_Socket
  show ?thesis
    by (auto simp: steps sock_thread_func_def thread_start_def Let_def split: sum.splits option.splits prod.splits)
qed

section \<open>The invariant of the interleaved threads\<close>

fun before_lock :: "code_point \<Rightarrow> bool" where
  "before_lock Read_Line = True"
| "before_lock (Open_Append _ _ _) = True"
| "before_lock (Lock_Mutex _ _ _ _) = True"
| "before_lock _ = False"

lemma set_error_dev [simp]:
  "set_error e (s\<lparr>t_dev := d\<rparr>) = (set_error e s)\<lparr>t_dev := d\<rparr>" "note_error e (s\<lparr>t_dev := d\<rparr>) = (note_error e s)\<lparr>t_dev := d\<rparr>"
  by (simp_all add: set_error_def note_error_def)

text \<open>What closing and writing change.\<close>

lemma close_file_InrD:
  assumes "close_file api rt err s = Inr s'"
  shows "\<exists>i. t_file s = Some i \<and> i < length (t_streams s) \<and> t_streams s' = (t_streams s)[i := Closed_Stream] \<and> mtx_held s' = mtx_held s \<and>
    t_sent s' = t_sent s \<and> t_file s' = t_file s \<and> finished (t_args s') = finished (t_args s) \<and>
    ((\<forall>buf. t_streams s ! i = Append_Stream buf \<longrightarrow> buf = []) \<longrightarrow> t_dev s' = t_dev s)"
proof -
  from assms obtain e s1 where s1: "fclose api s = Inr (e, s1)" "s' \<in> {s1, note_error e s1, note_error err s1}"
    by (auto simp: close_file_def ebind_eq_Inr split: if_splits)
  have "finished (t_args (note_error x s1)) = finished (t_args s1)" for x by (simp add: note_error_def set_error_def)
  with fclose_InrD [OF s1(1)] s1(2) show ?thesis by auto
qed

text \<open>Nothing is in the buffer of a stream, except between writing the line and closing the stream.\<close>

fun at_close :: "code_point \<Rightarrow> bool" where
  "at_close (Close_Append sk) = True"
| "at_close _ = False"

definition buffers_ok :: "code_point \<Rightarrow> 'd thread_state \<Rightarrow> bool" where
  "buffers_ok pc s \<longleftrightarrow> (\<forall>j < length (t_streams s). \<forall>buf. t_streams s ! j = Append_Stream buf \<longrightarrow>
     buf = [] \<or> at_close pc \<and> t_file s = Some j)"

lemma buffers_ok_dev [simp]: "buffers_ok pc (s\<lparr>t_dev := d\<rparr>) = buffers_ok pc s"
  by (simp add: buffers_ok_def)

lemma buffers_ok_cong: "t_streams s = t_streams s' \<Longrightarrow> \<not> at_close pc \<Longrightarrow> buffers_ok pc s \<Longrightarrow> buffers_ok pc' s'"
  by (auto simp: buffers_ok_def)

lemma buffers_ok_open: "\<not> at_close pc \<Longrightarrow> buffers_ok pc s \<Longrightarrow> f \<in> {Append_Stream [], Read_Stream} \<Longrightarrow> buffers_ok pc' (open_stream f s)"
  by (auto simp: buffers_ok_def nth_append less_Suc_eq)

lemma close_file_buffers:
  assumes "close_file api rt err s = Inr s'" "buffers_ok pc s"
  shows "buffers_ok pc' s'"
proof -
  from close_file_InrD [OF assms(1)] obtain i where "t_file s = Some i" "i < length (t_streams s)"
    "t_streams s' = (t_streams s)[i := Closed_Stream]" by blast
  with assms(2) show ?thesis by (auto simp: buffers_ok_def nth_list_update split: if_splits)
qed

lemma append_buffers:
  assumes "append_to_file api line n s = Inr (ok, s')" "buffers_ok pc s" "\<not> at_close pc"
  shows "buffers_ok (Close_Append sk) s'"
  using append_to_file_InrD [OF assms(1)] assms(2,3) by (auto simp: buffers_ok_def nth_list_update)

lemma buffers_ok_step:
  assumes "thread_step env api pc s = Some (Inr (pc', s'))" "buffers_ok pc s"
  shows "buffers_ok pc' s'"
proof (cases pc)
  case (Append_Line sk line n)
  with assms(1) obtain ok where a: "append_to_file api line n s = Inr (ok, if ok then s' else s')" "ok" "pc' = Close_Append sk"
    using append_to_file_InrD [of api line n s] by (auto split: sum.splits if_splits)
  with append_buffers [OF a(1) assms(2)] Append_Line show ?thesis by simp
next
  case (Close_Append sk)
  with assms close_file_buffers show ?thesis by (auto simp: ebind_eq_Inr)
next
  case Close_File
  with assms close_file_buffers show ?thesis by (auto simp: ebind_eq_Inr)
next
  case (Open_Read c sk)
  with assms show ?thesis
    by (auto intro: buffers_ok_open [of pc] buffers_ok_cong [of s _ pc] split: if_splits)
next
  case (Open_Append sk line n)
  with assms show ?thesis by (auto intro: buffers_ok_open [of pc] buffers_ok_cong [of s _ pc] split: if_splits)
qed (use assms in \<open>auto simp: Let_def intro: buffers_ok_cong [of s _ pc] split: sum.splits option.splits prod.splits if_splits\<close>)

text \<open>A step outside the critical section does not depend on the file.\<close>

lemma fclose_any_dev:
  assumes "\<And>i buf. t_file s = Some i \<Longrightarrow> i < length (t_streams s) \<Longrightarrow> t_streams s ! i = Append_Stream buf \<Longrightarrow> buf = []"
  shows "fclose api (s\<lparr>t_dev := d\<rparr>) = ebind (fclose api s) (\<lambda>(e, s'). Inr (e, s'\<lparr>t_dev := d\<rparr>))"
proof (cases "cur_stream s")
  case (Inr r)
  with assms cur_stream_InrD [of s "fst r" "snd r"] show ?thesis
    by (cases r; cases "snd r") (auto simp: fclose_def Let_def)
qed (simp add: fclose_def)

lemma close_file_any_dev:
  assumes "buffers_ok pc s" "\<not> at_close pc"
  shows "close_file api rt err (s\<lparr>t_dev := d\<rparr>) = ebind (close_file api rt err s) (\<lambda>s'. Inr (s'\<lparr>t_dev := d\<rparr>))"
proof -
  have "fclose api (s\<lparr>t_dev := d\<rparr>) = ebind (fclose api s) (\<lambda>(e, s'). Inr (e, s'\<lparr>t_dev := d\<rparr>))"
    using assms by (intro fclose_any_dev) (auto simp: buffers_ok_def)
  then show ?thesis by (cases "fclose api s") (auto simp: close_file_def note_error_def set_error_def)
qed

lemma step_any_dev:
  assumes "\<not> in_critical pc" "buffers_ok pc s"
  shows "thread_step env api pc (s\<lparr>t_dev := d\<rparr>) =
     map_option (\<lambda>r. ebind r (\<lambda>(pc', s'). Inr (pc', s'\<lparr>t_dev := d\<rparr>))) (thread_step env api pc s)"
  using assms close_file_any_dev [of pc s api "fclose_ret env" "errno_fclose env" d]
  by (cases pc) (simp_all add: Let_def open_stream_def note_error_def set_error_def ebind_assoc split: sum.split option.split)

lemma step_outside:
  assumes "thread_step env api pc (s\<lparr>t_dev := d\<rparr>) = Some (Inr (pc', s'))" "\<not> in_critical pc" "\<not> takes_mutex env pc" "buffers_ok pc s"
  shows "t_dev s' = d" "mtx_held s' = mtx_held s" "\<not> in_critical pc'" "before_lock pc' \<Longrightarrow> before_lock pc"
    "thread_step env api pc (s\<lparr>t_dev := d'\<rparr>) = Some (Inr (pc', s'\<lparr>t_dev := d'\<rparr>))"
proof -
  obtain s0 where s0: "thread_step env api pc s = Some (Inr (pc', s0))" "s' = s0\<lparr>t_dev := d\<rparr>"
    using assms(1) by (auto simp: step_any_dev [OF assms(2,4)] ebind_eq_Inr)
  then show "t_dev s' = d" "thread_step env api pc (s\<lparr>t_dev := d'\<rparr>) = Some (Inr (pc', s'\<lparr>t_dev := d'\<rparr>))"
    by (simp_all add: step_any_dev [OF assms(2,4)])
  have "mtx_held s0 = mtx_held s \<and> \<not> in_critical pc' \<and> (before_lock pc' \<longrightarrow> before_lock pc)"
    using s0(1) assms(2,3)
    by (cases pc) (auto simp: Let_def ebind_eq_Inr dest: close_file_InrD split: sum.splits option.splits if_splits)
  with s0(2) show "mtx_held s' = mtx_held s" "\<not> in_critical pc'" "before_lock pc' \<Longrightarrow> before_lock pc" by auto
qed

lemma step_lock:
  assumes "thread_step env api pc (s\<lparr>t_dev := d\<rparr>) = Some (Inr (pc', s'))" "takes_mutex env pc"
  shows "t_dev s' = d" "mtx_held s'" "in_critical pc'" "before_lock pc" "\<not> before_lock pc'"
  using assms by (cases pc; auto simp: set_error_def Let_def split: if_splits)+

lemma step_critical:
  assumes "thread_step env api pc (s\<lparr>t_dev := d\<rparr>) = Some (Inr (pc', s'))" "in_critical pc" "mtx_held s"
  shows "\<not> before_lock pc'" "in_critical pc' \<Longrightarrow> mtx_held s'" "\<not> takes_mutex env pc"
    "unlock_ret env = 0 \<Longrightarrow> mtx_held s' \<Longrightarrow> in_critical pc'"
proof -
  have ap: "ok \<and> mtx_held s1 = mtx_held s" if "append_to_file api line n (s\<lparr>t_dev := d\<rparr>) = Inr (ok, s1)" for line n ok s1
    using append_to_file_InrD [OF that] by auto
  have cl: "mtx_held s1 = mtx_held s" if "close_file api rt err (s\<lparr>t_dev := d\<rparr>) = Inr s1" for rt err s1
    using close_file_InrD [OF that] by auto
  have "\<not> before_lock pc' \<and> (in_critical pc' \<longrightarrow> mtx_held s') \<and> \<not> takes_mutex env pc \<and>
    (unlock_ret env = 0 \<longrightarrow> mtx_held s' \<longrightarrow> in_critical pc')"
    using assms by (cases pc) (auto simp: Let_def ebind_eq_Inr dest: ap cl split: sum.splits option.splits prod.splits if_splits)
  then show "\<not> before_lock pc'" "in_critical pc' \<Longrightarrow> mtx_held s'" "\<not> takes_mutex env pc"
    "unlock_ret env = 0 \<Longrightarrow> mtx_held s' \<Longrightarrow> in_critical pc'" by blast+
qed

text \<open>What thread \<open>i\<close> still does, and what it does from the start, on a given file.\<close>

definition rest :: "'d out_file \<Rightarrow> (thread_env \<times> aesd_thread_args) list \<Rightarrow> 'd conc \<Rightarrow> nat \<Rightarrow> 'd \<Rightarrow>
    (fault + code_point \<times> 'd thread_state) option" where
  "rest api cs c i d = finish (fst (cs ! i)) api (fst (c_threads c ! i)) ((snd (c_threads c ! i))\<lparr>t_dev := d\<rparr>)"

definition whole :: "'d out_file \<Rightarrow> (thread_env \<times> aesd_thread_args) list \<Rightarrow> nat \<Rightarrow> 'd \<Rightarrow>
    (fault + code_point \<times> 'd thread_state) option" where
  "whole api cs i d = ended (sock_thread_func (fst (cs ! i)) api (snd (cs ! i)) d)"

text \<open>
  The states of the file between the transactions: what each thread found when it got the
  mutex, and what there is now.
\<close>

definition devs :: "'d conc \<Rightarrow> 'd list" where
  "devs c = map snd (c_order c) @ [c_dev c]"

definition locked_once :: "'d conc \<Rightarrow> nat set" where
  "locked_once c = fst ` set (c_order c)"

text \<open>
  A thread that had the mutex turns the file it found into the one its successor finds; a thread
  that did not has done nothing to the file yet.
\<close>

definition conc_inv :: "'d out_file \<Rightarrow> (thread_env \<times> aesd_thread_args) list \<Rightarrow> 'd \<Rightarrow> 'd conc \<Rightarrow> bool" where
  "conc_inv api cs d0 c \<longleftrightarrow> length (c_threads c) = length cs \<and> distinct (map fst (c_order c)) \<and>
     locked_once c \<subseteq> {..<length cs} \<and> hd (devs c) = d0 \<and>
     (\<forall>k < length (c_order c). rest api cs c (fst (c_order c ! k)) (devs c ! Suc k) =
        whole api cs (fst (c_order c ! k)) (devs c ! k)) \<and>
     (\<forall>i < length cs. i \<notin> locked_once c \<longrightarrow> (\<forall>d. rest api cs c i d = whole api cs i d)) \<and>
     (\<forall>i < length cs. before_lock (fst (c_threads c ! i)) \<longrightarrow> i \<notin> locked_once c) \<and>
     (\<forall>i < length cs. in_critical (fst (c_threads c ! i)) \<longrightarrow> mtx_held (snd (c_threads c ! i))) \<and>
     (\<forall>i < length cs. mtx_held (snd (c_threads c ! i)) \<longleftrightarrow> c_owner c = Some i) \<and>
     (\<forall>i. c_owner c = Some i \<longrightarrow> c_order c \<noteq> [] \<and> fst (last (c_order c)) = i) \<and>
     (\<forall>i < length cs. buffers_ok (fst (c_threads c ! i)) (snd (c_threads c ! i)))"

lemma conc_invD:
  assumes "conc_inv api cs d0 c"
  shows "length (c_threads c) = length cs" "distinct (map fst (c_order c))" "locked_once c \<subseteq> {..<length cs}" "hd (devs c) = d0"
    "k < length (c_order c) \<Longrightarrow> rest api cs c (fst (c_order c ! k)) (devs c ! Suc k) =
        whole api cs (fst (c_order c ! k)) (devs c ! k)"
    "i < length cs \<Longrightarrow> i \<notin> locked_once c \<Longrightarrow> rest api cs c i d = whole api cs i d"
    "i < length cs \<Longrightarrow> before_lock (fst (c_threads c ! i)) \<Longrightarrow> i \<notin> locked_once c"
    "i < length cs \<Longrightarrow> in_critical (fst (c_threads c ! i)) \<Longrightarrow> mtx_held (snd (c_threads c ! i))"
    "i < length cs \<Longrightarrow> mtx_held (snd (c_threads c ! i)) \<longleftrightarrow> c_owner c = Some i"
    "c_owner c = Some i \<Longrightarrow> c_order c \<noteq> [] \<and> fst (last (c_order c)) = i"
    "i < length cs \<Longrightarrow> buffers_ok (fst (c_threads c ! i)) (snd (c_threads c ! i))"
  using assms by (simp_all add: conc_inv_def)

lemma conc_order_nth:
  "conc_inv api cs d0 c \<Longrightarrow> n < length (c_order c) \<Longrightarrow> fst (c_order c ! n) < length cs \<and> fst (c_order c ! n) \<in> locked_once c"
  using conc_invD(3) [of api cs d0 c] by (force simp: locked_once_def)

lemma thread_start_dev [simp]: "(thread_start args d)\<lparr>t_dev := d'\<rparr> = thread_start args d'"
  "\<not> mtx_held (thread_start args d)" "buffers_ok pc (thread_start args d)"
  by (simp_all add: thread_start_def buffers_ok_def)

lemma conc_start_inv: "conc_inv api cs d (conc_start cs d)"
  using finish_Read_Line by (auto simp: conc_inv_def conc_start_def devs_def locked_once_def rest_def whole_def case_prod_beta)

lemma same_dev: "t_dev s = d \<Longrightarrow> s\<lparr>t_dev := d\<rparr> = s"
  by auto

text \<open>The three kinds of steps.\<close>

lemma inv_outside:
  assumes inv: "conc_inv api cs d0 c" and i: "i < length cs" "c_threads c ! i = (pc, s)"
    and st: "thread_step (fst (cs ! i)) api pc (s\<lparr>t_dev := c_dev c\<rparr>) = Some (Inr (pc', s'))"
    and k: "\<not> in_critical pc" "\<not> takes_mutex (fst (cs ! i)) pc"
  shows "conc_inv api cs d0 \<lparr>c_threads = (c_threads c)[i := (pc', s')], c_dev = c_dev c, c_owner = c_owner c,
    c_order = c_order c\<rparr>" (is "conc_inv api cs d0 ?c")
proof -
  note inv' = conc_invD [OF inv]
  have buf: "buffers_ok pc s" using inv'(11) [OF i(1)] i(2) by simp
  note out = step_outside [OF st k buf] and buf' = buffers_ok_step [OF st]
  have nth: "(c_threads c)[i := (pc', s')] ! j = (if j = i then (pc', s') else c_threads c ! j)" if "j < length cs" for j
    using that inv'(1) i by (simp add: nth_list_update)
  have r: "rest api cs ?c j d = rest api cs c j d" if "j < length cs" for j d
    using nth [OF that] finish_step [OF out(5)] i by (simp add: rest_def)
  have same: "devs ?c = devs c" "locked_once ?c = locked_once c" "c_order ?c = c_order c" "c_owner ?c = c_owner c"
    by (simp_all add: devs_def locked_once_def)
  show ?thesis
    unfolding conc_inv_def same
    using inv'(1-11) conc_order_nth [OF inv] inv'(7,9) [OF i(1)] out(2-4) i r buf buf' by (simp add: nth)
qed

lemma inv_lock:
  assumes inv: "conc_inv api cs d0 c" and i: "i < length cs" "c_threads c ! i = (pc, s)"
    and st: "thread_step (fst (cs ! i)) api pc (s\<lparr>t_dev := c_dev c\<rparr>) = Some (Inr (pc', s'))"
    and k: "takes_mutex (fst (cs ! i)) pc" "c_owner c = None"
  shows "conc_inv api cs d0 \<lparr>c_threads = (c_threads c)[i := (pc', s')], c_dev = c_dev c, c_owner = Some i,
    c_order = c_order c @ [(i, c_dev c)]\<rparr>" (is "conc_inv api cs d0 ?c")
proof -
  note inv' = conc_invD [OF inv] and lk = step_lock [OF st k(1)]
  have buf': "buffers_ok pc' s'" using buffers_ok_step [OF st] inv'(11) [OF i(1)] i(2) by simp
  have nth: "(c_threads c)[i := (pc', s')] ! j = (if j = i then (pc', s') else c_threads c ! j)" if "j < length cs" for j
    using that inv'(1) i by (simp add: nth_list_update)
  have new: "i \<notin> locked_once c" using inv'(7) [OF i(1)] i(2) lk(4) by simp
  have free: "\<not> mtx_held (snd (c_threads c ! j))" "\<not> in_critical (fst (c_threads c ! j))" if "j < length cs" for j
    using inv'(8,9) [OF that] k(2) by auto
  have r: "rest api cs ?c j d = rest api cs c j d" if "j < length cs" "j \<noteq> i" for j d
    using nth [OF that(1)] that by (simp add: rest_def)
  have ri: "rest api cs ?c i (c_dev c) = whole api cs i (c_dev c)"
    using finish_step [OF st] inv'(6) [OF i(1) new, of "c_dev c"] i same_dev [OF lk(1)] nth [OF i(1)]
    by (simp add: rest_def)
  have d: "devs ?c = devs c @ [c_dev c]" "locked_once ?c = insert i (locked_once c)" by (simp_all add: devs_def locked_once_def)
  have len: "length (devs c) = Suc (length (c_order c))" by (simp add: devs_def)
  have ord: "rest api cs ?c (fst (c_order ?c ! k)) (devs ?c ! Suc k) = whole api cs (fst (c_order ?c ! k)) (devs ?c ! k)"
    if "k < length (c_order ?c)" for k
  proof (cases "k < length (c_order c)")
    case True
    with new have "fst (c_order c ! k) < length cs" "fst (c_order c ! k) \<noteq> i"
      using conc_order_nth [OF inv] by auto
    with True r inv'(5) [OF True] len show ?thesis by (simp add: d nth_append)
  next
    case False
    with that have "k = length (c_order c)" by simp
    with ri len show ?thesis by (simp add: d nth_append) (simp add: devs_def nth_append)
  qed
  have "hd (devs ?c) = d0" using inv'(4) len by (cases "devs c") (simp_all add: d)
  moreover have "distinct (map fst (c_order ?c))" using inv'(2) new by (simp add: locked_once_def)
  moreover have "rest api cs ?c j e = whole api cs j e" if "j < length cs" "j \<notin> locked_once ?c" for j e
    using r [OF that(1)] inv'(6) [OF that(1)] that(2) d(2) by simp
  ultimately show ?thesis
    unfolding conc_inv_def using ord inv'(1,3,7,8,11) i(1) free lk d(2) buf' by (simp add: nth)
qed

lemma inv_critical:
  assumes inv: "conc_inv api cs d0 c" and i: "i < length cs" "c_threads c ! i = (pc, s)"
    and st: "thread_step (fst (cs ! i)) api pc (s\<lparr>t_dev := c_dev c\<rparr>) = Some (Inr (pc', s'))"
    and k: "in_critical pc"
  shows "conc_inv api cs d0 \<lparr>c_threads = (c_threads c)[i := (pc', s')], c_dev = t_dev s',
    c_owner = (if mtx_held s' then c_owner c else None), c_order = c_order c\<rparr>" (is "conc_inv api cs d0 ?c")
proof -
  note inv' = conc_invD [OF inv]
  have own: "mtx_held s" "c_owner c = Some i" using inv'(8,9) [OF i(1)] i(2) k by auto
  note cr = step_critical [OF st k own(1)]
  have buf': "buffers_ok pc' s'" using buffers_ok_step [OF st] inv'(11) [OF i(1)] i(2) by simp
  have held: "\<not> mtx_held s' \<longrightarrow> \<not> in_critical pc'" using cr(2) by blast
  have last: "c_order c \<noteq> []" "fst (last (c_order c)) = i" using inv'(10) [OF own(2)] by auto
  have nth: "(c_threads c)[i := (pc', s')] ! j = (if j = i then (pc', s') else c_threads c ! j)" if "j < length cs" for j
    using that inv'(1) i by (simp add: nth_list_update)
  have r: "rest api cs ?c j d = rest api cs c j d" if "j < length cs" "j \<noteq> i" for j d
    using nth [OF that(1)] that by (simp add: rest_def)
  have ri: "rest api cs ?c i (t_dev s') = rest api cs c i (c_dev c)"
    using finish_step [OF st] i same_dev [OF refl, of s'] nth [OF i(1)] by (simp add: rest_def)
  have in_i: "i \<in> locked_once c" using last by (force simp: locked_once_def)
  have d: "devs ?c = map snd (c_order c) @ [t_dev s']" "devs c = map snd (c_order c) @ [c_dev c]" by (simp_all add: devs_def)
  have ord: "rest api cs ?c (fst (c_order c ! k)) (devs ?c ! Suc k) = whole api cs (fst (c_order c ! k)) (devs ?c ! k)"
    if "k < length (c_order c)" for k
  proof (cases "Suc k < length (c_order c)")
    case True
    then have "fst (c_order c ! k) \<noteq> i"
      using last inv'(2) that by (auto simp: last_conv_nth distinct_conv_nth)
    with True r inv'(5) [OF that] conc_order_nth [OF inv that] show ?thesis by (simp add: d nth_append)
  next
    case False
    with that have "k = length (c_order c) - 1" "Suc k = length (c_order c)" by simp_all
    moreover from this last have "fst (c_order c ! k) = i" by (simp add: last_conv_nth)
    ultimately show ?thesis using ri inv'(5) [OF that] that by (simp add: d nth_append)
  qed
  have "hd (devs ?c) = d0" using inv'(4) last(1) by (simp add: d)
  moreover have "rest api cs ?c j e = whole api cs j e" if "j < length cs" "j \<notin> locked_once c" for j e
    using r [OF that(1)] inv'(6) [OF that] in_i that(2) by (metis (no_types))
  moreover have "locked_once ?c = locked_once c" by (simp add: locked_once_def)
  moreover have "\<not> in_critical (fst (c_threads c ! j)) \<and> \<not> mtx_held (snd (c_threads c ! j))" if "j < length cs" "j \<noteq> i" for j
    using inv'(8,9) [OF that(1)] own(2) that(2) by auto
  ultimately show ?thesis
    unfolding conc_inv_def using ord inv'(1,2,3,7,11) i(1) cr(1) held own(2) last buf' by (simp add: nth)
qed

lemma conc_inv_step:
  assumes "conc_step api cs c c'" "conc_inv api cs d0 c"
  shows "conc_inv api cs d0 c'"
  using assms
proof (cases rule: conc_step.cases)
  case (thread_moves i pc s pc' s')
  have i: "i < length cs" using thread_moves(2) conc_invD(1) [OF assms(2)] by simp
  consider "takes_mutex (fst (cs ! i)) pc" | "in_critical pc" "\<not> takes_mutex (fst (cs ! i)) pc"
    | "\<not> in_critical pc" "\<not> takes_mutex (fst (cs ! i)) pc" by blast
  then show ?thesis
  proof cases
    case 1
    then have "\<not> mtx_held s" using conc_invD(9) [OF assms(2) i] thread_moves by simp
    with inv_lock [OF assms(2) i thread_moves(3,6) 1] step_lock [OF thread_moves(6) 1] thread_moves 1
    show ?thesis by (simp add: next_owner_def)
  next
    case 2
    then have "mtx_held s" using conc_invD(8) [OF assms(2) i] thread_moves by simp
    with inv_critical [OF assms(2) i thread_moves(3,6) 2(1)] thread_moves 2 show ?thesis
      by (cases "mtx_held s'") (simp_all add: next_owner_def)
  next
    case 3
    have "buffers_ok pc s" using conc_invD(11) [OF assms(2) i] thread_moves(3) by simp
    with 3 inv_outside [OF assms(2) i thread_moves(3,6)] step_outside [OF thread_moves(6)] thread_moves
    show ?thesis by (simp add: next_owner_def)
  qed
qed

lemma conc_inv_run: "(conc_step api cs)\<^sup>*\<^sup>* (conc_start cs d) c \<Longrightarrow> conc_inv api cs d c"
  by (induction rule: rtranclp_induct) (auto intro: conc_start_inv conc_inv_step)

section \<open>Serial order\<close>

lemma serve_all_chain:
  assumes "length ds = Suc (length is)"
    "\<And>k. k < length is \<Longrightarrow> \<exists>s. sock_thread_func (fst (cs ! (is ! k))) api (snd (cs ! (is ! k))) (ds ! k) = Some (Inr s) \<and>
       t_sent s = f (is ! k) \<and> t_dev s = ds ! Suc k"
  shows "serve_all api (map ((!) cs) is) (hd ds) = Some (Inr (map f is, last ds))"
  using assms
proof (induction "is" arbitrary: ds)
  case Nil
  then show ?case by (cases ds) auto
next
  case (Cons i "is")
  obtain d ds' where ds: "ds = d # ds'" "length ds' = Suc (length is)" using Cons.prems(1) by (cases ds) auto
  then have h: "hd ds' = ds ! 1" "ds' \<noteq> []" by (cases ds'; simp)+
  obtain s where s: "sock_thread_func (fst (cs ! i)) api (snd (cs ! i)) d = Some (Inr s)" "t_sent s = f i" "t_dev s = hd ds'"
    using Cons.prems(2) [of 0] ds h by auto
  have "serve_all api (map ((!) cs) is) (hd ds') = Some (Inr (map f is, last ds'))"
  proof (rule Cons.IH [OF ds(2)])
    fix k assume "k < length is"
    with Cons.prems(2) [of "Suc k"] ds(1)
    show "\<exists>s. sock_thread_func (fst (cs ! (is ! k))) api (snd (cs ! (is ! k))) (ds' ! k) = Some (Inr s) \<and>
       t_sent s = f (is ! k) \<and> t_dev s = ds' ! Suc k" by simp
  qed
  with s h show ?case by (cases "cs ! i") (simp add: ds(1))
qed

definition sent_to :: "'d conc \<Rightarrow> nat \<Rightarrow> bytes" where
  "sent_to c i = t_sent (snd (c_threads c ! i))"

lemma whole_Returned: "whole api cs i d = Some (Inr (Returned, s)) \<longleftrightarrow> sock_thread_func (fst (cs ! i)) api (snd (cs ! i)) d = Some (Inr s)"
  by (auto simp: whole_def ended_def ebind_eq_Inr)

text \<open>The threads in the order in which they got the mutex, then those that did not.\<close>

definition serial_order :: "'d conc \<Rightarrow> nat list" where
  "serial_order c = map fst (c_order c) @ filter (\<lambda>i. i \<notin> locked_once c) [0..<length (c_threads c)]"

lemma serial_order_perm: "conc_inv api cs d0 c \<Longrightarrow> distinct (serial_order c) \<and> set (serial_order c) = {..<length cs}"
  using conc_invD(1-3) [of api cs d0 c] by (auto simp: serial_order_def locked_once_def)

lemma conc_inv_serial:
  assumes inv: "conc_inv api cs d0 c" and ret: "all_returned c"
  shows "serve_all api (map ((!) cs) (serial_order c)) d0 = Some (Inr (map (sent_to c) (serial_order c), c_dev c))"
proof -
  note inv' = conc_invD [OF inv]
  let ?is = "serial_order c" and ?n = "length (c_order c)"
  let ?ds = "devs c @ replicate (length ?is - ?n) (c_dev c)"
  have rest: "rest api cs c i d = Some (Inr (Returned, (snd (c_threads c ! i))\<lparr>t_dev := d\<rparr>))" if "i < length cs" for i d
    using that ret inv'(1) by (simp add: rest_def all_returned_def)
  have len: "length (devs c) = Suc ?n" "?n \<le> length ?is" by (simp_all add: devs_def serial_order_def)
  have "\<exists>s. sock_thread_func (fst (cs ! (?is ! k))) api (snd (cs ! (?is ! k))) (?ds ! k) = Some (Inr s) \<and>
       t_sent s = sent_to c (?is ! k) \<and> t_dev s = ?ds ! Suc k" if k: "k < length ?is" for k
  proof (cases "k < ?n")
    case True
    then have i: "?is ! k = fst (c_order c ! k)" by (simp add: serial_order_def nth_append)
    with inv'(5) [OF True] rest [of "?is ! k"] conc_order_nth [OF inv True]
    have "sock_thread_func (fst (cs ! (?is ! k))) api (snd (cs ! (?is ! k))) (devs c ! k) =
      Some (Inr ((snd (c_threads c ! (?is ! k)))\<lparr>t_dev := devs c ! Suc k\<rparr>))"
      by (simp add: whole_Returned [symmetric])
    with True len show ?thesis by (simp add: nth_append sent_to_def)
  next
    case False
    then have "?is ! k \<in> set (filter (\<lambda>i. i \<notin> locked_once c) [0..<length (c_threads c)])"
      using k by (auto simp: serial_order_def nth_append simp del: set_filter intro: nth_mem)
    then have i: "?is ! k \<notin> locked_once c" "?is ! k < length cs" using inv'(1) by auto
    with inv'(6) [of "?is ! k"] rest [of "?is ! k"]
    have "sock_thread_func (fst (cs ! (?is ! k))) api (snd (cs ! (?is ! k))) d =
      Some (Inr ((snd (c_threads c ! (?is ! k)))\<lparr>t_dev := d\<rparr>))" for d
      by (simp add: whole_Returned [symmetric])
    moreover have "?ds ! k = c_dev c" "?ds ! Suc k = c_dev c" using False k len by (auto simp: devs_def nth_append nth_Cons')
    ultimately show ?thesis by (simp add: sent_to_def)
  qed
  moreover have "hd ?ds = d0" using inv'(4) len by (cases "devs c") simp_all
  moreover have "last ?ds = c_dev c" "length ?ds = Suc (length ?is)" using len by (simp_all add: devs_def)
  ultimately show ?thesis using serve_all_chain [of ?ds ?is cs api "sent_to c"] by simp
qed

section \<open>Progress\<close>

text \<open>If unlocking does not fail, the mutex is held between lock and unlock only.\<close>

definition held_inside :: "'d conc \<Rightarrow> bool" where
  "held_inside c \<longleftrightarrow> (\<forall>t \<in> set (c_threads c). mtx_held (snd t) \<longrightarrow> in_critical (fst t))"

lemma held_inside_step:
  assumes "conc_step api cs c c'" "conc_inv api cs d0 c" "\<forall>t \<in> set cs. unlock_ret (fst t) = 0" "held_inside c"
  shows "held_inside c'"
  using assms(1)
proof (cases rule: conc_step.cases)
  case (thread_moves i pc s pc' s')
  have i: "i < length cs" using thread_moves(2) conc_invD(1) [OF assms(2)] by simp
  have crit: "in_critical pc \<longleftrightarrow> mtx_held s"
    using assms(4) conc_invD(8) [OF assms(2) i] thread_moves(2,3) nth_mem [OF thread_moves(2)]
    by (auto simp: held_inside_def)
  have "mtx_held s' \<longrightarrow> in_critical pc'"
  proof (cases "takes_mutex (fst (cs ! i)) pc")
    case True
    with step_lock [OF thread_moves(6)] show ?thesis by simp
  next
    case False
    show ?thesis
    proof (cases "in_critical pc")
      case True
      with step_critical(4) [OF thread_moves(6)] crit assms(3) i show ?thesis by simp
    next
      case False
      have "buffers_ok pc s" using conc_invD(11) [OF assms(2) i] thread_moves(3) by simp
      with False step_outside(2) [OF thread_moves(6)] crit \<open>\<not> takes_mutex (fst (cs ! i)) pc\<close> show ?thesis by simp
    qed
  qed
  with assms(4) thread_moves(1) show ?thesis
    by (auto simp: held_inside_def dest!: set_update_subset_insert [THEN subsetD])
qed

lemma held_inside_run:
  assumes "(conc_step api cs)\<^sup>*\<^sup>* (conc_start cs d) c" "\<forall>t \<in> set cs. unlock_ret (fst t) = 0"
  shows "held_inside c"
  using assms(1)
proof (induction rule: rtranclp_induct)
  case base
  show ?case by (auto simp: held_inside_def conc_start_def)
next
  case (step c c')
  from held_inside_step [OF step.hyps(2) conc_inv_run [OF step.hyps(1)] assms(2) step.IH] show ?case .
qed

text \<open>After unlocking a thread no longer changes the file.\<close>

lemma finish_outside_dev:
  assumes "finish env api pc s = Some (Inr (pc', s'))" "\<not> in_critical pc" "\<not> before_lock pc" "buffers_ok pc s"
  shows "t_dev s' = t_dev s"
proof -
  have c: "t_dev s1 = t_dev s" if "close_file api rt err s = Inr s1" "pc = Close_File" for rt err s1
    using close_file_InrD [OF that(1)] that(2) assms(4) by (auto simp: buffers_ok_def)
  show ?thesis
    using assms(1-3)
    by (cases pc)
      (auto simp: finish_Close_File finish_Free_Line finish_Close_Socket err_readline_from_socket_def ended_def ebind_eq_Inr
        err_mutex_lock_def dest: c)
qed

text \<open>
  \<open>ok k\<close> describes files on which every thread, run alone as the \<open>k\<close>-th one, succeeds and leaves a
  file behind on which the next one does.
\<close>

definition served_clients :: "'d out_file \<Rightarrow> (thread_env \<times> aesd_thread_args) list \<Rightarrow> (nat \<Rightarrow> 'd \<Rightarrow> bool) \<Rightarrow> bool" where
  "served_clients api cs ok \<longleftrightarrow> (\<forall>t \<in> set cs. unlock_ret (fst t) = 0) \<and>
     (\<forall>t \<in> set cs. \<forall>k < length cs. \<forall>d. ok k d \<longrightarrow>
        (\<exists>s. sock_thread_func (fst t) api (snd t) d = Some (Inr s) \<and> ok (Suc k) (t_dev s)))"

lemma whole_succeeds:
  "served_clients api cs ok \<Longrightarrow> i < length cs \<Longrightarrow> k < length cs \<Longrightarrow> ok k d \<Longrightarrow>
     \<exists>s. whole api cs i d = Some (Inr (Returned, s)) \<and> ok (Suc k) (t_dev s)"
  by (simp add: served_clients_def whole_Returned)

lemma length_order: "conc_inv api cs d0 c \<Longrightarrow> length (c_order c) \<le> length cs"
  using conc_invD(2,3) [of api cs d0 c] card_mono [of "{..<length cs}" "locked_once c"] distinct_card [of "map fst (c_order c)"]
  by (simp add: locked_once_def)

lemma devs_ok:
  assumes inv: "conc_inv api cs d0 c" and served: "served_clients api cs ok" and "ok 0 d0" "k < length (c_order c)"
  shows "ok k (devs c ! k)"
  using assms(4)
proof (induction k)
  case 0
  with conc_invD(4) [OF inv] \<open>ok 0 d0\<close> show ?case by (cases "devs c") (simp_all add: devs_def)
next
  case (Suc k)
  note inv' = conc_invD [OF inv]
  let ?i = "fst (c_order c ! k)"
  have k: "k < length (c_order c)" using Suc.prems by simp
  note i = conc_order_nth [OF inv k]
  obtain s where s: "rest api cs c ?i (devs c ! Suc k) = Some (Inr (Returned, s))" "ok (Suc k) (t_dev s)"
    using whole_succeeds [OF served, of ?i k "devs c ! k"] length_order [OF inv] Suc.IH k i inv'(5) [OF k] by auto
  have "fst (last (c_order c)) \<noteq> ?i"
    using inv'(2) Suc.prems by (subst last_conv_nth) (auto simp: distinct_conv_nth)
  then have "\<not> in_critical (fst (c_threads c ! ?i))" using inv'(8,9) [of ?i] inv'(10) i by auto
  moreover have "\<not> before_lock (fst (c_threads c ! ?i))" using inv'(7) [of ?i] i by auto
  ultimately have "t_dev s = devs c ! Suc k" using finish_outside_dev [OF s(1) [unfolded rest_def]] inv'(11) [of ?i] i by simp
  with s(2) show ?case by simp
qed

lemma inv_not_stuck:
  assumes inv: "conc_inv api cs d0 c" and held: "held_inside c" and served: "served_clients api cs ok" and "ok 0 d0"
    and nr: "\<not> all_returned c"
  shows "\<exists>c'. conc_step api cs c c'"
proof -
  note inv' = conc_invD [OF inv]
  have step: "\<exists>c'. conc_step api cs c c'"
    if "i < length cs" "c_threads c ! i = (pc, s)" "pc \<noteq> Returned" "takes_mutex (fst (cs ! i)) pc \<Longrightarrow> c_owner c = None"
      "thread_step (fst (cs ! i)) api pc (s\<lparr>t_dev := c_dev c\<rparr>) = Some (Inr (pc', s'))" for i pc s pc' s'
    using conc_step.intros [of i c pc s cs api pc' s'] that inv'(1) by auto
  show ?thesis
  proof (cases "c_owner c")
    case (Some i)
    let ?k = "length (c_order c) - 1"
    have k: "?k < length (c_order c)" "fst (c_order c ! ?k) = i" "devs c ! Suc ?k = c_dev c"
      using inv'(10) [OF Some] by (auto simp: last_conv_nth devs_def nth_append)
    then have i: "i < length cs" using conc_order_nth [OF inv] by metis
    obtain pc s where t: "c_threads c ! i = (pc, s)" by (cases "c_threads c ! i")
    have "mtx_held s" using inv'(9) [OF i] Some t by simp
    then have crit: "in_critical pc"
      using held nth_mem [of i "c_threads c"] i inv'(1) t by (force simp: held_inside_def)
    obtain s1 where "rest api cs c i (c_dev c) = Some (Inr (Returned, s1))"
      using whole_succeeds [OF served i _ devs_ok [OF inv served \<open>ok 0 d0\<close> k(1)]] length_order [OF inv] inv'(5) [OF k(1)] k by auto
    with t have "finish (fst (cs ! i)) api pc (s\<lparr>t_dev := c_dev c\<rparr>) = Some (Inr (Returned, s1))" by (simp add: rest_def)
    from thread_step_total [OF this] obtain pc' s' where
      "thread_step (fst (cs ! i)) api pc (s\<lparr>t_dev := c_dev c\<rparr>) = Some (Inr (pc', s'))" by blast
    from step [OF i t _ _ this] crit show ?thesis by (cases pc) auto
  next
    case None
    from nr obtain i where i: "i < length cs" "fst (c_threads c ! i) \<noteq> Returned"
      using inv'(1) by (auto simp: all_returned_def in_set_conv_nth)
    obtain pc s where t: "c_threads c ! i = (pc, s)" by (cases "c_threads c ! i")
    have out: "\<not> in_critical pc" using inv'(8,9) [OF i(1)] None t by auto
    have "\<exists>d s1. rest api cs c i d = Some (Inr (Returned, s1))"
    proof (cases "i \<in> locked_once c")
      case True
      then obtain k where k: "k < length (c_order c)" "fst (c_order c ! k) = i"
        by (auto simp: locked_once_def in_set_conv_nth)
      obtain s1 where "whole api cs i (devs c ! k) = Some (Inr (Returned, s1))"
        using whole_succeeds [OF served i(1) _ devs_ok [OF inv served \<open>ok 0 d0\<close> k(1)]] length_order [OF inv] k(1) by auto
      with inv'(5) [OF k(1)] k(2) show ?thesis by metis
    next
      case False
      show ?thesis using whole_succeeds [OF served i(1) _ \<open>ok 0 d0\<close>] i(1) inv'(6) [OF i(1) False] by fastforce
    qed
    then obtain d pc' s' where "thread_step (fst (cs ! i)) api pc (s\<lparr>t_dev := d\<rparr>) = Some (Inr (pc', s'))"
      using t thread_step_total by (fastforce simp: rest_def)
    then have "\<exists>s2. thread_step (fst (cs ! i)) api pc (s\<lparr>t_dev := c_dev c\<rparr>) = Some (Inr (pc', s2))"
      using inv'(11) [OF i(1)] t by (auto simp: step_any_dev [OF out] ebind_eq_Inr)
    with step [OF i(1) t _ None] i(2) t show ?thesis by auto
  qed
qed

lemma never_stuck:
  assumes "(conc_step api cs)\<^sup>*\<^sup>* (conc_start cs d0) c" "served_clients api cs ok" "ok 0 d0" "\<not> all_returned c"
  shows "\<exists>c'. conc_step api cs c c'"
  using inv_not_stuck [OF conc_inv_run [OF assms(1)] held_inside_run [OF assms(1)] assms(2-4)] assms(2)
  by (simp add: served_clients_def)

text \<open>How many steps all threads together have left.\<close>

definition remaining :: "'d conc \<Rightarrow> nat" where
  "remaining c = sum_list (map (steps_left \<circ> fst) (c_threads c))"

lemma remaining_step:
  assumes "conc_step api cs c c'"
  shows "remaining c' < remaining c"
  using assms
proof (cases rule: conc_step.cases)
  case (thread_moves i pc s pc' s')
  let ?xs = "map (steps_left \<circ> fst) (c_threads c)"
  have "?xs ! i = steps_left pc" "i < length ?xs" using thread_moves by simp_all
  moreover have "steps_left pc' < steps_left pc" using thread_step_left thread_moves by blast
  moreover have "map (steps_left \<circ> fst) (c_threads c') = ?xs[i := steps_left pc']"
    using thread_moves(1) by (simp add: map_update)
  moreover have "?xs ! i \<le> sum_list ?xs" using thread_moves(2) by (intro member_le_sum_list) auto
  ultimately show ?thesis by (simp add: remaining_def sum_list_update del: map_map nth_map)
qed

lemma remaining_start [simp]: "remaining (conc_start cs d) = 12 * length cs"
  by (induction cs) (auto simp: remaining_def conc_start_def)

lemma run_remaining: "(conc_step api cs ^^ m) c0 c \<Longrightarrow> m + remaining c \<le> remaining c0"
proof (induction m arbitrary: c)
  case (Suc m)
  then obtain c1 where "(conc_step api cs ^^ m) c0 c1" "conc_step api cs c1 c" by auto
  with Suc.IH remaining_step show ?case by fastforce
qed simp

text \<open>The thread alone would have returned in the same state, with \<open>finished\<close> set.\<close>

lemma whole_finished: "whole api cs i d = Some (Inr (pc, s)) \<Longrightarrow> finished (t_args s)"
  using sock_thread_ends [of "fst (cs ! i)" api "snd (cs ! i)" d]
  by (auto simp: whole_def ended_def ebind_eq_Inr ends_well_def released_def)

lemma returned_finished:
  assumes inv: "conc_inv api cs d0 c" and i: "i < length cs" and ret: "fst (c_threads c ! i) = Returned"
  shows "finished (t_args (snd (c_threads c ! i)))"
proof -
  have rest: "rest api cs c i d = Some (Inr (Returned, (snd (c_threads c ! i))\<lparr>t_dev := d\<rparr>))" for d using ret by (simp add: rest_def)
  have "\<exists>d d'. rest api cs c i d = whole api cs i d'"
  proof (cases "i \<in> locked_once c")
    case True
    then obtain k where "k < length (c_order c)" "fst (c_order c ! k) = i" by (auto simp: locked_once_def in_set_conv_nth)
    with conc_invD(5) [OF inv] show ?thesis by blast
  next
    case False
    with conc_invD(6) [OF inv i] show ?thesis by blast
  qed
  then obtain d d' where "whole api cs i d' = Some (Inr (Returned, (snd (c_threads c ! i))\<lparr>t_dev := d\<rparr>))" using rest by metis
  from whole_finished [OF this] show ?thesis by simp
qed

lemma returned_no_step:
  assumes "all_returned c"
  shows "\<not> conc_step api cs c c'"
proof
  assume "conc_step api cs c c'"
  then obtain i where "i < length (c_threads c)" "fst (c_threads c ! i) \<noteq> Returned" by cases auto
  with assms show False by (simp add: all_returned_def)
qed

text \<open>From every state the threads have reached they can run to their ends.\<close>

lemma inv_completes:
  assumes "conc_inv api cs d0 c" "held_inside c" and served: "served_clients api cs ok" and "ok 0 d0"
  shows "\<exists>c'. (conc_step api cs)\<^sup>*\<^sup>* c c' \<and> all_returned c'"
  using assms(1,2)
proof (induction "remaining c" arbitrary: c rule: less_induct)
  case less
  show ?case
  proof (cases "all_returned c")
    case False
    from inv_not_stuck [OF less.prems served \<open>ok 0 d0\<close> False] obtain c1 where c1: "conc_step api cs c c1" by blast
    have "held_inside c1" using held_inside_step [OF c1 less.prems(1) _ less.prems(2)] served by (simp add: served_clients_def)
    from less.hyps [OF remaining_step [OF c1] conc_inv_step [OF c1 less.prems(1)] this] c1 show ?thesis
      by (meson converse_rtranclp_into_rtranclp)
  qed blast
qed

lemma held_inside_start: "held_inside (conc_start cs d)"
  by (auto simp: held_inside_def conc_start_def)

lemma complete_run_exists:
  assumes "served_clients api cs ok" "ok 0 d"
  shows "\<exists>c. (conc_step api cs)\<^sup>*\<^sup>* (conc_start cs d) c \<and> all_returned c"
  by (rule inv_completes [OF conc_start_inv held_inside_start assms])

lemma list_all2_permuted:
  assumes "list_all2 P xs ys" "set is \<subseteq> {..<length xs}"
  shows "list_all2 P (map ((!) xs) is) (map ((!) ys) is)"
proof -
  have "is ! j < length xs" if "j < length is" for j using nth_mem [OF that] assms(2) by auto
  with assms(1) show ?thesis by (simp add: list_all2_conv_all_nth)
qed

context log_file
begin

lemma plain_clients_served:
  assumes "list_all2 (\<lambda>c l. plain_client n (fst c) l \<and> length l \<le> m) cs ls" "m < bound" "10 * m \<le> n" "n < 2 ^ 63"
  shows "served_clients api cs (\<lambda>k. short_log m)"
proof -
  have "\<exists>l. plain_client n (fst t) l \<and> length l \<le> m" if "t \<in> set cs" for t
    using that assms(1) by (auto simp: list_all2_conv_all_nth in_set_conv_nth)
  then show ?thesis
    using plain_client_served [OF _ _ _ assms(2-4)] by (fastforce simp: served_clients_def plain_client_def all_calls_succeed_def)
qed

end

section \<open>Properties\<close>

text \<open>A file that keeps the last line written, for the examples.\<close>

definition ex_cell :: "bytes out_file" where
  "ex_cell = \<lparr>of_write = (\<lambda>l d. Inr (length l, l, d)), of_flush = (\<lambda>l d. Inr (0, l)), of_seek = (\<lambda>sk d. Inr (- 1, 0)),
     of_contents = (\<lambda>p d. Some (drop (unat p) d))\<rparr>"

lemma ex_cell_thread:
  "\<exists>s. sock_thread_func ex_tenv ex_cell args d = Some (Inr s) \<and> t_dev s = ''y'' @ [newline] \<and> t_sent s = ''y'' @ [newline]"
proof -
  have "\<not> (use_char_device ex_tenv \<and> is_ctrl_line (''y'' @ [newline]))" by (simp add: is_ctrl_line_def)
  from thread_appends_and_echoes [OF ex_tenv_ok ex_tenv_line this, of ex_cell d "''y'' @ [newline]" "''y'' @ [newline]" args]
  show ?thesis by (auto simp: ex_cell_def ex_tenv_def of_append_def)
qed

lemma ex_cell_served: "served_clients ex_cell (replicate n (ex_tenv, ex_args)) (\<lambda>k d. True)"
  using ex_cell_thread ex_tenv_ok by (fastforce simp: served_clients_def all_calls_succeed_def)

lemma ex_cell_run:
  "\<exists>c. (conc_step ex_cell (replicate n (ex_tenv, ex_args)))\<^sup>*\<^sup>* (conc_start (replicate n (ex_tenv, ex_args)) d) c \<and> all_returned c"
  by (rule complete_run_exists [OF ex_cell_served]) simp

text \<open>
  Run without interruption, the steps of a thread are \<open>sock_thread_func\<close>, and twelve of them are enough
  for every path of the code.
\<close>

lemma thread_steps_are_sock_thread_func:
  "thread_steps 12 env api Read_Line (thread_start args d) = ended (sock_thread_func env api args d)"
  using finish_Read_Line [of env api args d] by (simp add: finish_def)

text \<open>
  C11: Whatever the interleaving of the client threads and whatever the library calls answer, at most
  one thread is between lock and unlock, and the only thread whose step changes the output file
  is the one that holds the mutex.
\<close>

theorem client_threads_exclude_each_other:
  assumes "(conc_step api cs)\<^sup>*\<^sup>* (conc_start cs d) c"
  shows "(\<forall>i < length cs. \<forall>j < length cs. in_critical (fst (c_threads c ! i)) \<longrightarrow> in_critical (fst (c_threads c ! j)) \<longrightarrow>
      i = j \<and> c_owner c = Some i) \<and>
    (\<forall>c'. conc_step api cs c c' \<longrightarrow> c_dev c' \<noteq> c_dev c \<longrightarrow>
      (\<exists>i < length cs. c_owner c = Some i \<and> (\<forall>j. j \<noteq> i \<longrightarrow> c_threads c' ! j = c_threads c ! j)))"
proof -
  note inv = conc_inv_run [OF assms]
  have "\<exists>i < length cs. c_owner c = Some i \<and> (\<forall>j. j \<noteq> i \<longrightarrow> c_threads c' ! j = c_threads c ! j)"
    if "conc_step api cs c c'" "c_dev c' \<noteq> c_dev c" for c'
    using that(1)
  proof (cases rule: conc_step.cases)
    case (thread_moves i pc s pc' s')
    have i: "i < length cs" using thread_moves(2) conc_invD(1) [OF inv] by simp
    have "in_critical pc"
      using step_outside(1) [OF thread_moves(6)] step_lock(1) [OF thread_moves(6)] conc_invD(11) [OF inv i] that(2) thread_moves(1,3)
      by auto
    with thread_moves conc_invD(8,9) [OF inv i] i show ?thesis by auto
  qed
  moreover have "i = j \<and> c_owner c = Some i"
    if "i < length cs" "j < length cs" "in_critical (fst (c_threads c ! i))" "in_critical (fst (c_threads c ! j))" for i j
    using conc_invD(8,9) [OF inv that(1)] conc_invD(8,9) [OF inv that(2)] that(3,4) by auto
  ultimately show ?thesis by blast
qed

theorem client_threads_exclude_each_other_witness:
  "\<exists>c. (conc_step ex_cell (replicate 3 (ex_tenv, ex_args)))\<^sup>*\<^sup>* (conc_start (replicate 3 (ex_tenv, ex_args)) []) c \<and> all_returned c \<and>
     (\<forall>i < length (replicate 3 (ex_tenv, ex_args)). \<forall>j < length (replicate 3 (ex_tenv, ex_args)).
        in_critical (fst (c_threads c ! i)) \<longrightarrow> in_critical (fst (c_threads c ! j)) \<longrightarrow> i = j \<and> c_owner c = Some i)"
  using ex_cell_run [of 3 "[]"] client_threads_exclude_each_other [of ex_cell "replicate 3 (ex_tenv, ex_args)" "[]"] by blast

text \<open>
  Interleaving the client threads changes nothing: in every complete run, whatever the schedule
  and whichever of the threads' calls fail, the clients receive what they would receive, and the
  output file ends as it would end, if the threads ran one after the other in some order.
\<close>

theorem concurrent_run_is_serial:
  assumes "(conc_step api cs)\<^sup>*\<^sup>* (conc_start cs d) c" "all_returned c"
  shows "\<exists>is. distinct is \<and> set is = {..<length cs} \<and>
    serve_all api (map ((!) cs) is) d = Some (Inr (map (sent_to c) is, c_dev c))"
  using conc_inv_serial [OF conc_inv_run [OF assms(1)] assms(2)] serial_order_perm [OF conc_inv_run [OF assms(1)]] by blast

theorem concurrent_run_is_serial_witness:
  "\<exists>c is. (conc_step ex_cell (replicate 3 (ex_tenv, ex_args)))\<^sup>*\<^sup>* (conc_start (replicate 3 (ex_tenv, ex_args)) []) c \<and>
     all_returned c \<and> set is = {..<length (replicate 3 (ex_tenv, ex_args))} \<and>
     serve_all ex_cell (map ((!) (replicate 3 (ex_tenv, ex_args))) is) [] = Some (Inr (map (sent_to c) is, c_dev c))"
  using ex_cell_run [of 3 "[]"] concurrent_run_is_serial [of ex_cell "replicate 3 (ex_tenv, ex_args)" "[]"] by blast

text \<open>
  C23: The client threads do not block each other for ever: if each of them returns when it runs alone on
  the file, whichever it is of the \<open>n\<close> clients, then every schedule of all of them comes to an end
  after at most \<open>12 n\<close> steps, and it ends only when every thread has returned, with the mutex free: as
  long as one has not, some thread can go on.
\<close>

theorem client_threads_never_deadlock:
  assumes "served_clients api cs ok" "ok 0 d" "(conc_step api cs ^^ m) (conc_start cs d) c"
  shows "m \<le> 12 * length cs \<and> ((\<exists>c'. conc_step api cs c c') \<or>
    (\<forall>i < length cs. fst (c_threads c ! i) = Returned \<and> finished (t_args (snd (c_threads c ! i)))) \<and> c_owner c = None)"
proof -
  have run: "(conc_step api cs)\<^sup>*\<^sup>* (conc_start cs d) c" using assms(3) by (rule relpowp_imp_rtranclp)
  note inv = conc_inv_run [OF run]
  have "m + remaining c \<le> 12 * length cs" using run_remaining [OF assms(3)] by simp
  moreover have "(\<exists>c'. conc_step api cs c c') \<or> all_returned c" using never_stuck [OF run assms(1,2)] by blast
  moreover have "(\<forall>i < length cs. fst (c_threads c ! i) = Returned \<and> finished (t_args (snd (c_threads c ! i)))) \<and> c_owner c = None"
    if "all_returned c"
  proof -
    have ret: "fst (c_threads c ! i) = Returned" if "i < length cs" for i
      using that \<open>all_returned c\<close> conc_invD(1) [OF inv] by (simp add: all_returned_def)
    moreover have "finished (t_args (snd (c_threads c ! i)))" if "i < length cs" for i
      using returned_finished [OF inv that ret [OF that]] .
    moreover have "c_owner c = None"
    proof (rule ccontr)
      assume "c_owner c \<noteq> None"
      then obtain i where i: "c_owner c = Some i" by blast
      then have l: "i < length cs"
        using conc_invD(10) [OF inv i] conc_order_nth [OF inv, of "length (c_order c) - 1"] by (auto simp: last_conv_nth)
      from conc_invD(9) [OF inv l] i have "mtx_held (snd (c_threads c ! i))" by simp
      then have "in_critical (fst (c_threads c ! i))"
        using held_inside_run [OF run] assms(1) l conc_invD(1) [OF inv] by (auto simp: held_inside_def served_clients_def)
      with ret [OF l] show False by simp
    qed
    ultimately show ?thesis by blast
  qed
  ultimately show ?thesis by (meson add_leD1)
qed

theorem client_threads_never_deadlock_witness:
  "\<exists>m c. (conc_step ex_cell (replicate 3 (ex_tenv, ex_args)) ^^ m) (conc_start (replicate 3 (ex_tenv, ex_args)) []) c \<and>
     m \<le> 36 \<and> c_owner c = None"
proof -
  let ?cs = "replicate 3 (ex_tenv, ex_args)"
  obtain c where c: "(conc_step ex_cell ?cs)\<^sup>*\<^sup>* (conc_start ?cs []) c" "all_returned c" using ex_cell_run [of 3 "[]"] by blast
  then obtain m where m: "(conc_step ex_cell ?cs ^^ m) (conc_start ?cs []) c" by (meson rtranclp_imp_relpowp)
  have "served_clients ex_cell ?cs (\<lambda>k d. True)" by (rule ex_cell_served)
  from client_threads_never_deadlock [OF this _ m] returned_no_step [OF c(2)] m show ?thesis by auto
qed

end
