(* ===== verification/Driver_Props.thy ===== *)
theory Driver_Props
  imports Driver_System
begin

text \<open>
  The properties of the character driver, each with a witness on a concrete device, and
  the concrete states that show where the code departs from its intent.
\<close>

section \<open>Example states\<close>

text \<open>The module before loading, and right after a successful load.\<close>

definition ex_unloaded :: kernel where
  "ex_unloaded = \<lparr>kmem = Map.empty, kcb = Map.empty, aesd_device = zero_dev, aesd_major = 0, aesd_minor = 0,
     regions = {}\<rparr>"

definition ex_loaded :: kernel where
  "ex_loaded = ex_unloaded\<lparr>kcb := [0 \<mapsto> aesd_circular_buffer_init],
     aesd_device := zero_dev\<lparr>buffer := Ptr 0, lock := Mutex_Free, cdev := Cdev_Live 7\<rparr>,
     aesd_major := 7, regions := {7}\<rparr>"

text \<open>A device that holds the commands \<open>ab\n\<close> and \<open>c\n\<close> and the pending byte \<open>x\<close>.\<close>

definition ex_cb :: aesd_circular_buffer where
  "ex_cb = \<lparr>entry = [\<lparr>buffptr = Ptr 1, esize = 3\<rparr>, \<lparr>buffptr = Ptr 2, esize = 2\<rparr>] @ replicate 8 zero_entry,
     in_offs = 2, out_offs = 0, full = False\<rparr>"

definition ex_used :: kernel where
  "ex_used = ex_loaded\<lparr>kcb := [0 \<mapsto> ex_cb],
     kmem := [1 \<mapsto> ''ab'' @ [newline, nul], 2 \<mapsto> ''c'' @ [newline, nul], 3 \<mapsto> ''x'' @ [nul]],
     aesd_device := (aesd_device ex_loaded)\<lparr>tmp_buff_ptr := Ptr 3, tmp_buff_size := 1\<rparr>\<rparr>"

definition ex_file :: kfile where
  "ex_file = \<lparr>private_data = The_Aesd_Device, f_pos = 0\<rparr>"

definition ex_env :: io_env where
  "ex_env = \<lparr>lock_rc = 0, alloc_ret = Ptr 9, fresh_byte = (\<lambda>_. nul), not_copied = 0, access_ok_ret = True,
     user_seekto = \<lparr>write_cmd = 1, write_cmd_offset = 1\<rparr>\<rparr>"

text \<open>A function with the documented behaviour of \<open>fixed_size_llseek\<close>.\<close>

definition ex_llseek :: llseek_fun where
  "ex_llseek filp off whence sz =
     (let t = seek_target filp off whence sz in
      if whence \<in> {SEEK_SET, SEEK_CUR, SEEK_END} \<and> 0 \<le> sint t \<and> sint t \<le> sint sz
      then (t, filp\<lparr>f_pos := t\<rparr>) else (- 22, filp))"

lemma ex_llseek_ok: "fixed_size_llseek_ok ex_llseek"
  by (auto simp: fixed_size_llseek_ok_def ex_llseek_def seek_target_def Let_def)

lemma ex_cb_list: "cb_list ex_cb = [\<lparr>buffptr = Ptr 1, esize = 3\<rparr>, \<lparr>buffptr = Ptr 2, esize = 2\<rparr>]"
  by (simp add: cb_list_def entry_count_def entry_index_def ex_cb_def upt_rec)

lemma ex_cb_wf: "cb_wf ex_cb"
  by (auto simp: ex_cb_def cb_wf_def nth_append nth_Cons')

lemma ex_used_inv: "driver_inv ex_used"
  by (simp add: driver_inv_def drv_inv_def ex_used_def ex_loaded_def ex_unloaded_def zero_dev_def deref_cb_def
      ex_cb_list ex_cb_wf entry_ok_def tmp_ok_def Let_def)

lemma ex_used_code: "pend_ok ex_used \<and> no_leak ex_used"
  by (simp add: pend_ok_def no_leak_def the_cb_def deref_cb_def ex_cb_list
      ex_used_def ex_loaded_def ex_unloaded_def zero_dev_def)

lemma ex_used_log: "abs_log ex_used = \<lparr>hist = [''ab'' @ [newline], ''c'' @ [newline]], pend = ''x''\<rparr>"
  by code_simp

lemma ex_loaded_inv: "driver_inv ex_loaded"
  by (simp add: driver_inv_def drv_inv_def ex_loaded_def ex_unloaded_def zero_dev_def deref_cb_def
      cb_wf_init tmp_ok_def)

lemmas ex_defs = ex_used_def ex_loaded_def ex_unloaded_def ex_file_def ex_env_def zero_dev_def

section \<open>Writing and reading\<close>

text \<open>
  C5: A write of \<open>cnt\<close> bytes for which the kernel provides memory and copies the user's data
  returns \<open>cnt\<close>, advances the position by \<open>cnt\<close>, releases the mutex, keeps the driver's
  invariant, and takes the device from its log to the specified log: the bytes join the
  pending command, and a command that now ends with a newline is appended to the
  history, of which the last ten commands are kept.
\<close>

theorem aesd_write_refines_log:
  assumes "driver_inv k" "pend_ok k" "private_data filp = The_Aesd_Device" "lock_rc env = 0"
    "write_args_ok env k ubuf cnt" "alloc_ret env \<noteq> NULL" "not_copied env = 0"
  shows "\<exists>k'. aesd_write env k filp ubuf cnt fpos = Inr (int (length ubuf), fpos + cnt, k') \<and>
    driver_inv k' \<and> pend_ok k' \<and> abs_log k' = log_write (abs_log k) ubuf"
  by (rule aesd_write_success [OF assms(1,3-7), of fpos]) (use assms(2) in blast)

lemma ex_write_args: "write_args_ok ex_env ex_used (''y'' @ [newline]) 2"
  by (simp add: write_args_ok_def alloc_ok_def krealloc_ok_def ex_defs)

theorem aesd_write_refines_log_witness:
  "\<exists>k'. aesd_write ex_env ex_used ex_file (''y'' @ [newline]) 2 0 = Inr (2, 2, k') \<and>
     abs_log k' = \<lparr>hist = [''ab'' @ [newline], ''c'' @ [newline], ''xy'' @ [newline]], pend = []\<rparr>"
proof -
  have "\<exists>k'. aesd_write ex_env ex_used ex_file (''y'' @ [newline]) 2 0 = Inr (int (length (''y'' @ [newline])), 0 + 2, k') \<and>
    driver_inv k' \<and> pend_ok k' \<and> abs_log k' = log_write (abs_log ex_used) (''y'' @ [newline])"
    by (rule aesd_write_refines_log) (use ex_used_inv ex_used_code ex_write_args in \<open>simp_all add: ex_file_def ex_env_def\<close>)
  then show ?thesis by (auto simp: ex_used_log log_write_def)
qed

text \<open>
  C26: A write that fails returns \<open>-ERESTARTSYS\<close>, \<open>-ENOMEM\<close> or \<open>-EFAULT\<close> according to the first
  call that failed, leaves the position and the history of complete commands unchanged,
  and releases the mutex; unless memory ran out, the pending command is unchanged too.
\<close>

theorem aesd_write_error_paths:
  assumes "driver_inv k" "private_data filp = The_Aesd_Device" "write_args_ok env k ubuf cnt"
    "lock_rc env \<noteq> 0 \<or> alloc_ret env = NULL \<or> not_copied env \<noteq> 0"
  shows "\<exists>k'. aesd_write env k filp ubuf cnt fpos =
      Inr (if lock_rc env \<noteq> 0 then - ERESTARTSYS else if alloc_ret env = NULL then - ENOMEM else - EFAULT, fpos, k') \<and>
    driver_inv k' \<and> hist (abs_log k') = hist (abs_log k) \<and>
    (pend_ok k \<and> (lock_rc env \<noteq> 0 \<or> alloc_ret env \<noteq> NULL) \<longrightarrow> abs_log k' = abs_log k)"
  by (rule aesd_write_failure [OF assms, of fpos]) blast

theorem aesd_write_error_paths_witness:
  "\<exists>k'. aesd_write (ex_env\<lparr>not_copied := 1\<rparr>) ex_used ex_file (''y'' @ [newline]) 2 0 = Inr (- EFAULT, 0, k') \<and>
     driver_inv k' \<and> abs_log k' = abs_log ex_used"
proof -
  have "write_args_ok (ex_env\<lparr>not_copied := 1\<rparr>) ex_used (''y'' @ [newline]) 2"
    by (simp add: write_args_ok_def alloc_ok_def krealloc_ok_def ex_defs)
  with aesd_write_error_paths [OF ex_used_inv, of ex_file "ex_env\<lparr>not_copied := 1\<rparr>" "''y'' @ [newline]" 2 0]
  show ?thesis using ex_used_code by (auto simp: ex_file_def ex_env_def)
qed

text \<open>
  A read returns exactly the bytes of the log that follow the position inside the
  command the position falls in, at most \<open>cnt\<close> of them, together with their number and the
  advanced position, and changes nothing in the driver.
\<close>

theorem aesd_read_refines_log:
  assumes "driver_inv k" "private_data filp = The_Aesd_Device" "lock_rc env = 0" "not_copied env = 0"
  shows "aesd_read env k filp cnt fpos =
    (let bs = log_read (hist (abs_log k)) (unat fpos) (unat cnt)
     in Inr (int (length bs), fpos + of_nat (length bs), bs, k))"
  by (rule aesd_read_success [OF assms])

theorem aesd_read_refines_log_witness:
  "aesd_read ex_env ex_used ex_file 10 1 = Inr (2, 3, ''b'' @ [newline], ex_used)"
  using aesd_read_refines_log [OF ex_used_inv, of ex_file ex_env 10 1]
  by (simp add: ex_used_log log_read_def ex_file_def ex_env_def Let_def)

text \<open>
  C13: A reader that repeats \<open>read\<close> until it returns 0, with any positive count, receives the
  whole rest of the log from its position on, all kept commands in order, and it does so
  within as many calls as there are bytes, plus one.
\<close>

theorem read_to_end_returns_log:
  assumes "driver_inv k" "private_data filp = The_Aesd_Device" "lock_rc env = 0" "not_copied env = 0"
    "cnt \<noteq> 0" "log_size k - unat fpos < fuel"
  shows "read_all fuel env k filp cnt fpos = Some (drop (unat fpos) (concat (hist (abs_log k))))"
  by (rule read_all_complete [OF assms])

theorem read_to_end_returns_log_witness:
  "read_all 6 ex_env ex_used ex_file 2 0 = Some (''ab'' @ [newline] @ ''c'' @ [newline])"
proof -
  have "log_size ex_used = 5" by (simp add: log_size_def ex_used_log)
  then show ?thesis
    using read_to_end_returns_log [OF ex_used_inv, of ex_file ex_env 2 0 6]
    by (simp add: ex_used_log ex_file_def ex_env_def)
qed

text \<open>
  For every sequence of system calls on a loaded device, on any number of open files and
  in any interleaving, in which no write ran out of memory, the log is exactly what the
  successful writes, one after the other, make of the initial log; reads, seeks, failed
  writes, opens and closes leave it alone.
\<close>

theorem driver_runs_refine_log:
  assumes "drv_run ioc fsl s evs s'" "fixed_size_llseek_ok fsl" "sys_inv s" "pend_ok (kern s)"
    "\<forall>ev \<in> set evs. \<not> out_of_memory ev"
  shows "sys_inv s' \<and> abs_log (kern s') = foldl log_write (abs_log (kern s)) (written evs)"
  using drv_run_log [OF assms] by blast

definition ex_sys :: drv_sys where
  "ex_sys = \<lparr>kern = ex_used, files = [4 \<mapsto> ex_file]\<rparr>"

lemma ex_sys_inv: "sys_inv ex_sys"
  using ex_used_inv by (auto simp: sys_inv_def ex_sys_def ex_file_def split: if_splits)

lemma ex_one_write:
  obtains s' where "drv_run ioc ex_llseek ex_sys [Ev_Write 4 (''y'' @ [newline]) 2] s'" "files s' 4 = Some (ex_file\<lparr>f_pos := 2\<rparr>)"
proof -
  obtain k' where k': "aesd_write ex_env ex_used ex_file (''y'' @ [newline]) 2 0 = Inr (2, 2, k')"
    by (rule aesd_write_success [OF ex_used_inv _ _ ex_write_args, where filp = ex_file and fpos = 0])
      (auto simp: ex_file_def ex_env_def)
  let ?s = "ex_sys\<lparr>kern := k', files := (files ex_sys)(4 \<mapsto> ex_file\<lparr>f_pos := 2\<rparr>)\<rparr>"
  have "drv_step ioc ex_llseek ex_sys (Ev_Write 4 (''y'' @ [newline]) 2) ?s"
    by (rule step_write [where env = ex_env and cnt = 2])
      (use k' ex_write_args in \<open>simp_all add: ex_sys_def, simp_all add: ex_file_def\<close>)
  then have "drv_run ioc ex_llseek ex_sys ([] @ [Ev_Write 4 (''y'' @ [newline]) 2]) ?s" by (rule run_snoc [OF run_nil])
  then show thesis using that by simp
qed

theorem driver_runs_refine_log_witness:
  "\<forall>ioc. \<exists>s'. drv_run ioc ex_llseek ex_sys [Ev_Write 4 (''y'' @ [newline]) 2] s' \<and>
     hist (abs_log (kern s')) = [''ab'' @ [newline], ''c'' @ [newline], ''xy'' @ [newline]]"
proof
  fix ioc
  obtain s' where r: "drv_run ioc ex_llseek ex_sys [Ev_Write 4 (''y'' @ [newline]) 2] s'" by (rule ex_one_write)
  have "pend_ok (kern ex_sys)" using ex_used_code by (simp add: ex_sys_def)
  with driver_runs_refine_log [OF r ex_llseek_ok ex_sys_inv] r
  show "\<exists>s'. drv_run ioc ex_llseek ex_sys [Ev_Write 4 (''y'' @ [newline]) 2] s' \<and>
     hist (abs_log (kern s')) = [''ab'' @ [newline], ''c'' @ [newline], ''xy'' @ [newline]]"
    by (auto simp: out_of_memory_def ex_sys_def ex_used_log log_write_def)
qed

text \<open>
  C22: In every state reachable from a loaded device by any sequence of system calls, running
  out of memory included, no file operation on an open file performs an undefined memory
  access: each returns normally and with the mutex released. A write must not be empty
  when no command is pending (\<open>write_args_ok\<close>).
\<close>

theorem driver_never_faults:
  assumes "drv_run ioc fsl s evs s'" "fixed_size_llseek_ok fsl" "sys_inv s" "files s' fd = Some filp"
  shows "driver_inv (kern s')
    \<and> (\<exists>r p bs. aesd_read env (kern s') filp cnt (f_pos filp) = Inr (r, p, bs, kern s'))
    \<and> (write_args_ok env (kern s') ubuf cnt \<longrightarrow>
        (\<exists>r p k'. aesd_write env (kern s') filp ubuf cnt (f_pos filp) = Inr (r, p, k') \<and> driver_inv k'))
    \<and> (\<exists>r filp'. aesd_llseek fsl env (kern s') filp off whence = Inr (r, filp', kern s'))
    \<and> (\<exists>r filp'. aesd_ioctl ioc fsl env (kern s') filp cmd = Inr (r, filp', kern s'))"
proof -
  from drv_run_inv [OF assms(1-3)] assms(4) have i: "driver_inv (kern s')" "private_data filp = The_Aesd_Device"
    by (auto simp: sys_inv_def)
  have "\<exists>r p k'. aesd_write env (kern s') filp ubuf cnt (f_pos filp) = Inr (r, p, k') \<and> driver_inv k'"
    if w: "write_args_ok env (kern s') ubuf cnt"
  proof (cases "lock_rc env = 0 \<and> alloc_ret env \<noteq> NULL \<and> not_copied env = 0")
    case True
    then show ?thesis
      by (elim conjE) (rule aesd_write_success [OF i _ w, of "f_pos filp"], blast+)
  next
    case False
    then have "lock_rc env \<noteq> 0 \<or> alloc_ret env = NULL \<or> not_copied env \<noteq> 0" by blast
    then show ?thesis
      by (rule aesd_write_failure [OF i w, of "f_pos filp"]) blast
  qed
  then show ?thesis
    using i aesd_read_no_fault [OF i] aesd_llseek_no_fault [OF i] aesd_ioctl_no_fault [OF i] by blast
qed

theorem driver_never_faults_witness:
  "\<forall>ioc. \<exists>s'. drv_run ioc ex_llseek ex_sys [Ev_Write 4 (''y'' @ [newline]) 2] s' \<and> driver_inv (kern s') \<and>
     (\<exists>r p bs. aesd_read ex_env (kern s') (ex_file\<lparr>f_pos := 2\<rparr>) 5 2 = Inr (r, p, bs, kern s')) \<and>
     (\<exists>r filp'. aesd_ioctl ioc ex_llseek ex_env (kern s') (ex_file\<lparr>f_pos := 2\<rparr>) 9 = Inr (r, filp', kern s'))"
proof
  fix ioc
  obtain s' where r: "drv_run ioc ex_llseek ex_sys [Ev_Write 4 (''y'' @ [newline]) 2] s'" "files s' 4 = Some (ex_file\<lparr>f_pos := 2\<rparr>)"
    by (rule ex_one_write)
  from driver_never_faults [OF r(1) ex_llseek_ok ex_sys_inv r(2), where env = ex_env and cnt = 5 and cmd = 9] r(1)
  show "\<exists>s'. drv_run ioc ex_llseek ex_sys [Ev_Write 4 (''y'' @ [newline]) 2] s' \<and> driver_inv (kern s') \<and>
     (\<exists>r p bs. aesd_read ex_env (kern s') (ex_file\<lparr>f_pos := 2\<rparr>) 5 2 = Inr (r, p, bs, kern s')) \<and>
     (\<exists>r filp'. aesd_ioctl ioc ex_llseek ex_env (kern s') (ex_file\<lparr>f_pos := 2\<rparr>) 9 = Inr (r, filp', kern s'))"
    by (intro exI [of _ s']) simp
qed

section \<open>Positioning\<close>

text \<open>
  \<open>lseek\<close> to any position from the start to the end of the log, absolute, relative to the
  current position or relative to the end, succeeds and moves the file there; the size it
  is checked against is the length of the log, although the driver adds up all ten slots.
\<close>

theorem aesd_llseek_moves:
  assumes "driver_inv k" "private_data filp = The_Aesd_Device" "lock_rc env = 0" "fixed_size_llseek_ok fsl"
    "whence \<in> {SEEK_SET, SEEK_CUR, SEEK_END}" "t = seek_target filp off whence (of_nat (log_size k))"
    "0 \<le> sint t" "sint t \<le> int (log_size k)"
  shows "aesd_llseek fsl env k filp off whence = Inr (sint t, filp\<lparr>f_pos := t\<rparr>, k)"
proof -
  have "sint (of_nat (log_size k) :: u64) = int (log_size k)"
    using log_size_bound [OF driver_invD [OF assms(1)]] by (intro sint_of_nat_small) simp
  with fixed_size_llseek_inside [OF assms(4,5), of filp off "of_nat (log_size k)"] assms(6-8)
  show ?thesis by (simp add: aesd_llseek_unfold [OF assms(1-3)])
qed

theorem aesd_llseek_moves_witness:
  "aesd_llseek ex_llseek ex_env ex_used ex_file (- 2) SEEK_END = Inr (3, ex_file\<lparr>f_pos := 3\<rparr>, ex_used)"
proof -
  have "log_size ex_used = 5" by (simp add: log_size_def ex_used_log)
  then show ?thesis
    using aesd_llseek_moves [OF ex_used_inv _ _ ex_llseek_ok, of ex_file ex_env SEEK_END 3 "- 2"]
    by (simp add: seek_target_def ex_file_def ex_env_def)
qed

text \<open>
  As long as no command has been evicted (\<open>out_offs = 0\<close>), the \<open>AESDCHAR_IOCSEEKTO\<close> request
  for byte \<open>off\<close> of command \<open>cmd\<close> moves the file to exactly that byte of the log, and fails with
  \<open>-EINVAL\<close>, moving nothing, when there is no such command or byte.
\<close>

theorem ioctl_seekto_finds_command:
  assumes "driver_inv k" "out_offs (the_cb k) = 0" "private_data filp = The_Aesd_Device" "lock_rc env = 0"
    "fixed_size_llseek_ok fsl" "ioc_ok ioc" "access_ok_ret env" "not_copied env = 0"
  shows "aesd_ioctl ioc fsl env k filp (AESDCHAR_IOCSEEKTO ioc) =
    (case log_seek (hist (abs_log k)) (unat (write_cmd (user_seekto env))) (unat (write_cmd_offset (user_seekto env))) of
       None \<Rightarrow> Inr (- EINVAL, filp, k)
     | Some p \<Rightarrow> Inr (0, filp\<lparr>f_pos := of_nat p\<rparr>, k))"
  unfolding aesd_ioctl_seekto [OF assms(6-8)] aesd_adjust_file_offset_refines [OF assms(1-5)]
  by (simp split: option.split)

text \<open>The encoding of \<open>ioctl\<close> numbers most architectures use.\<close>

definition ex_ioc :: ioc_macros where
  "ex_ioc = \<lparr>IOC_TYPE = (\<lambda>c. of_nat (unat c div 2 ^ 8 mod 2 ^ 8)), IOC_NR = (\<lambda>c. of_nat (unat c mod 2 ^ 8)),
     IOC_DIR = (\<lambda>c. of_nat (unat c div 2 ^ 30)), IOC_SIZE = (\<lambda>c. of_nat (unat c div 2 ^ 16 mod 2 ^ 14)),
     IOC_READ = 2, IOC_WRITE = 1,
     IOWR = (\<lambda>t n s. of_nat (3 * 2 ^ 30 + unat s * 2 ^ 16 + unat t * 2 ^ 8 + unat n))\<rparr>"

lemma ex_ioc_decode:
  fixes t n s :: nat
  defines "c \<equiv> 3 * 2 ^ 30 + s * 2 ^ 16 + t * 2 ^ 8 + n"
  assumes "t < 256" "n < 256" "s < 2 ^ 13"
  shows "unat (of_nat c :: u32) = c"
    "c div 2 ^ 8 mod 2 ^ 8 = t" "c mod 2 ^ 8 = n" "c div 2 ^ 16 mod 2 ^ 14 = s" "c div 2 ^ 30 = 3"
proof -
  have c: "c = n + 256 * (t + 256 * (s + 16384 * 3))" by (simp add: c_def)
  have d: "c div 256 = t + 256 * (s + 16384 * 3)" "c mod 256 = n"
    using assms(3) unfolding c div_mult_self2 [OF numeral_neq_zero] mod_mult_self2 by simp_all
  have e: "c div 65536 = s + 16384 * 3"
    using assms d by (simp add: div_mult2_eq [of c 256 256, simplified])
  have f: "c div 1073741824 = 3"
    using assms e by (simp add: div_mult2_eq [of c 65536 16384, simplified])
  show "unat (of_nat c :: u32) = c" using assms by (intro unat_of_nat_u32) simp
  show "c div 2 ^ 8 mod 2 ^ 8 = t" "c mod 2 ^ 8 = n" "c div 2 ^ 16 mod 2 ^ 14 = s" "c div 2 ^ 30 = 3"
    using d(2) f assms(2,4) mod_mult_self2 [of t 256 "s + 16384 * 3"] mod_mult_self2 [of s 16384 3]
    by (simp_all add: d(1) e)
qed

lemma ex_ioc_ok: "ioc_ok ex_ioc"
proof -
  have "unat t < 256" "unat n < 256" "unat s < 2 ^ 13" if "t < 256" "n < 256" "s < 2 ^ 13" for t n s :: u32
    using that by (simp_all add: word_less_nat_alt)
  note d = ex_ioc_decode [OF this]
  show ?thesis
    unfolding ioc_ok_def ex_ioc_def ioc_macros.simps
    by (intro allI impI) (simp only: d of_nat_unat ucast_id, simp)
qed

lemma ex_used_out_offs: "out_offs (the_cb ex_used) = 0"
  by (simp add: the_cb_def deref_cb_def ex_defs ex_cb_def)

theorem ioctl_seekto_finds_command_witness:
  "aesd_ioctl ex_ioc ex_llseek ex_env ex_used ex_file (AESDCHAR_IOCSEEKTO ex_ioc) =
     Inr (0, ex_file\<lparr>f_pos := 4\<rparr>, ex_used)"
  using ioctl_seekto_finds_command [OF ex_used_inv ex_used_out_offs _ _ ex_llseek_ok ex_ioc_ok, of ex_file ex_env]
  by (simp add: ex_used_log log_seek_def ex_file_def ex_env_def)

text \<open>
  An \<open>ioctl\<close> with any command other than \<open>AESDCHAR_IOCSEEKTO\<close> is refused with \<open>-ENOTTY\<close>, or with
  \<open>-EFAULT\<close> when its argument is not accessible, and neither moves the file nor touches the
  device.
\<close>

theorem ioctl_refuses_other_commands:
  assumes "cmd \<noteq> AESDCHAR_IOCSEEKTO ioc"
  shows "aesd_ioctl ioc fsl env k filp cmd = Inr (- ENOTTY, filp, k) \<or>
    \<not> access_ok_ret env \<and> aesd_ioctl ioc fsl env k filp cmd = Inr (- EFAULT, filp, k)"
  using assms by (simp add: aesd_ioctl_def)

theorem ioctl_refuses_other_commands_witness:
  "aesd_ioctl ex_ioc ex_llseek ex_env ex_used ex_file 0 = Inr (- ENOTTY, ex_file, ex_used)"
  using ioctl_refuses_other_commands [of 0 ex_ioc ex_llseek ex_env ex_used ex_file]
  by (simp add: AESDCHAR_IOCSEEKTO_def ex_ioc_def ex_env_def)

section \<open>Loading and unloading\<close>

text \<open>
  When every call of \<open>aesd_init_module\<close> succeeds, it returns 0 and the device is ready: the
  invariant holds, the log is empty, the mutex is free and the character device is live
  under the registered number.
\<close>

theorem module_load_ready:
  assumes "0 \<le> region_rc ienv" "cb_alloc ienv \<noteq> NULL" "cdev_rc ienv = 0"
  shows "\<exists>k'. aesd_init_module ienv MAJOR MKDEV k = Inr (0, k') \<and> driver_inv k' \<and> pend_ok k' \<and>
    abs_log k' = \<lparr>hist = [], pend = []\<rparr> \<and> region_dev ienv \<in> regions k' \<and>
    cdev (aesd_device k') = Cdev_Live (MKDEV (MAJOR (region_dev ienv)) (aesd_minor k))"
proof -
  from assms(2) obtain a where "cb_alloc ienv = Ptr a" by (cases "cb_alloc ienv") auto
  with init_success [OF assms(1) _ assms(3), of a MAJOR MKDEV k] show ?thesis by blast
qed

definition ex_ienv :: init_env where
  "ex_ienv = \<lparr>region_rc = 0, region_dev = 7, cb_alloc = Ptr 0, cdev_rc = 0\<rparr>"

theorem module_load_ready_witness:
  "\<exists>k'. aesd_init_module ex_ienv (\<lambda>d. d) (\<lambda>ma mi. ma) ex_unloaded = Inr (0, k') \<and> driver_inv k' \<and>
     cdev (aesd_device k') = Cdev_Live 7"
  using module_load_ready [of ex_ienv "\<lambda>d. d" "\<lambda>ma mi. ma" ex_unloaded] by (auto simp: ex_ienv_def)

text \<open>
  C28: When any call of \<open>aesd_init_module\<close> fails, the load returns that error (\<open>-ENOMEM\<close> for the
  allocation) and leaves nothing behind: the region it registered is unregistered and the
  circular buffer it allocated is freed.
\<close>

theorem module_load_failure_cleans_up:
  assumes "init_env_ok ienv k" "region_rc ienv < 0 \<or> cb_alloc ienv = NULL \<or> cdev_rc ienv \<noteq> 0"
  shows "\<exists>k'. aesd_init_module ienv MAJOR MKDEV k =
      Inr (if region_rc ienv < 0 then region_rc ienv else if cb_alloc ienv = NULL then - ENOMEM else cdev_rc ienv, k')
    \<and> regions k' = regions k \<and> kcb k' = kcb k \<and> kmem k' = kmem k"
  by (rule init_failure [OF assms])

theorem module_load_failure_cleans_up_witness:
  "\<exists>k'. aesd_init_module (ex_ienv\<lparr>cdev_rc := - 16\<rparr>) (\<lambda>d. d) (\<lambda>ma mi. ma) ex_unloaded = Inr (- 16, k') \<and>
     regions k' = {} \<and> kcb k' = Map.empty"
  using module_load_failure_cleans_up [of "ex_ienv\<lparr>cdev_rc := - 16\<rparr>" ex_unloaded "\<lambda>d. d" "\<lambda>ma mi. ma"]
  by (auto simp: ex_ienv_def init_env_ok_def ex_unloaded_def)

text \<open>
  Unloading frees everything: if every block is still referred to by the log or the pending
  command, and no block is kept by an empty pending command, then after
  \<open>aesd_cleanup_module\<close> no byte block is allocated, the circular buffer is freed (each block
  exactly once, with no invalid free), and the device number is unregistered.
\<close>

theorem module_unload_frees_all:
  assumes "driver_inv k" "no_leak k" "tmp_buff_size (aesd_device k) = 0 \<Longrightarrow> tmp_buff_ptr (aesd_device k) = NULL"
  shows "\<exists>k'. aesd_cleanup_module MKDEV k = Inr k' \<and> kmem k' = Map.empty \<and>
    (\<exists>a. buffer (aesd_device k) = Ptr a \<and> kcb k' = (kcb k)(a := None)) \<and>
    regions k' = regions k - {MKDEV (aesd_major k) (aesd_minor k)} \<and>
    lock (aesd_device k') = Mutex_Destroyed \<and> cdev (aesd_device k') = Cdev_Deleted"
  using cleanup_frees [OF driver_invD [OF assms(1)] assms(3,2)] by blast

theorem module_unload_frees_all_witness:
  "\<exists>k'. aesd_cleanup_module (\<lambda>ma mi. ma) ex_used = Inr k' \<and> kmem k' = Map.empty \<and> kcb k' = Map.empty \<and> regions k' = {}"
proof -
  have "tmp_buff_size (aesd_device ex_used) \<noteq> 0" by (simp add: ex_defs)
  then have "\<exists>k'. aesd_cleanup_module (\<lambda>ma mi. ma) ex_used = Inr k' \<and> kmem k' = Map.empty \<and>
    (\<exists>a. buffer (aesd_device ex_used) = Ptr a \<and> kcb k' = (kcb ex_used)(a := None)) \<and>
    regions k' = regions ex_used - {aesd_major ex_used} \<and>
    lock (aesd_device k') = Mutex_Destroyed \<and> cdev (aesd_device k') = Cdev_Deleted"
    using module_unload_frees_all [OF ex_used_inv, of "\<lambda>ma mi. ma"] ex_used_code by blast
  then show ?thesis by (auto simp: ex_defs)
qed

section \<open>Where the code departs from its intent\<close>

text \<open>
  C39: A write of zero bytes while no command is pending reads the byte before the start of the
  new block (the test for the newline looks at index \<open>tmp_buff_size - 1\<close>): it is a memory
  fault for every state of the device. This is the case \<open>write_args_ok\<close> excludes.
\<close>

theorem empty_write_reads_out_of_bounds:
  assumes "private_data filp = The_Aesd_Device" "lock_rc env = 0" "tmp_buff_size (aesd_device k) = 0"
    "alloc_ret env = Ptr a" "not_copied env = 0"
  shows "aesd_write env k filp ubuf 0 fpos = Inl Out_Of_Bounds"
proof -
  have "unat (- 1 :: u64) \<noteq> 0" by (simp only: unat_eq_0) simp
  with assms show ?thesis
    by (simp add: aesd_write_unfold write_locked_def write_alloc_def kzalloc_def copy_from_user_def
        store_range_def overwrite_def printk_string_def write_commit_def load_byte_def Let_def)
qed

theorem empty_write_reads_out_of_bounds_witness:
  "aesd_write ex_env ex_loaded ex_file [] 0 0 = Inl Out_Of_Bounds"
  by (rule empty_write_reads_out_of_bounds [where a = 9]) (simp_all add: ex_defs)

text \<open>
  When \<open>krealloc_array\<close> fails, the driver overwrites its only pointer to the pending command:
  the bytes accepted by earlier writes are lost and their block is leaked.
\<close>

theorem failed_realloc_leaks:
  assumes "driver_inv k" "private_data filp = The_Aesd_Device" "lock_rc env = 0" "alloc_ret env = NULL"
    "tmp_buff_ptr (aesd_device k) \<noteq> NULL"
  shows "\<exists>k'. aesd_write env k filp ubuf cnt fpos = Inr (- ENOMEM, fpos, k') \<and> pend (abs_log k') = [] \<and> \<not> no_leak k'"
proof -
  let ?k1 = "(mutex_lock k)\<lparr>aesd_device := (aesd_device (mutex_lock k))\<lparr>tmp_buff_ptr := NULL\<rparr>\<rparr>"
  from assms(1) have inv: "drv_inv k" "drv_inv (mutex_lock k)" by (simp_all add: driver_invD)
  note w = write_enomem [OF inv(2) assms(4)]
  obtain b bs where b: "tmp_buff_ptr (aesd_device k) = Ptr b" "kmem k b = Some bs"
    using drv_invD(5) [OF inv(1)] assms(5) by (auto simp: tmp_ok_def split: sum.splits)
  moreover have "Ptr b \<notin> buffptr ` set (cb_list (the_cb k))"
    using drv_invD(6) [OF inv(1)] b(1) by simp
  moreover have "the_cb ?k1 = the_cb k" by (simp add: the_cb_def)
  ultimately have "\<not> no_leak ?k1" unfolding no_leak_def by auto
  then have "\<not> no_leak (mutex_unlock ?k1)" by simp
  moreover have "pend (abs_log (mutex_unlock ?k1)) = []"
    using w(4) by (simp only: mutex_invisible)
  ultimately show ?thesis
    using w(1) assms(2,3) by (simp add: aesd_write_unfold del: mutex_fields mutex_invisible)
qed

theorem failed_realloc_leaks_witness:
  "\<exists>k'. aesd_write (ex_env\<lparr>alloc_ret := NULL\<rparr>) ex_used ex_file (''y'' @ [newline]) 2 0 = Inr (- ENOMEM, 0, k') \<and>
     pend (abs_log k') = [] \<and> \<not> no_leak k'"
  by (rule failed_realloc_leaks [OF ex_used_inv]) (simp_all add: ex_defs)

text \<open>
  A device after eleven writes: ten commands, the newest of which, \<open>long\n\<close>, has replaced the
  oldest in slot 0.
\<close>

definition ex_wrapped_cb :: aesd_circular_buffer where
  "ex_wrapped_cb = \<lparr>entry = \<lparr>buffptr = Ptr 0, esize = 5\<rparr> # map (\<lambda>a. \<lparr>buffptr = Ptr a, esize = 2\<rparr>) [1,2,3,4,5,6,7,8,9],
     in_offs = 1, out_offs = 1, full = True\<rparr>"

definition ex_wrapped :: kernel where
  "ex_wrapped = ex_loaded\<lparr>kcb := [0 \<mapsto> ex_wrapped_cb],
     kmem := (\<lambda>a. if a = 0 then Some (''long'' @ [newline, nul])
                   else if a < 10 then Some (''s'' @ [newline, nul]) else None)\<rparr>"

lemma ex_wrapped_list: "cb_list ex_wrapped_cb =
    map (\<lambda>a. \<lparr>buffptr = Ptr a, esize = 2\<rparr>) [1,2,3,4,5,6,7,8,9] @ [\<lparr>buffptr = Ptr 0, esize = 5\<rparr>]"
  by (simp add: cb_list_def entry_count_def entry_index_def ex_wrapped_cb_def upt_rec nth_Cons')

lemma ex_wrapped_inv: "driver_inv ex_wrapped"
proof -
  have "cb_wf ex_wrapped_cb" by (simp add: cb_wf_def ex_wrapped_cb_def)
  then show ?thesis
    by (simp add: driver_inv_def drv_inv_def ex_wrapped_def ex_loaded_def ex_unloaded_def zero_dev_def deref_cb_def
        ex_wrapped_list entry_ok_def tmp_ok_def block_def Let_def)
qed

text \<open>
  C40: Once the buffer is full, \<open>AESDCHAR_IOCSEEKTO\<close> looks the command up by its slot and no longer by its age:
  in every full buffer the request is answered as if the commands were in the order of the slots, which
  is the log turned by \<open>out_offs\<close>. As soon as a command was evicted (\<open>out_offs\<close> is not 0), the request
  for the first byte of the second oldest command, which starts where the oldest one ends, moves the
  file to the length of the command in slot 0 instead.
\<close>

theorem ioctl_seekto_wrong_after_wrap:
  assumes "driver_inv k" "full (the_cb k)" "private_data filp = The_Aesd_Device" "lock_rc env = 0" "fixed_size_llseek_ok fsl"
  defines "h \<equiv> hist (abs_log k)" and "q \<equiv> unat (out_offs (the_cb k))"
  shows "aesd_adjust_file_offset fsl env k filp cmd off =
      (case log_seek (rotate (10 - q) h) (unat cmd) (unat off) of
         None \<Rightarrow> Inr (- EINVAL, filp, k) | Some p \<Rightarrow> Inr (0, filp\<lparr>f_pos := of_nat p\<rparr>, k)) \<and>
    (q \<noteq> 0 \<longrightarrow> log_seek h 1 0 = Some (length (h ! 0)) \<and>
      aesd_adjust_file_offset fsl env k filp 1 0 = Inr (0, filp\<lparr>f_pos := of_nat (length (h ! (10 - q)))\<rparr>, k))"
proof -
  note f = hist_full [OF driver_invD [OF assms(1)] assms(2), folded h_def q_def]
  have a: "aesd_adjust_file_offset fsl env k filp cmd off = (case log_seek (rotate (10 - q) h) (unat cmd) (unat off) of
         None \<Rightarrow> Inr (- EINVAL, filp, k) | Some p \<Rightarrow> Inr (0, filp\<lparr>f_pos := of_nat p\<rparr>, k))" for cmd off
    using aesd_adjust_file_offset_slots [OF assms(1) f(5,4) assms(3-5)] by (simp add: slot_order_def h_def q_def)
  have "log_seek (rotate (10 - q) h) 1 0 = Some (length (h ! (10 - q)))" if "q \<noteq> 0"
  proof -
    have "rotate (10 - q) h ! 0 = h ! (10 - q)" "rotate (10 - q) h ! 1 = h ! (Suc (10 - q) mod 10)"
      using f(1,3) that by (simp_all add: nth_rotate)
    moreover have "h ! (Suc (10 - q) mod 10) \<noteq> []" using f(2) by simp
    ultimately show ?thesis using f(1) by (simp add: log_seek_def take_Suc_conv_app_nth)
  qed
  moreover have "log_seek h 1 0 = Some (length (h ! 0))" using f(1) f(2) [of 1] by (simp add: log_seek_def take_Suc_conv_app_nth)
  ultimately show ?thesis using a by simp
qed

text \<open>In the example the second command starts at byte 2, and the request moves the file to byte 5.\<close>

theorem ioctl_seekto_wrong_after_wrap_witness:
  "log_seek (hist (abs_log ex_wrapped)) 1 0 = Some 2 \<and>
   aesd_adjust_file_offset ex_llseek ex_env ex_wrapped ex_file 1 0 = Inr (0, ex_file\<lparr>f_pos := 5\<rparr>, ex_wrapped)"
proof -
  have cb: "the_cb ex_wrapped = ex_wrapped_cb" by (simp add: the_cb_def ex_wrapped_def ex_loaded_def ex_unloaded_def zero_dev_def deref_cb_def)
  have h: "length (hist (abs_log ex_wrapped) ! 0) = 2" "length (hist (abs_log ex_wrapped) ! 9) = 5" by code_simp+
  have "full (the_cb ex_wrapped)" "unat (out_offs (the_cb ex_wrapped)) = 1" "private_data ex_file = The_Aesd_Device" "lock_rc ex_env = 0"
    by (simp_all add: cb ex_wrapped_cb_def ex_file_def ex_env_def)
  with ioctl_seekto_wrong_after_wrap [OF ex_wrapped_inv _ _ _ ex_llseek_ok, of ex_file ex_env, THEN conjunct2] h show ?thesis by simp
qed

end
