(* ===== verification/Server_Device.thy ===== *)
theory Server_Device
  imports Server_Concurrent Driver_Props
begin

text \<open>
  The character device as the server's output file. Appending a line through \<open>stdio\<close> becomes one
  or more \<open>write\<close> system calls on a newly opened file, all but the last in \<open>fwrite\<close> and the last in
  \<open>fclose\<close> (\<open>aesd_write\<close> only passes the file position on, which is left at 0), reading to the end becomes \<open>read\<close> calls
  until one returns 0, and the \<open>ioctl\<close> goes to \<open>aesd_ioctl\<close>. The part of the C library and the
  kernel in between is the record \<open>host\<close>; \<open>host_ok\<close> states what is assumed of it. The device
  then meets the contract \<open>log_file\<close> of the server's threads.
\<close>

section \<open>The host\<close>

record host =
  h_alloc :: "kernel \<Rightarrow> u64 \<Rightarrow> io_env"    \<comment> \<open>what the kernel does during a \<open>write\<close> of that many bytes\<close>
  h_split :: "bytes \<Rightarrow> bytes list"        \<comment> \<open>the pieces in which \<open>stdio\<close> writes a buffer\<close>
  h_io :: io_env                          \<comment> \<open>what the kernel does during \<open>read\<close> and \<open>ioctl\<close>\<close>
  h_bufsize :: u64                        \<comment> \<open>the count \<open>stdio\<close> passes to \<open>read\<close>\<close>
  h_ioc :: ioc_macros
  h_llseek :: llseek_fun

text \<open>
  Memory does not run out, user memory is accessible, locking is not interrupted; \<open>stdio\<close> writes
  the buffer in non-empty pieces, in order; the kernel functions behave as documented.
\<close>

definition host_ok :: "host \<Rightarrow> bool" where
  "host_ok h \<longleftrightarrow>
     (\<forall>k n. finite (dom (kmem k)) \<longrightarrow> unat (tmp_buff_size (aesd_device k)) + unat n + 1 < 2 ^ 40 \<longrightarrow>
        (let env = h_alloc h k n in
         lock_rc env = 0 \<and> not_copied env = 0 \<and> alloc_ret env \<noteq> NULL \<and> alloc_ok env k n)) \<and>
     (\<forall>l. concat (h_split h l) = l \<and> [] \<notin> set (h_split h l)) \<and>
     lock_rc (h_io h) = 0 \<and> not_copied (h_io h) = 0 \<and> access_ok_ret (h_io h) \<and> h_bufsize h \<noteq> 0 \<and>
     ioc_ok (h_ioc h) \<and> fixed_size_llseek_ok (h_llseek h)"

section \<open>The device file\<close>

definition opened :: kfile where
  "opened = snd (aesd_open \<lparr>i_cdev = The_Aesd_Device\<rparr> new_file)"

fun chr_writes :: "host \<Rightarrow> bytes list \<Rightarrow> u64 \<Rightarrow> kernel \<Rightarrow> fault + (int \<times> kernel)" where
  "chr_writes h [] fpos k = Inr (0, k)"
| "chr_writes h (b # bs) fpos k =
     (let n = of_nat (length b) in
      ebind (aesd_write (h_alloc h k n) k opened b n fpos) (\<lambda>(r, fpos', k').
        if r < 0 then Inr (- r, k') else chr_writes h bs fpos' k'))"

definition chr_file :: "host \<Rightarrow> kernel out_file" where
  "chr_file h = \<lparr>
     of_write = (\<lambda>l k. ebind (chr_writes h (butlast (h_split h l)) 0 k) (\<lambda>(e, k').
       Inr (if e = 0 then (length l, if h_split h l = [] then [] else last (h_split h l), k') else (0, [], k')))),
     of_flush = (\<lambda>buf k. chr_writes h [buf] 0 k),
     of_seek = (\<lambda>sk k.
       ebind (aesd_ioctl (h_ioc h) (h_llseek h) ((h_io h)\<lparr>user_seekto := sk\<rparr>) k opened (AESDCHAR_IOCSEEKTO (h_ioc h)))
         (\<lambda>(r, filp, _). Inr (if r < 0 then - 1 else r, f_pos filp))),
     of_contents = (\<lambda>p k. read_all (Suc (log_size k)) (h_io h) k opened (h_bufsize h) p)\<rparr>"

section \<open>The device meets the contract\<close>

lemma opened_fields [simp]: "private_data opened = The_Aesd_Device" "f_pos opened = 0"
  by (simp_all add: opened_def aesd_open_def new_file_def)

definition chr_inv :: "host \<Rightarrow> kernel \<Rightarrow> bool" where
  "chr_inv h k \<longleftrightarrow> host_ok h \<and> driver_inv k \<and> pend_ok k \<and> finite (dom (kmem k))"

text \<open>A write allocates at most one block.\<close>

lemma kfree_finite: "kfree m p = Inr m' \<Longrightarrow> finite (dom m) \<Longrightarrow> finite (dom m')"
  by (auto simp: kfree_def split: ptr.splits option.splits)

lemma store_range_finite: "store_range m p off ds = Inr m' \<Longrightarrow> finite (dom m) \<Longrightarrow> finite (dom m')"
  by (auto simp: store_range_def split: ptr.splits option.splits if_splits)

lemma krealloc_finite: "krealloc_array m old p n junk = Inr m' \<Longrightarrow> finite (dom m) \<Longrightarrow> finite (dom m')"
  by (cases p) (auto simp: krealloc_array_def ebind_eq_Inr dest: kfree_finite)

lemma write_alloc_finite: "write_alloc env k cnt = Inr k' \<Longrightarrow> finite (dom (kmem k)) \<Longrightarrow> finite (dom (kmem k'))"
  by (auto simp: write_alloc_def Let_def kzalloc_def ebind_eq_Inr dest: krealloc_finite split: if_splits ptr.splits)

lemma write_commit_finite: "write_commit k = Inr k' \<Longrightarrow> finite (dom (kmem k)) \<Longrightarrow> finite (dom (kmem k'))"
  by (auto simp: write_commit_def Let_def ebind_eq_Inr dest: kfree_finite split: if_splits)

lemma aesd_write_finite:
  assumes "aesd_write env k filp ubuf cnt fpos = Inr (r, p, k')" "finite (dom (kmem k))"
  shows "finite (dom (kmem k'))"
proof -
  have "finite (dom (kmem k2))" if "write_locked env k1 ubuf cnt fpos = Inr (r, q, k2)" "finite (dom (kmem k1))"
    for k1 k2 r q
    using that by (auto simp: write_locked_def Let_def ebind_eq_Inr copy_from_user_def
        dest!: write_alloc_finite store_range_finite write_commit_finite split: if_splits)
  then show ?thesis
    using assms by (auto simp: aesd_write_def ebind_eq_Inr split: if_splits)
qed

text \<open>Writing a line in pieces is writing the line: only its last byte can be a newline.\<close>

lemma log_write_pieces:
  assumes "newline \<notin> set (butlast (concat bs))" "[] \<notin> set bs" "bs \<noteq> []"
  shows "foldl log_write s bs = log_write s (concat bs)"
  using assms
proof (induction bs arbitrary: s)
  case (Cons b bs)
  show ?case
  proof (cases "bs = []")
    case True
    then show ?thesis by simp
  next
    case False
    with Cons.prems have c: "concat bs \<noteq> []" by (cases bs) auto
    then have "butlast (b @ concat bs) = b @ butlast (concat bs)" by (simp only: butlast_append if_False)
    with Cons.prems have nl: "newline \<notin> set b" "newline \<notin> set (butlast (concat bs))" by auto
    have "b \<noteq> []" using Cons.prems by auto
    with nl(1) have "last (pend s @ b) \<noteq> newline" by (metis last_appendR last_in_set)
    with c \<open>b \<noteq> []\<close> have "log_write (log_write s b) (concat bs) = log_write s (b @ concat bs)"
      by (simp add: log_write_def Let_def)
    with Cons.IH [OF nl(2) _ False] Cons.prems show ?thesis by simp
  qed
qed simp

lemma log_write_pend: "length (pend (log_write s b)) \<le> length (pend s) + length b"
  by (simp add: log_write_def Let_def)

lemma log_writes_pend: "length (pend (foldl log_write s bs)) \<le> length (pend s) + length (concat bs)"
proof (induction bs arbitrary: s)
  case (Cons b bs)
  from Cons.IH [of "log_write s b"] log_write_pend [of s b] show ?case by simp
qed simp

lemma length_pend:
  assumes "driver_inv k" "pend_ok k"
  shows "length (pend (abs_log k)) = unat (tmp_buff_size (aesd_device k))"
proof (cases "tmp_buff_ptr (aesd_device k) = NULL")
  case True
  with assms(2) show ?thesis by (simp add: abs_log_def pend_bytes_def pend_ok_def)
next
  case False
  with drv_invD(5) [OF driver_invD [OF assms(1)]] show ?thesis
    by (auto simp: tmp_ok_def abs_log_def pend_bytes_def split: sum.splits)
qed

lemma chr_writes_log:
  assumes "chr_inv h k" "[] \<notin> set bs" "length (concat bs) < 2 ^ 31"
    "length (pend (abs_log k)) + length (concat bs) < 2 ^ 40 - 1"
  shows "\<exists>k'. chr_writes h bs fpos k = Inr (0, k') \<and> chr_inv h k' \<and> abs_log k' = foldl log_write (abs_log k) bs"
  using assms
proof (induction bs arbitrary: k fpos)
  case (Cons b bs)
  let ?n = "of_nat (length b) :: u64" and ?env = "h_alloc h k (of_nat (length b))"
  have i: "host_ok h" "driver_inv k" "pend_ok k" "finite (dom (kmem k))" using Cons.prems(1) by (simp_all add: chr_inv_def)
  have un: "unat ?n = length b" using Cons.prems(3) by (intro unat_of_nat_u64) simp
  have "unat (tmp_buff_size (aesd_device k)) + unat ?n + 1 < 2 ^ 40"
    using length_pend [OF i(2,3)] un Cons.prems(4) by simp
  then have e: "lock_rc ?env = 0" "not_copied ?env = 0" "alloc_ret ?env \<noteq> NULL" "alloc_ok ?env k ?n"
    using i(1,4) by (auto simp: host_ok_def Let_def)
  have "?n \<noteq> 0" using Cons.prems(2) un by (cases b) (auto simp: unat_eq_0 [symmetric])
  then have w: "write_args_ok ?env k b ?n" using e un Cons.prems(3) by (simp add: write_args_ok_def)
  obtain k1 where k1: "aesd_write ?env k opened b ?n fpos = Inr (int (length b), fpos + ?n, k1)" "driver_inv k1"
    "pend_ok k1" "abs_log k1 = log_write (abs_log k) b"
    by (rule aesd_write_success [OF i(2) opened_fields(1) e(1) w e(3,2), of fpos]) (use i(3) in blast)
  with i have "chr_inv h k1" using aesd_write_finite [OF k1(1)] by (simp add: chr_inv_def)
  moreover have "length (pend (abs_log k1)) + length (concat bs) < 2 ^ 40 - 1"
    using log_write_pend [of "abs_log k" b] Cons.prems(4) unfolding k1(4) by simp
  ultimately show ?case
    using Cons.IH [of k1 "fpos + ?n"] Cons.prems k1 by (auto simp: Let_def)
qed simp

interpretation chr: log_file "chr_file h" "chr_inv h" abs_log "\<lambda>k. out_offs (the_cb k) = 0" "2 ^ 40 - 1" for h
proof (unfold_locales, goal_cases)
  case (1 k l)
  then have s: "concat (h_split h l) = l" "[] \<notin> set (h_split h l)" by (auto simp: chr_inv_def host_ok_def)
  with 1 have ne: "h_split h l \<noteq> []" by auto
  let ?bs = "butlast (h_split h l)" and ?b = "last (h_split h l)"
  have sp: "h_split h l = ?bs @ [?b]" "l = concat ?bs @ ?b" using ne s(1) by (metis append_butlast_last_id concat_append concat.simps append_Nil2)+
  have nn: "[] \<notin> set ?bs" "?b \<noteq> []" using s(2) ne by (auto dest: in_set_butlastD) (metis last_in_set)
  have len: "length l = length (concat ?bs) + length ?b" using arg_cong [OF sp(2), of length] by simp
  obtain k1 where k1: "chr_writes h ?bs 0 k = Inr (0, k1)" "chr_inv h k1" "abs_log k1 = foldl log_write (abs_log k) ?bs"
    using chr_writes_log [OF 1(1) nn(1), of 0] 1(4,5) len by auto
  have "length (pend (abs_log k1)) + length ?b < 2 ^ 40 - 1"
    using log_writes_pend [of "abs_log k" ?bs] 1(5) len unfolding k1(3) by simp
  then obtain k2 where k2: "chr_writes h [?b] 0 k1 = Inr (0, k2)" "chr_inv h k2" "abs_log k2 = log_write (abs_log k1) ?b"
    using chr_writes_log [OF k1(2), of "[?b]" 0] nn(2) 1(4) len by auto
  have "abs_log k2 = foldl log_write (abs_log k) (h_split h l)" using k1(3) k2(3) by (subst sp(1)) simp
  also have "\<dots> = log_write (abs_log k) l" using log_write_pieces [of "h_split h l" "abs_log k"] s ne 1(3) by simp
  finally show ?case using k1(1) k2(1,2) ne nn(2) by (simp add: chr_file_def of_append_def del: chr_writes.simps)
next
  case (2 k p)
  then show ?case
    using read_all_complete [of k opened "h_io h" "h_bufsize h" p "Suc (log_size k)"]
    by (simp add: chr_file_def chr_inv_def host_ok_def log_size_def)
next
  case (3 k sk)
  then have e: "driver_inv k" "ioc_ok (h_ioc h)" "fixed_size_llseek_ok (h_llseek h)" "access_ok_ret (h_io h)"
    "not_copied (h_io h) = 0" "lock_rc (h_io h) = 0"
    by (simp_all add: chr_inv_def host_ok_def)
  let ?env = "(h_io h)\<lparr>user_seekto := sk\<rparr>"
  have "aesd_ioctl (h_ioc h) (h_llseek h) ?env k opened (AESDCHAR_IOCSEEKTO (h_ioc h)) =
      ebind (aesd_adjust_file_offset (h_llseek h) ?env k opened (write_cmd sk) (write_cmd_offset sk))
        (\<lambda>(retval, filp', k'). Inr (to_int retval, filp', k'))"
    using aesd_ioctl_seekto [OF e(2), of ?env] e(4,5) by simp
  with aesd_adjust_file_offset_refines [OF e(1) 3(2) opened_fields(1), of ?env "h_llseek h"] e
  show ?case by (simp add: chr_file_def split: option.split)
qed

end
