(* ===== verification/Fair_Runs.thy ===== *)
theory Fair_Runs
  imports Main
begin

text \<open>
  Infinite runs of a system whose steps are labelled with the actor that takes them, and weak
  fairness: an actor that could move from some point on for ever does move. Progress is shown
  with a measure that one helpful actor decreases and no other actor increases.
\<close>

definition run_of :: "('a \<Rightarrow> 's \<Rightarrow> 's \<Rightarrow> bool) \<Rightarrow> (nat \<Rightarrow> 'a) \<Rightarrow> (nat \<Rightarrow> 's) \<Rightarrow> bool" where
  "run_of acts who run \<longleftrightarrow> (\<forall>k. acts (who k) (run k) (run (Suc k)))"

definition can_act :: "('a \<Rightarrow> 's \<Rightarrow> 's \<Rightarrow> bool) \<Rightarrow> 'a \<Rightarrow> 's \<Rightarrow> bool" where
  "can_act acts a s \<longleftrightarrow> (\<exists>s'. acts a s s')"

definition fair_to :: "('a \<Rightarrow> 's \<Rightarrow> 's \<Rightarrow> bool) \<Rightarrow> 'a \<Rightarrow> (nat \<Rightarrow> 'a) \<Rightarrow> (nat \<Rightarrow> 's) \<Rightarrow> bool" where
  "fair_to acts a who run \<longleftrightarrow> (\<forall>i. \<exists>j \<ge> i. who j = a \<or> \<not> can_act acts a (run j))"

lemma run_ofD: "run_of acts who run \<Longrightarrow> acts (who k) (run k) (run (Suc k))"
  by (simp add: run_of_def)

lemma run_keeps:
  assumes "run_of acts who run" "\<And>a s s'. acts a s s' \<Longrightarrow> P s \<Longrightarrow> P s'" "P (run i)" "i \<le> k"
  shows "P (run k)"
  using assms(4) by (induction rule: dec_induct) (use assms(1-3) run_ofD in blast)+

lemma fair_moves:
  assumes "fair_to acts a who run" "\<And>k. i \<le> k \<Longrightarrow> can_act acts a (run k)"
  obtains j where "i \<le> j" "who j = a"
  using assms unfolding fair_to_def by blast

text \<open>
  While \<open>Q\<close> does not hold, the helpful actor \<open>a\<close> can move, its moves decrease the measure and the
  moves of the others do not increase it: then \<open>Q\<close> holds some time.
\<close>

lemma helpful_actor_leads:
  fixes n :: nat
  assumes fair: "fair_to acts a who run"
    and step: "\<And>k n. i \<le> k \<Longrightarrow> P n (run k) \<Longrightarrow> \<not> Q (run k) \<Longrightarrow>
      can_act acts a (run k) \<and> (Q (run (Suc k)) \<or> (\<exists>m. P m (run (Suc k)) \<and> (m < n \<or> m = n \<and> who k \<noteq> a)))"
    and "i \<le> i'" "P n (run i')"
  shows "\<exists>j \<ge> i'. Q (run j)"
  using assms(3,4)
proof (induction n arbitrary: i' rule: less_induct)
  case (less n)
  show ?case
  proof (rule ccontr)
    assume "\<not> ?thesis"
    then have nq: "\<not> Q (run k)" if "i' \<le> k" for k using that by blast
    have stay: "P n (run k) \<and> (\<forall>l. i' \<le> l \<longrightarrow> l < k \<longrightarrow> who l \<noteq> a)" if "i' \<le> k" for k
      using that
    proof (induction rule: dec_induct)
      case (step k)
      with assms(2) [of k n] nq [of k] nq [of "Suc k"] less.prems(1) obtain m where
        m: "P m (run (Suc k))" "m < n \<or> m = n \<and> who k \<noteq> a" by auto
      have "\<not> m < n" using less.IH [of m "Suc k"] m(1) nq step.hyps less.prems(1) by (meson Suc_leD le_Suc_eq le_trans)
      with m step.IH show ?case by (auto simp: less_Suc_eq)
    qed (use less.prems(2) in auto)
    have "can_act acts a (run k)" if "i' \<le> k" for k using assms(2) [of k n] stay [OF that] nq [OF that] less.prems(1) that by auto
    from fair_moves [OF fair this] obtain j where "i' \<le> j" "who j = a" by blast
    with stay [of "Suc j"] show False by auto
  qed
qed

text \<open>A quantity that never grows is constant from some point on.\<close>

lemma eventually_constant:
  fixes f :: "nat \<Rightarrow> nat"
  assumes "\<And>k. i \<le> k \<Longrightarrow> f (Suc k) \<le> f k"
  obtains j where "i \<le> j" "\<And>k. j \<le> k \<Longrightarrow> f k = f j"
proof -
  have mono: "f k \<le> f j" if "i \<le> j" "j \<le> k" for j k
    using that(2) by (induction rule: dec_induct) (use assms that(1) in \<open>auto intro: le_trans\<close>)
  obtain j where j: "i \<le> j" "\<And>k. i \<le> k \<Longrightarrow> f j \<le> f k"
    using ex_has_least_nat [of "\<lambda>j. i \<le> j" i f] by auto
  have "f k = f j" if "j \<le> k" for k using mono [OF j(1) that] j(2) [of k] j(1) that by simp
  with j(1) that show thesis by blast
qed

end
