(* ===== verification/Server_Threads.thy ===== *)
theory Server_Threads
  imports Slist
begin

text \<open>
  The bookkeeping of client threads in \<open>server/main.c\<close>: \<open>init_thread\<close>,
  \<open>remove_joinable_threads\<close> and \<open>remove_all_remaining_threads\<close>.

  A client thread runs concurrently and tells the main thread that it is done by setting the
  field \<open>finished\<close> of its node. A pass of \<open>remove_joinable_threads\<close> sees the flags as they are
  when it reaches the nodes; \<open>remove_all_remaining_threads\<close> is a busy-wait, so its model takes
  the schedule of the flags being set between its passes. \<open>None\<close> is a run that does not end.
\<close>

section \<open>Creating a node\<close>

abbreviation (input) INET6_ADDRSTRLEN :: nat where "INET6_ADDRSTRLEN \<equiv> 46"

text \<open>\<open>strncpy(dst, src, n)\<close>: the \<open>n\<close> bytes written to \<open>dst\<close>.\<close>

definition strncpy :: "bytes \<Rightarrow> nat \<Rightarrow> fault + bytes" where
  "strncpy src n =
     (let s = takeWhile (\<lambda>c. c \<noteq> nul) (take n src) in
      if length s < n \<and> length s = length src then Inl Out_Of_Bounds
      else Inr (s @ replicate (n - length s) nul))"

definition zero_args :: aesd_thread_args where
  "zero_args = \<lparr>thread_id = 0, mutex = NULL, sock_fd = 0, ip_address = replicate INET6_ADDRSTRLEN nul,
     last_error = 0, finished = False, sle_next = NULL\<rparr>"

definition init_thread ::
  "ptr \<Rightarrow> args_heap \<Rightarrow> ptr \<Rightarrow> int \<Rightarrow> bytes \<Rightarrow> fault + (ptr \<times> args_heap)" where
  "init_thread malloc_ret h mtx fd ip =
     (case malloc_ret of NULL \<Rightarrow> Inr (NULL, h)
      | Ptr a \<Rightarrow>
          ebind (strncpy ip (INET6_ADDRSTRLEN - 1)) (\<lambda>s.
            Inr (Ptr a, h(a \<mapsto> zero_args\<lparr>mutex := mtx, sock_fd := fd,
                          ip_address := overwrite (ip_address zero_args) 0 s\<rparr>))))"

section \<open>Joining finished threads\<close>

text \<open>
  The loop \<open>SLIST_FOREACH_SAFE\<close> of \<open>remove_joinable_threads\<close>. Besides the list it returns the
  threads it has called \<open>pthread_join\<close> on. The result of \<open>pthread_join\<close> only decides which
  message is printed.
\<close>

partial_function (option) remove_joinable_loop ::
  "thread_list \<Rightarrow> ptr \<Rightarrow> u64 list \<Rightarrow> (fault + thread_list \<times> u64 list) option" where
  "remove_joinable_loop s next joined =
     (if next = NULL then Some (Inr (s, joined))
      else case ebind (SLIST_NEXT (heap s) next) (\<lambda>next_temp.
                  ebind (node_at (heap s) next) (\<lambda>n. Inr (next_temp, n))) of
        Inl e \<Rightarrow> Some (Inl e)
      | Inr (next_temp, n) \<Rightarrow>
          if finished n then
            (case SLIST_REMOVE s next of None \<Rightarrow> None
             | Some r \<Rightarrow> (case ebind r (\<lambda>s1. free_node s1 next) of
                 Inl e \<Rightarrow> Some (Inl e)
               | Inr s2 \<Rightarrow> remove_joinable_loop s2 next_temp (joined @ [thread_id n])))
          else remove_joinable_loop s next_temp joined)"

definition remove_joinable_threads :: "thread_list \<Rightarrow> (fault + thread_list \<times> u64 list) option" where
  "remove_joinable_threads s = remove_joinable_loop s (SLIST_FIRST s) []"

text \<open>The client threads at the addresses in \<open>f\<close> set their flag \<open>finished\<close>.\<close>

definition mark_finished :: "nat list \<Rightarrow> thread_list \<Rightarrow> thread_list" where
  "mark_finished f s = s\<lparr>heap := (\<lambda>a. if a \<in> set f then map_option (\<lambda>n. n\<lparr>finished := True\<rparr>) (heap s a)
                                      else heap s a)\<rparr>"

fun remove_all_remaining_threads ::
  "nat list list \<Rightarrow> thread_list \<Rightarrow> u64 list \<Rightarrow> (fault + thread_list \<times> u64 list) option" where
  "remove_all_remaining_threads sched s joined =
     (if SLIST_EMPTY s then Some (Inr (s, joined))
      else case sched of [] \<Rightarrow> None
        | f # fs \<Rightarrow>
            (case remove_joinable_threads (mark_finished f s) of None \<Rightarrow> None
             | Some (Inl e) \<Rightarrow> Some (Inl e)
             | Some (Inr (s', js)) \<Rightarrow> remove_all_remaining_threads fs s' (joined @ js)))"

declare remove_all_remaining_threads.simps [simp del]

section \<open>Correctness\<close>

definition is_finished :: "thread_list \<Rightarrow> nat \<Rightarrow> bool" where
  "is_finished s a = (case payload s a of None \<Rightarrow> False | Some n \<Rightarrow> finished n)"

definition tid :: "thread_list \<Rightarrow> nat \<Rightarrow> u64" where
  "tid s a = (case payload s a of None \<Rightarrow> 0 | Some n \<Rightarrow> thread_id n)"

definition ptr_of :: "nat list \<Rightarrow> ptr" where
  "ptr_of as = (case as of [] \<Rightarrow> NULL | a # _ \<Rightarrow> Ptr a)"

lemma node_at_payload:
  "payload s a \<noteq> None \<Longrightarrow>
     \<exists>n. node_at (heap s) (Ptr a) = Inr n \<and> finished n = is_finished s a \<and> thread_id n = tid s a"
  by (auto simp: payload_def node_at_def is_finished_def tid_def)

lemma remove_joinable_loop_spec:
  assumes "list_repr s (xs @ ys)"
  shows "\<exists>s'. remove_joinable_loop s (ptr_of ys) js =
      Some (Inr (s', js @ map (tid s) (filter (is_finished s) ys))) \<and>
    list_repr s' (xs @ filter (\<lambda>a. \<not> is_finished s a) ys) \<and>
    payload s' = (\<lambda>a. if a \<in> set ys \<and> is_finished s a then None else payload s a)"
  using assms
proof (induction ys arbitrary: s xs js)
  case Nil
  then show ?case by (simp add: remove_joinable_loop.simps ptr_of_def)
next
  case (Cons a ys)
  have nx: "SLIST_NEXT (heap s) (Ptr a) = Inr (ptr_of ys)"
    using sl.succ_law [OF Cons.prems] by (simp add: ptr_of_def)
  have live: "payload s a \<noteq> None" using sl.live_law [OF Cons.prems, of a] by simp
  from node_at_payload [OF live] obtain n where
    n: "node_at (heap s) (Ptr a) = Inr n" "finished n = is_finished s a" "thread_id n = tid s a" by blast
  have d: "distinct (xs @ a # ys)" using Cons.prems by (rule sl.distinct_law)
  show ?case
  proof (cases "is_finished s a")
    case True
    obtain s1 s2 where s: "SLIST_REMOVE s (Ptr a) = Some (Inr s1)" "free_node s1 (Ptr a) = Inr s2"
      "list_repr s2 (xs @ ys)" "payload s2 = (payload s)(a := None)"
      using sl.unlink_release [OF Cons.prems] by blast
    have same: "\<forall>b \<in> set ys. is_finished s2 b = is_finished s b \<and> tid s2 b = tid s b"
      using d s(4) by (auto simp: is_finished_def tid_def)
    have step: "remove_joinable_loop s (ptr_of (a # ys)) js = remove_joinable_loop s2 (ptr_of ys) (js @ [tid s a])"
      using nx n s True by (simp add: remove_joinable_loop.simps [of s] ptr_of_def)
    have f: "filter (is_finished s2) ys = filter (is_finished s) ys"
      "filter (\<lambda>b. \<not> is_finished s2 b) ys = filter (\<lambda>b. \<not> is_finished s b) ys"
      using same by (auto cong: filter_cong)
    have m: "map (tid s2) (filter (is_finished s) ys) = map (tid s) (filter (is_finished s) ys)"
      using same by simp
    from Cons.IH [OF s(3), of "js @ [tid s a]"] obtain s' where
      s': "remove_joinable_loop s2 (ptr_of ys) (js @ [tid s a]) =
         Some (Inr (s', (js @ [tid s a]) @ map (tid s) (filter (is_finished s) ys)))"
      "list_repr s' (xs @ filter (\<lambda>b. \<not> is_finished s b) ys)"
      "payload s' = (\<lambda>b. if b \<in> set ys \<and> is_finished s2 b then None else payload s2 b)"
      unfolding f m by blast
    have "payload s' = (\<lambda>b. if b \<in> set (a # ys) \<and> is_finished s b then None else payload s b)"
      unfolding s'(3) using same s(4) True by (intro ext, simp) blast
    then show ?thesis using step s' True by simp
  next
    case False
    have step: "remove_joinable_loop s (ptr_of (a # ys)) js = remove_joinable_loop s (ptr_of ys) js"
      using nx n False by (simp add: remove_joinable_loop.simps [of s "Ptr a"] ptr_of_def)
    from Cons.IH [of s "xs @ [a]" js] Cons.prems obtain s' where
      s': "remove_joinable_loop s (ptr_of ys) js = Some (Inr (s', js @ map (tid s) (filter (is_finished s) ys)))"
      "list_repr s' ((xs @ [a]) @ filter (\<lambda>b. \<not> is_finished s b) ys)"
      "payload s' = (\<lambda>b. if b \<in> set ys \<and> is_finished s b then None else payload s b)" by auto
    have "payload s' = (\<lambda>b. if b \<in> set (a # ys) \<and> is_finished s b then None else payload s b)"
      unfolding s'(3) using False by auto
    then show ?thesis using step s' False by simp
  qed
qed

lemma remove_joinable_spec:
  assumes "list_repr s as"
  shows "\<exists>s'. remove_joinable_threads s = Some (Inr (s', map (tid s) (filter (is_finished s) as))) \<and>
    list_repr s' (filter (\<lambda>a. \<not> is_finished s a) as) \<and>
    payload s' = (\<lambda>a. if a \<in> set as \<and> is_finished s a then None else payload s a)"
proof -
  have "SLIST_FIRST s = ptr_of as" using sl.first_law [OF assms] by (simp add: ptr_of_def)
  with remove_joinable_loop_spec [of s "[]" as "[]"] assms show ?thesis
    by (simp add: remove_joinable_threads_def)
qed

lemma mark_finished_links: "links h p as \<Longrightarrow>
    links (\<lambda>a. if a \<in> set f then map_option (\<lambda>n. n\<lparr>finished := True\<rparr>) (h a) else h a) p as"
  by (induction as arbitrary: p) (auto split: option.splits)

lemma mark_finished_repr: "list_repr s as \<Longrightarrow> list_repr (mark_finished f s) as"
  by (auto simp: list_repr_def mark_finished_def SLIST_FIRST_def intro!: mark_finished_links)

lemma mark_finished_payload:
  "payload (mark_finished f s) a =
     (if a \<in> set f then map_option (\<lambda>n. n\<lparr>finished := True\<rparr>) (payload s a) else payload s a)"
  by (cases "heap s a") (simp_all add: payload_def mark_finished_def)

lemma mark_finished_is_finished:
  "payload s a \<noteq> None \<Longrightarrow> is_finished (mark_finished f s) a \<longleftrightarrow> a \<in> set f \<or> is_finished s a"
  "tid (mark_finished f s) a = tid s a"
  by (auto simp: is_finished_def tid_def mark_finished_payload split: option.splits)

text \<open>
  The busy-wait ends as soon as every thread of the list has finished, with each thread
  joined once and every node released.
\<close>

lemma mset_map_split:
  "mset (map f (filter P xs)) + mset (map f (filter (\<lambda>x. \<not> P x) xs)) = mset (map f xs)"
  by (induction xs) simp_all

lemma remove_all_spec:
  assumes "list_repr s as" "\<forall>a \<in> set as. is_finished s a \<or> a \<in> set (concat sched)" "as = [] \<or> sched \<noteq> []"
  shows "\<exists>s' js. remove_all_remaining_threads sched s joined = Some (Inr (s', joined @ js)) \<and>
    list_repr s' [] \<and> mset js = mset (map (tid s) as) \<and>
    dom (payload s') = dom (payload s) - set as"
  using assms
proof (induction sched arbitrary: s as joined)
  case Nil
  then have "SLIST_EMPTY s" by (simp add: list_repr_def SLIST_EMPTY_def SLIST_FIRST_def)
  with Nil show ?case
    by (intro exI [of _ s] exI [of _ "[]"]) (simp add: remove_all_remaining_threads.simps)
next
  case (Cons f fs)
  show ?case
  proof (cases "as = []")
    case True
    then have "SLIST_EMPTY s" using Cons.prems(1) by (simp add: list_repr_def SLIST_EMPTY_def SLIST_FIRST_def)
    with True Cons show ?thesis
      by (intro exI [of _ s] exI [of _ "[]"]) (simp add: remove_all_remaining_threads.simps)
  next
    case False
    let ?m = "mark_finished f s" and ?rest = "filter (\<lambda>a. \<not> is_finished (mark_finished f s) a) as"
    from remove_joinable_spec [OF mark_finished_repr [OF Cons.prems(1)], of f] obtain s1 where
      s1: "remove_joinable_threads ?m = Some (Inr (s1, map (tid s) (filter (is_finished ?m) as)))"
      "list_repr s1 ?rest" "payload s1 = (\<lambda>a. if a \<in> set as \<and> is_finished ?m a then None else payload ?m a)"
      by (auto simp: mark_finished_is_finished)
    have fin: "is_finished ?m a \<longleftrightarrow> a \<in> set f \<or> is_finished s a" if "a \<in> set as" for a
      using sl.live_law [OF Cons.prems(1) that] by (simp add: mark_finished_is_finished)
    have t: "tid s1 a = tid s a" if "a \<in> set ?rest" for a
      using that by (simp add: tid_def s1(3) mark_finished_payload split: option.splits)
    have rest: "\<forall>a \<in> set ?rest. is_finished s1 a \<or> a \<in> set (concat fs)" "?rest = [] \<or> fs \<noteq> []"
      using Cons.prems(2) fin by (auto simp: filter_empty_conv)
    from Cons.IH [OF s1(2) rest, of "joined @ map (tid s) (filter (is_finished ?m) as)"] obtain s' js where
      s': "remove_all_remaining_threads fs s1 (joined @ map (tid s) (filter (is_finished ?m) as)) =
        Some (Inr (s', (joined @ map (tid s) (filter (is_finished ?m) as)) @ js))"
      "list_repr s' []" "mset js = mset (map (tid s1) ?rest)" "dom (payload s') = dom (payload s1) - set ?rest"
      by blast
    have "\<not> SLIST_EMPTY s"
      using False sl.empty_iff [OF Cons.prems(1)] by (simp add: SLIST_EMPTY_def SLIST_FIRST_def)
    with s1(1) s'(1) have "remove_all_remaining_threads (f # fs) s joined =
        Some (Inr (s', joined @ map (tid s) (filter (is_finished ?m) as) @ js))"
      by (simp add: remove_all_remaining_threads.simps [of "f # fs"])
    moreover have "map (tid s1) ?rest = map (tid s) ?rest" using t by simp
    then have "mset (map (tid s) (filter (is_finished ?m) as) @ js) = mset (map (tid s) as)"
      using mset_map_split [of "tid s" "is_finished ?m" as] by (simp only: mset_append s'(3))
    moreover have "dom (payload s1) = dom (payload s) - set (filter (is_finished ?m) as)"
      by (auto simp: s1(3) mark_finished_payload split: if_splits)
    then have "dom (payload s') = dom (payload s) - set as" using s'(4) by auto
    ultimately show ?thesis using s'(2) by blast
  qed
qed

lemma takeWhile_take_comm: "takeWhile P (take n xs) = take n (takeWhile P xs)"
proof (induction xs arbitrary: n)
  case (Cons x xs)
  then show ?case by (cases n) simp_all
qed simp

lemma strncpy_string:
  assumes "nul \<in> set src"
  shows "strncpy src n = Inr (let s = takeWhile (\<lambda>c. c \<noteq> nul) (take n src) in s @ replicate (n - length s) nul)"
proof -
  have "length (takeWhile (\<lambda>c. c \<noteq> nul) (take n src)) < length src \<or> n \<le> length (takeWhile (\<lambda>c. c \<noteq> nul) (take n src))"
  proof (cases "length src \<le> n")
    case True
    then have "takeWhile (\<lambda>c. c \<noteq> nul) (take n src) = takeWhile (\<lambda>c. c \<noteq> nul) src" by simp
    moreover have "takeWhile (\<lambda>c. c \<noteq> nul) src \<noteq> src" using assms by (auto simp: takeWhile_eq_all_conv)
    then have "length (takeWhile (\<lambda>c. c \<noteq> nul) src) < length src"
      by (metis length_takeWhile_le le_neq_implies_less takeWhile_eq_take take_all_iff)
    ultimately show ?thesis by simp
  next
    case False
    then show ?thesis using length_takeWhile_le [of "\<lambda>c. c \<noteq> nul" "take n src"] by simp
  qed
  then show ?thesis by (auto simp: strncpy_def Let_def)
qed

section \<open>Properties\<close>

text \<open>A list of two threads, the second of which has finished.\<close>

definition ex_threads :: thread_list where
  "ex_threads = \<lparr>list_head = \<lparr>slh_first = Ptr 1\<rparr>,
     heap = [1 \<mapsto> zero_args\<lparr>thread_id := 7, sle_next := Ptr 2\<rparr>, 2 \<mapsto> zero_args\<lparr>thread_id := 8, finished := True\<rparr>]\<rparr>"

lemma ex_threads_repr: "list_repr ex_threads [1, 2]"
  by (simp add: list_repr_def ex_threads_def SLIST_FIRST_def zero_args_def)

lemma ex_threads_flags: "is_finished ex_threads = (\<lambda>a. a = 2)" "tid ex_threads 2 = 8" "tid ex_threads (Suc 0) = 7"
  by (auto simp: fun_eq_iff is_finished_def tid_def payload_def ex_threads_def zero_args_def split: option.splits)

text \<open>
  C15: A pass over the list of threads ends without touching unallocated memory, although it
  unlinks and frees nodes while it walks; it joins exactly the threads that have finished,
  in list order, frees their nodes and no others, and leaves the others linked, in order and
  unchanged.
\<close>

theorem remove_joinable_reaps_finished:
  assumes "list_repr s as"
  shows "\<exists>s'. remove_joinable_threads s = Some (Inr (s', map (tid s) (filter (is_finished s) as))) \<and>
    list_repr s' (filter (\<lambda>a. \<not> is_finished s a) as) \<and>
    payload s' = (\<lambda>a. if a \<in> set as \<and> is_finished s a then None else payload s a)"
  by (rule remove_joinable_spec [OF assms])

theorem remove_joinable_reaps_finished_witness:
  "\<exists>s'. remove_joinable_threads ex_threads = Some (Inr (s', [8])) \<and> list_repr s' [1] \<and> payload s' 2 = None"
  using remove_joinable_reaps_finished [OF ex_threads_repr] by (auto simp: ex_threads_flags)

text \<open>
  At shutdown the busy-wait over the remaining threads ends once every thread of the list has
  set its flag, whatever the order and timing in which they do so: the list is empty, every
  thread has been joined exactly once and every node has been freed.
\<close>

theorem remove_all_joins_every_thread:
  assumes "list_repr s as" "\<forall>a \<in> set as. is_finished s a \<or> a \<in> set (concat sched)" "as = [] \<or> sched \<noteq> []"
  shows "\<exists>s' js. remove_all_remaining_threads sched s [] = Some (Inr (s', js)) \<and> list_repr s' [] \<and>
    mset js = mset (map (tid s) as) \<and> dom (payload s') = dom (payload s) - set as"
  using remove_all_spec [OF assms, of "[]"] by simp

theorem remove_all_joins_every_thread_witness:
  "\<exists>s' js. remove_all_remaining_threads [[], [1]] ex_threads [] = Some (Inr (s', js)) \<and> list_repr s' [] \<and>
     mset js = {#7, 8#}"
  using remove_all_joins_every_thread [OF ex_threads_repr, of "[[], [1]]"] by (auto simp: ex_threads_flags add_mset_commute)

text \<open>
  A new node is initialised completely: it carries the socket and the mutex, no error, is not
  finished, and holds the client's address, cut to 45 characters, as a terminated string.
  When memory runs out, \<open>NULL\<close> is returned and nothing is allocated.
\<close>

theorem init_thread_initialises:
  assumes "nul \<in> set ip"
  shows "init_thread NULL h mtx fd ip = Inr (NULL, h) \<and>
    (\<exists>n. init_thread (Ptr a) h mtx fd ip = Inr (Ptr a, h(a \<mapsto> n)) \<and> sock_fd n = fd \<and> mutex n = mtx \<and>
      last_error n = 0 \<and> \<not> finished n \<and> length (ip_address n) = INET6_ADDRSTRLEN \<and> last (ip_address n) = nul \<and>
      takeWhile (\<lambda>c. c \<noteq> nul) (ip_address n) = take 45 (takeWhile (\<lambda>c. c \<noteq> nul) ip))"
proof -
  define s where "s = takeWhile (\<lambda>c. c \<noteq> nul) (take 45 ip)"
  have s: "length s \<le> 45" "nul \<notin> set s" "s = take 45 (takeWhile (\<lambda>c. c \<noteq> nul) ip)"
    by (auto simp: s_def takeWhile_take_comm dest!: in_set_takeD set_takeWhileD)
  have "strncpy ip 45 = Inr (s @ replicate (45 - length s) nul)"
    using strncpy_string [OF assms, of 45] by (simp add: s_def Let_def)
  moreover have "overwrite (replicate 46 nul) 0 (s @ replicate (45 - length s) nul) = s @ replicate (46 - length s) nul"
    using s(1) Suc_diff_le [OF s(1)] by (simp add: overwrite_def replicate_append_same)
  moreover have "takeWhile (\<lambda>c. c \<noteq> nul) (s @ replicate (46 - length s) nul) = s"
    using s(2) by (subst takeWhile_append2) auto
  ultimately show ?thesis
    unfolding s(3) [symmetric] using s(1)
    by (intro conjI exI [of _ "zero_args\<lparr>mutex := mtx, sock_fd := fd, ip_address := s @ replicate (46 - length s) nul\<rparr>"])
      (simp_all add: init_thread_def zero_args_def)
qed

theorem init_thread_initialises_witness:
  "\<exists>n. init_thread (Ptr 3) Map.empty (Ptr 0) 5 (''127.0.0.1'' @ replicate 37 nul) = Inr (Ptr 3, [3 \<mapsto> n]) \<and>
     sock_fd n = 5 \<and> takeWhile (\<lambda>c. c \<noteq> nul) (ip_address n) = ''127.0.0.1''"
  using init_thread_initialises [of "''127.0.0.1'' @ replicate 37 nul" Map.empty "Ptr 0" 5 3] by auto

end
