(* ===== verification/Server_Start.thy ===== *)
theory Server_Start
  imports Aesd_Prelude
begin

text \<open>
  The start of the server, \<open>server/main.c\<close>: command line, listening socket, signals, becoming a
  daemon. The results of system calls are fields of the environment records; sockets are
  tracked by the list of descriptors that are open.
\<close>

abbreviation (input) EXIT_SUCCESS :: int where "EXIT_SUCCESS \<equiv> 0"
abbreviation (input) EXIT_FAILURE :: int where "EXIT_FAILURE \<equiv> 1"

section \<open>Command line\<close>

text \<open>The process exits with a status (\<open>Inl\<close>), or runs, as a daemon or not (\<open>Inr\<close>).\<close>

definition parse_args :: "bytes list \<Rightarrow> bool \<Rightarrow> int + bool" where
  "parse_args argv should_daemonize =
     (let argc = length argv in
      if argc > 2 then Inl EXIT_FAILURE
      else if argc = 2 then
        (if argv ! 1 = ''-d'' then Inr True
         else if argv ! 1 = ''-h'' then Inl EXIT_SUCCESS
         else Inr should_daemonize)
      else Inr should_daemonize)"

section \<open>Listening socket\<close>

abbreviation (input) AF_INET :: int where "AF_INET \<equiv> 2"

record sockaddr =
  sa_family :: int
  sin_addr :: bytes
  sin6_addr :: bytes

definition get_in_addr :: "sockaddr \<Rightarrow> bytes" where
  "get_in_addr sa = (if sa_family sa = AF_INET then sin_addr sa else sin6_addr sa)"

text \<open>One element of the list \<open>getaddrinfo\<close> returns, with what the calls on it return.\<close>

record addrinfo =
  ai_addr :: sockaddr
  socket_ret :: int
  setsockopt_ret :: int
  bind_ret :: int

record listen_env =
  getaddrinfo_ret :: int
  servinfo :: "addrinfo list"
  ntop :: "int \<Rightarrow> bytes \<Rightarrow> bytes"    \<comment> \<open>the text of an address\<close>
  listen_ret :: int

text \<open>\<open>inet_ntop(af, src, dst, size)\<close>: writes nothing when text and terminator do not fit.\<close>

definition inet_ntop :: "bytes \<Rightarrow> bytes \<Rightarrow> nat \<Rightarrow> bytes" where
  "inet_ntop txt dst sz =
     (if length txt + 1 \<le> sz \<and> length txt + 1 \<le> length dst then overwrite dst 0 (txt @ [nul]) else dst)"

text \<open>The loop over the addresses: the address bound, or failure, or an early return; and the open sockets.\<close>

datatype bind_result = Bound int addrinfo | Not_Bound | Gave_Up

fun bind_loop :: "addrinfo list \<Rightarrow> int list \<Rightarrow> bind_result \<times> int list" where
  "bind_loop [] fds = (Not_Bound, fds)"
| "bind_loop (p # ps) fds =
     (if socket_ret p = -1 then bind_loop ps fds
      else
        (let fds1 = socket_ret p # fds in
         if setsockopt_ret p = -1 then (Gave_Up, fds1)
         else if bind_ret p = -1 then bind_loop ps (remove1 (socket_ret p) fds1)
         else (Bound (socket_ret p) p, fds1)))"

text \<open>\<open>sizeof ip_address\<close> is the size of the pointer parameter, 8.\<close>

definition start_listening :: "listen_env \<Rightarrow> bytes \<Rightarrow> int list \<Rightarrow> int \<times> bytes \<times> int list" where
  "start_listening env ip fds =
     (if getaddrinfo_ret env \<noteq> 0 then (- 1, ip, fds)
      else case bind_loop (servinfo env) fds of
        (Gave_Up, fds1) \<Rightarrow> (- 1, ip, fds1)
      | (Not_Bound, fds1) \<Rightarrow> (- 1, ip, fds1)
      | (Bound fd p, fds1) \<Rightarrow>
          (fd, inet_ntop (ntop env (sa_family (ai_addr p)) (get_in_addr (ai_addr p))) ip 8, fds1))"

section \<open>Signals\<close>

datatype posix_signal = SIGCHLD | SIGINT | SIGTERM

record sig_state =
  is_running :: bool
  shut_down :: bool        \<comment> \<open>the listening socket has been shut down\<close>
  errno :: int

text \<open>\<open>while (waitpid(-1, NULL, WNOHANG) > 0);\<close> on the results of successive calls, each of which may set \<open>errno\<close>.\<close>

fun reap_children :: "(int \<times> int) list \<Rightarrow> int \<Rightarrow> int" where
  "reap_children [] e = e"
| "reap_children ((r, e') # rs) e = (if r > 0 then reap_children rs e' else e')"

definition signal_handler :: "(int \<times> int) list \<Rightarrow> posix_signal \<Rightarrow> sig_state \<Rightarrow> sig_state" where
  "signal_handler waits sig s =
     (let saved_errno = errno s;
          s1 = (if sig = SIGCHLD then s\<lparr>errno := reap_children waits (errno s)\<rparr>
                else s\<lparr>is_running := False, shut_down := True\<rparr>)
      in s1\<lparr>errno := saved_errno\<rparr>)"

text \<open>
  \<open>accept\<close> on the listening socket waits for a client; \<open>arrives\<close> is the connection or the error it
  gets, if any. The handlers are installed with \<open>SA_RESTART\<close>, so a signal does not end the wait; a socket
  that has been shut down makes the call fail at once. \<open>None\<close>: the call does not return.
\<close>

definition accept_socket :: "int option \<Rightarrow> sig_state \<Rightarrow> int option" where
  "accept_socket arrives g = (if shut_down g then Some (- 1) else arrives)"

text \<open>The signals handled so far, and whether every \<open>sigaction\<close> succeeded.\<close>

definition set_signals :: "(posix_signal \<Rightarrow> int) \<Rightarrow> bool \<times> posix_signal set" where
  "set_signals sigaction =
     (if sigaction SIGCHLD = -1 then (False, {})
      else if sigaction SIGINT = -1 then (False, {SIGCHLD})
      else if sigaction SIGTERM = -1 then (False, {SIGCHLD, SIGINT})
      else (True, {SIGCHLD, SIGINT, SIGTERM}))"

section \<open>Daemon\<close>

record daemon_env =
  fork1 :: int
  setsid_ret :: int
  fork2 :: int
  devnull_fd :: int
  dup2_ret :: "int \<Rightarrow> int"    \<comment> \<open>for the three standard descriptors\<close>

record proc_state =
  session_leader :: bool
  umask_set :: bool
  cwd_root :: bool
  std_null :: "int set"       \<comment> \<open>standard descriptors redirected to \<open>/dev/null\<close>\<close>

text \<open>\<open>Inl\<close>: this process exits with that status; \<open>Inr\<close>: it goes on.\<close>

definition daemonize :: "daemon_env \<Rightarrow> proc_state \<Rightarrow> int + proc_state" where
  "daemonize env p =
     (if fork1 env < 0 then Inl EXIT_FAILURE
      else if fork1 env > 0 then Inl EXIT_SUCCESS
      else if setsid_ret env = -1 then Inl EXIT_FAILURE
      else
        (let p1 = p\<lparr>session_leader := True\<rparr> in
         if fork2 env < 0 then Inl EXIT_FAILURE
         else if fork2 env > 0 then Inl EXIT_SUCCESS
         else
           (let p2 = p1\<lparr>session_leader := False, umask_set := True, cwd_root := True\<rparr> in
            if dup2_ret env 0 < 0 then Inl EXIT_FAILURE
            else if dup2_ret env 1 < 0 then Inl EXIT_FAILURE
            else if dup2_ret env 2 < 0 then Inl EXIT_FAILURE
            else Inr (p2\<lparr>std_null := {0, 1, 2}\<rparr>))))"

section \<open>Properties\<close>

text \<open>The candidate on which the loop stops: a socket was created, and options or binding decided.\<close>

definition usable :: "addrinfo \<Rightarrow> bool" where
  "usable p \<longleftrightarrow> socket_ret p \<noteq> -1 \<and> setsockopt_ret p \<noteq> -1 \<and> bind_ret p \<noteq> -1"

definition skipped :: "addrinfo \<Rightarrow> bool" where
  "skipped p \<longleftrightarrow> socket_ret p = -1 \<or> (setsockopt_ret p \<noteq> -1 \<and> bind_ret p = -1)"

lemma bind_loop_skip: "list_all skipped ps \<Longrightarrow> bind_loop (ps @ qs) fds = bind_loop qs fds"
  by (induction ps) (auto simp: skipped_def)

lemma bind_loop_cases:
  obtains (none) "list_all skipped ps" "bind_loop ps fds = (Not_Bound, fds)"
  | (bound) qs p rs where "ps = qs @ p # rs" "list_all skipped qs" "usable p"
      "bind_loop ps fds = (Bound (socket_ret p) p, socket_ret p # fds)"
  | (gave_up) qs p rs where "ps = qs @ p # rs" "list_all skipped qs" "socket_ret p \<noteq> -1" "setsockopt_ret p = -1"
      "bind_loop ps fds = (Gave_Up, socket_ret p # fds)"
proof (cases "list_all skipped ps")
  case True
  with none bind_loop_skip [of ps "[]" fds] show thesis by simp
next
  case False
  then have "\<exists>x \<in> set ps. \<not> skipped x" by (auto simp: list_all_iff)
  from split_list_first_prop [OF this] obtain qs p rs where
    s: "ps = qs @ p # rs" "\<not> skipped p" "\<forall>x \<in> set qs. skipped x" by blast
  then have q: "list_all skipped qs" by (simp add: list_all_iff)
  with s bind_loop_skip [OF q, of "p # rs" fds] show thesis
    using bound [of qs p rs] gave_up [of qs p rs] by (auto simp: skipped_def usable_def Let_def)
qed

text \<open>
  The server listens on the first address it can bind: if \<open>start_listening\<close> returns a socket, it
  belongs to the first candidate that was not skipped, every candidate before it failed and
  had its socket closed, and no other socket is left open.
\<close>

theorem start_listening_binds_first:
  assumes "start_listening env ip fds = (fd, ip', fds')" "fd \<noteq> -1"
  shows "\<exists>qs p rs. servinfo env = qs @ p # rs \<and> list_all skipped qs \<and> usable p \<and> fd = socket_ret p \<and> fds' = fd # fds"
  using assms by (cases "servinfo env" fds rule: bind_loop_cases)
    (auto simp: start_listening_def split: if_splits)

definition ex_addr :: "int \<Rightarrow> int \<Rightarrow> int \<Rightarrow> addrinfo" where
  "ex_addr s opt b = \<lparr>ai_addr = \<lparr>sa_family = 2, sin_addr = [nul, nul, nul, nul], sin6_addr = []\<rparr>, socket_ret = s,
     setsockopt_ret = opt, bind_ret = b\<rparr>"

definition ex_listen :: "addrinfo list \<Rightarrow> listen_env" where
  "ex_listen ps = \<lparr>getaddrinfo_ret = 0, servinfo = ps, ntop = (\<lambda>_ _. ''0.0.0.0''), listen_ret = 0\<rparr>"

theorem start_listening_binds_first_witness:
  "\<exists>ip'. start_listening (ex_listen [ex_addr (-1) 0 0, ex_addr 3 0 (-1), ex_addr 3 0 0]) (replicate 46 nul) [] = (3, ip', [3]) \<and>
     (\<exists>qs p rs. [ex_addr (-1) 0 0, ex_addr 3 0 (-1), ex_addr 3 0 0] = qs @ p # rs \<and> usable p \<and> socket_ret p = 3)"
proof -
  let ?ps = "[ex_addr (-1) 0 0, ex_addr 3 0 (-1), ex_addr 3 0 0]"
  obtain ip' where r: "start_listening (ex_listen ?ps) (replicate 46 nul) [] = (3, ip', [3])"
    by (simp add: start_listening_def ex_listen_def ex_addr_def)
  with start_listening_binds_first [OF r] show ?thesis by (auto simp: ex_listen_def)
qed

text \<open>
  When \<open>start_listening\<close> fails, no socket is left open, except on one path: if \<open>setsockopt\<close> fails,
  the function returns without closing the socket it has just created.
\<close>

theorem start_listening_failure_leaks:
  assumes "start_listening env ip fds = (- 1, ip', fds')"
  shows "fds' = fds \<or>
    (\<exists>qs p rs. servinfo env = qs @ p # rs \<and> setsockopt_ret p = -1 \<and> socket_ret p \<noteq> -1 \<and> fds' = socket_ret p # fds)"
proof (cases "servinfo env" fds rule: bind_loop_cases)
  case none
  with assms show ?thesis by (auto simp: start_listening_def split: if_splits)
next
  case (bound qs p rs)
  with assms show ?thesis by (auto simp: start_listening_def usable_def split: if_splits)
next
  case (gave_up qs p rs)
  with assms show ?thesis by (auto simp: start_listening_def split: if_splits)
qed

theorem start_listening_failure_leaks_witness:
  "start_listening (ex_listen [ex_addr 3 (-1) 0]) (replicate 46 nul) [] = (- 1, replicate 46 nul, [3]) \<and>
   (\<exists>p :: addrinfo. setsockopt_ret p = -1 \<and> [3] = [socket_ret p])"
proof -
  have r: "start_listening (ex_listen [ex_addr 3 (-1) 0]) (replicate 46 nul) [] = (- 1, replicate 46 nul, [3])"
    by (simp add: start_listening_def ex_listen_def ex_addr_def)
  from start_listening_failure_leaks [OF r] obtain p :: addrinfo where "setsockopt_ret p = -1" "[3] = [socket_ret p]" by auto
  with r show ?thesis by blast
qed

text \<open>
  The signal handler changes nothing but what it is meant to: it preserves \<open>errno\<close> whatever
  \<open>waitpid\<close> does to it, stops the server and shuts the listening socket down on \<open>SIGINT\<close> and
  \<open>SIGTERM\<close>, and does neither on \<open>SIGCHLD\<close>.
\<close>

theorem signal_handler_effect:
  "signal_handler waits sig s = (if sig = SIGCHLD then s else s\<lparr>is_running := False, shut_down := True\<rparr>)"
  by (simp add: signal_handler_def Let_def)

text \<open>
  A daemon is detached completely or the process exits: if \<open>daemonize\<close> returns, the process is
  the second child (no session leader), runs in the root directory with its umask set, and
  all three standard descriptors are redirected.
\<close>

theorem daemonize_detaches:
  assumes "daemonize env p = Inr p'"
  shows "fork1 env = 0 \<and> setsid_ret env \<noteq> -1 \<and> fork2 env = 0 \<and>
    p' = \<lparr>session_leader = False, umask_set = True, cwd_root = True, std_null = {0, 1, 2}\<rparr>"
  using assms by (auto simp: daemonize_def Let_def split: if_splits)

theorem daemonize_detaches_witness:
  "\<exists>p'. daemonize \<lparr>fork1 = 0, setsid_ret = 7, fork2 = 0, devnull_fd = 5, dup2_ret = (\<lambda>d. d)\<rparr>
      \<lparr>session_leader = False, umask_set = False, cwd_root = False, std_null = {}\<rparr> = Inr p' \<and> std_null p' = {0, 1, 2}"
proof -
  let ?e = "\<lparr>fork1 = 0, setsid_ret = 7, fork2 = 0, devnull_fd = 5, dup2_ret = (\<lambda>d. d)\<rparr>"
  let ?p = "\<lparr>session_leader = False, umask_set = False, cwd_root = False, std_null = {}\<rparr>"
  obtain p' where r: "daemonize ?e ?p = Inr p'" by (simp add: daemonize_def)
  with daemonize_detaches [OF r] show ?thesis by auto
qed

end
