(* ===== verification/Itimer.thy ===== *)
theory Itimer
  imports Sock_Thread
begin

text \<open>
  \<open>server/itimer_thread.c\<close>: the timer that appends a time stamp to \<open>OUTPUT_FILE\<close> every ten seconds
  when the server is built without the character device. The text \<open>strftime\<close> produces is an
  argument; the output file is an \<open>out_file\<close> as in \<open>Sock_Thread\<close>.
\<close>

abbreviation (input) STRFTIME_BUF_SIZE :: nat where "STRFTIME_BUF_SIZE \<equiv> 200"

record timer_env =
  tm_fopen_ok :: bool
  tm_lock :: int
  strftime_text :: bytes      \<comment> \<open>what \<open>strftime\<close> stores; empty if it fails\<close>
  tm_stack :: bytes           \<comment> \<open>the buffer before the call, 200 characters\<close>
  tm_unlock :: int

record 'd timer_out =
  tm_dev :: 'd
  tm_held :: bool
  tm_file_open :: bool

text \<open>\<open>strftime\<close> returns the number of characters without the terminator.\<close>

definition strftime_buf :: "timer_env \<Rightarrow> bytes" where
  "strftime_buf env = overwrite (tm_stack env) 0 (strftime_text env @ [nul])"

definition strlen :: "bytes \<Rightarrow> fault + nat" where
  "strlen bs = (let n = length (takeWhile (\<lambda>c. c \<noteq> nul) bs) in if n < length bs then Inr n else Inl Out_Of_Bounds)"

definition timer_thread :: "timer_env \<Rightarrow> 'd out_file \<Rightarrow> 'd \<Rightarrow> fault + 'd timer_out" where
  "timer_thread env api d =
     (if \<not> tm_fopen_ok env then Inr \<lparr>tm_dev = d, tm_held = False, tm_file_open = False\<rparr>
      else if tm_lock env \<noteq> 0 then Inr \<lparr>tm_dev = d, tm_held = False, tm_file_open = False\<rparr>
      else
        (let rc = length (strftime_text env);
             held = (tm_unlock env \<noteq> 0)
         in if rc = 0 then Inr \<lparr>tm_dev = d, tm_held = held, tm_file_open = False\<rparr>
            else
              (let rc1 = (if rc > STRFTIME_BUF_SIZE - 1 then STRFTIME_BUF_SIZE - 1 else rc);
                   buf = (strftime_buf env)[rc1 - 1 := newline, rc1 := nul]
               in if rc1 \<ge> length buf then Inl Out_Of_Bounds
                  else ebind (strlen buf) (\<lambda>n.
                       ebind (of_append api (take n buf) d) (\<lambda>(_, _, d').
                         Inr \<lparr>tm_dev = d', tm_held = held, tm_file_open = False\<rparr>)))))"

record itimerspec =
  it_interval_sec :: int
  it_interval_nsec :: int
  it_value_sec :: int
  it_value_nsec :: int

text \<open>The result, and the interval the timer is armed with.\<close>

definition start_timer :: "int \<Rightarrow> int \<Rightarrow> int \<Rightarrow> bool \<times> itimerspec option" where
  "start_timer timer_create_ret timer_settime_ret interval_sec =
     (if timer_create_ret \<noteq> 0 then (False, None)
      else
        (let interval = \<lparr>it_interval_sec = interval_sec, it_interval_nsec = 0, it_value_sec = interval_sec, it_value_nsec = 0\<rparr>
         in if timer_settime_ret \<noteq> 0 then (False, None) else (True, Some interval)))"

section \<open>Properties\<close>

lemma timer_buffer:
  assumes "tx \<noteq> []" "length tx < 200" "length st = 200" "nul \<notin> set tx"
  defines "buf \<equiv> (overwrite st 0 (tx @ [nul]))[length tx - 1 := newline, length tx := nul]"
  shows "length buf = 200" "strlen buf = Inr (length tx)" "take (length tx) buf = butlast tx @ [newline]"
proof -
  obtain t x where t: "tx = t @ [x]" using assms(1) by (cases tx rule: rev_cases) auto
  let ?r = "drop (Suc (length tx)) st"
  have b: "buf = t @ newline # nul # ?r"
    by (simp add: buf_def overwrite_def t list_update_append)
  show "length buf = 200" using assms(2,3) by (simp add: b t)
  have "takeWhile (\<lambda>c. c \<noteq> nul) ((t @ [newline]) @ nul # ?r) = t @ [newline]"
    using assms(4) t by (subst takeWhile_append2) auto
  then have "takeWhile (\<lambda>c. c \<noteq> nul) buf = t @ [newline]" by (simp add: b)
  then show "strlen buf = Inr (length tx)" by (simp add: strlen_def Let_def t b)
  show "take (length tx) buf = butlast tx @ [newline]" by (simp add: b t)
qed

text \<open>
  The timer appends exactly one line per tick: the formatted time with its last character replaced
  by a newline, composed within the buffer; afterwards the mutex and the file are released.
\<close>

theorem timer_thread_appends_line:
  assumes "tm_fopen_ok env" "tm_lock env = 0" "tm_unlock env = 0" "length (tm_stack env) = 200"
    "strftime_text env \<noteq> []" "length (strftime_text env) < 200" "nul \<notin> set (strftime_text env)"
    "of_append api (butlast (strftime_text env) @ [newline]) d = Inr (w, e, d')"
  shows "timer_thread env api d = Inr \<lparr>tm_dev = d', tm_held = False, tm_file_open = False\<rparr>"
  using timer_buffer [OF assms(5,6,4,7)] assms
  by (simp add: timer_thread_def strftime_buf_def Let_def)

theorem timer_thread_appends_line_witness:
  "timer_thread \<lparr>tm_fopen_ok = True, tm_lock = 0, strftime_text = ''12:00'', tm_stack = replicate 200 nul, tm_unlock = 0\<rparr> ex_store ''x'' =
     Inr \<lparr>tm_dev = ''x12:0'' @ [newline], tm_held = False, tm_file_open = False\<rparr>"
  by (rule timer_thread_appends_line) (simp_all add: ex_store_def of_append_def)

end
