(* ===== verification/Server_Main.thy ===== *)
theory Server_Main
  imports Server_Threads Server_Start Itimer
begin

text \<open>
  \<open>main\<close> of \<open>server/main.c\<close>: the start-up sequence with its error exits, the accept loop and the
  clean-up. One element of the environment's list is one iteration of the accept loop: whether a
  client connects, what \<open>malloc\<close> and \<open>pthread_create\<close> return, whether a terminating signal arrives
  while \<open>accept\<close> waits or later in the iteration, and which client threads finish meanwhile. The
  loop waiting in \<open>accept\<close> for ever, or the list running out with the loop still going, is a run that
  does not end, or is observed only in part: \<open>None\<close>. The
  client threads' own behaviour is \<open>sock_thread_func\<close>.

  Both builds are modelled: with \<open>USE_AESD_CHAR_DEVICE\<close>, as \<open>aesdsocket.h\<close> has it, and without, where
  \<open>main\<close> also starts and deletes the time stamp timer and removes the output file at the end
  (\<open>build_env\<close>).
\<close>

section \<open>The accept loop\<close>

record iter_env =
  accept_ret :: "int option"           \<comment> \<open>the connection or error \<open>accept\<close> gets; \<open>None\<close> if it waits in vain\<close>
  sig_in_accept :: bool
  client_txt :: bytes                  \<comment> \<open>the client's address as text\<close>
  it_malloc :: "args_heap \<Rightarrow> ptr"      \<comment> \<open>what \<open>malloc\<close> returns, given the heap\<close>
  create_ret :: int
  create_tid :: u64
  now_finished :: "nat list"
  sig_after :: bool

record main_state =
  sigs :: sig_state
  threads :: thread_list
  ip_buf :: bytes            \<comment> \<open>\<open>ip_address\<close>, an array of \<open>INET6_ADDRSTRLEN\<close> characters\<close>
  joined :: "u64 list"
  created :: "u64 list"

definition raise_term :: "bool \<Rightarrow> main_state \<Rightarrow> main_state" where
  "raise_term b s = (if b then s\<lparr>sigs := signal_handler [] SIGTERM (sigs s)\<rparr> else s)"

text \<open>\<open>pthread_create\<close> stores the identifier in the new node.\<close>

definition set_tid :: "nat \<Rightarrow> u64 \<Rightarrow> args_heap \<Rightarrow> args_heap" where
  "set_tid a t h = h(a := map_option (\<lambda>n. n\<lparr>thread_id := t\<rparr>) (h a))"

text \<open>
  A successful iteration from \<open>accept\<close> on: the new node is linked and finished threads are
  joined.
\<close>

definition link_and_reap :: "iter_env \<Rightarrow> main_state \<Rightarrow> nat \<Rightarrow> args_heap \<Rightarrow> (fault + main_state) option" where
  "link_and_reap it s a h =
     (case SLIST_INSERT_HEAD ((threads s)\<lparr>heap := set_tid a (create_tid it) h\<rparr>) (Ptr a) of
        Inl e \<Rightarrow> Some (Inl e)
      | Inr ts \<Rightarrow>
          (case remove_joinable_threads (mark_finished (now_finished it) ts) of
             None \<Rightarrow> None
           | Some (Inl e) \<Rightarrow> Some (Inl e)
           | Some (Inr (ts', js)) \<Rightarrow>
               Some (Inr (s\<lparr>threads := ts', joined := joined s @ js, created := created s @ [create_tid it]\<rparr>))))"

text \<open>
  The part of an iteration after a successful \<open>accept\<close>. The loop goes on with the new state
  (\<open>Inl\<close>), or is left by a \<open>goto\<close> with \<open>exit_code\<close>, \<open>client_sock_fd\<close> and the state (\<open>Inr\<close>).
\<close>

definition start_client ::
  "iter_env \<Rightarrow> int \<Rightarrow> main_state \<Rightarrow> (fault + main_state + int \<times> int \<times> main_state) option" where
  "start_client it fd s1 =
     (let ip = inet_ntop (client_txt it) (ip_buf s1) INET6_ADDRSTRLEN;
          s2 = s1\<lparr>ip_buf := ip\<rparr>
      in case init_thread (it_malloc it (heap (threads s2))) (heap (threads s2)) (Ptr 0) fd ip of
           Inl e \<Rightarrow> Some (Inl e)
         | Inr (NULL, _) \<Rightarrow> Some (Inr (Inr (EXIT_FAILURE, fd, s2)))
         | Inr (Ptr a, h) \<Rightarrow>
             if create_ret it \<noteq> 0 then
               Some (ebind (free_node ((threads s2)\<lparr>heap := h\<rparr>) (Ptr a)) (\<lambda>ts.
                 Inr (Inr (EXIT_FAILURE, fd, s2\<lparr>threads := ts\<rparr>))))
             else map_option (\<lambda>r. ebind r (\<lambda>s3. Inr (Inl s3))) (link_and_reap it s2 a h))"

text \<open>The loop; its result is \<open>exit_code\<close>, \<open>client_sock_fd\<close> and the state at the label after the loop.\<close>

fun accept_loop :: "iter_env list \<Rightarrow> main_state \<Rightarrow> int \<Rightarrow> (fault + int \<times> int \<times> main_state) option" where
  "accept_loop its s client_sock_fd =
     (if \<not> is_running (sigs s) then Some (Inr (EXIT_SUCCESS, client_sock_fd, s))
      else case its of [] \<Rightarrow> None
      | it # its' \<Rightarrow>
          (let s1 = raise_term (sig_in_accept it) s in
           case accept_socket (accept_ret it) (sigs s1) of None \<Rightarrow> None
           | Some fd \<Rightarrow>
               if fd = -1 then
                 (if is_running (sigs s1) then accept_loop its' (raise_term (sig_after it) s1) (- 1)
                  else Some (Inr (EXIT_SUCCESS, - 1, s1)))
               else
                 (case start_client it fd s1 of
                    None \<Rightarrow> None
                  | Some (Inl e) \<Rightarrow> Some (Inl e)
                  | Some (Inr (Inr r)) \<Rightarrow> Some (Inr r)
                  | Some (Inr (Inl s3)) \<Rightarrow> accept_loop its' (raise_term (sig_after it) s3) (- 1))))"

declare accept_loop.simps [simp del]

section \<open>Clean-up and main\<close>

record main_out =
  exit_code :: int
  closed_fds :: "int list"     \<comment> \<open>client sockets \<open>main\<close> closed itself\<close>
  out_threads :: thread_list
  out_joined :: "u64 list"
  listening :: "int list"      \<comment> \<open>server sockets still open\<close>
  timer_armed :: bool
  file_removed :: bool

abbreviation (input) TIMER_INTERVAL_SECS :: int where "TIMER_INTERVAL_SECS \<equiv> 10"

record build_env =
  char_device :: bool          \<comment> \<open>is \<open>USE_AESD_CHAR_DEVICE\<close> defined?\<close>
  timer_create_ret :: int
  timer_settime_ret :: int
  timer_delete_ret :: int
  remove_ret :: int

text \<open>From the label \<open>err_pthread_create\<close> to \<open>closelog\<close>; \<open>fds\<close> are the open server sockets, \<open>fd\<close> the one in use.\<close>

definition main_cleanup ::
  "build_env \<Rightarrow> nat list list \<Rightarrow> int \<Rightarrow> int list \<Rightarrow> int \<times> int \<times> main_state \<Rightarrow> (fault + main_out) option" where
  "main_cleanup bld sched fd fds r =
     (let (code, client_sock_fd, s) = r in
      case remove_all_remaining_threads sched (threads s) (joined s) of
        None \<Rightarrow> None
      | Some (Inl e) \<Rightarrow> Some (Inl e)
      | Some (Inr (ts, js)) \<Rightarrow>
          Some (Inr \<lparr>exit_code = code, closed_fds = (if client_sock_fd \<noteq> -1 then [client_sock_fd] else []),
                     out_threads = ts, out_joined = js, listening = remove1 fd fds,
                     timer_armed = (\<not> char_device bld \<and> timer_delete_ret bld \<noteq> 0),
                     file_removed = (\<not> char_device bld \<and> remove_ret bld \<noteq> -1)\<rparr>))"

record main_env =
  argv :: "bytes list"
  listen_e :: listen_env
  sigaction_ret :: "posix_signal \<Rightarrow> int"
  daemon_e :: daemon_env
  mutex_init_ret :: int
  iters :: "iter_env list"
  finish_sched :: "nat list list"
  stack_ip :: bytes            \<comment> \<open>what is in \<open>ip_address\<close> before it is written\<close>
  stack_fd :: int              \<comment> \<open>what is in \<open>client_sock_fd\<close> before it is written\<close>
  early_term :: bool           \<comment> \<open>a terminating signal before \<open>is_running = true\<close>\<close>
  term_at_loop :: bool         \<comment> \<open>a terminating signal between \<open>is_running = true\<close> and the loop's first test\<close>
  build :: build_env

definition empty_list :: thread_list where
  "empty_list = \<lparr>list_head = \<lparr>slh_first = NULL\<rparr>, heap = Map.empty\<rparr>"

definition exit_now :: "int \<Rightarrow> int list \<Rightarrow> main_out" where
  "exit_now code fds = \<lparr>exit_code = code, closed_fds = [], out_threads = empty_list, out_joined = [], listening = fds,
     timer_armed = False, file_removed = False\<rparr>"

definition start_state :: "main_env \<Rightarrow> bytes \<Rightarrow> main_state" where
  "start_state env ip =
     (let s0 = \<lparr>sigs = \<lparr>is_running = False, shut_down = False, errno = 0\<rparr>, threads = SLIST_INIT empty_list, ip_buf = ip,
                joined = [], created = []\<rparr>;
          s1 = raise_term (early_term env) s0
      in raise_term (term_at_loop env) (s1\<lparr>sigs := (sigs s1)\<lparr>is_running := True\<rparr>\<rparr>))"

definition server_main :: "main_env \<Rightarrow> (fault + main_out) option" where
  "server_main env =
     (case parse_args (argv env) False of
        Inl code \<Rightarrow> Some (Inr (exit_now code []))
      | Inr should_daemonize \<Rightarrow>
          (let (fd, ip, fds) = start_listening (listen_e env) (stack_ip env) [] in
           if fd = -1 then Some (Inr (exit_now EXIT_FAILURE fds))
           else if \<not> fst (set_signals (sigaction_ret env)) then
             Some (Inr (exit_now EXIT_FAILURE (remove1 fd fds)))
           else
             case (if should_daemonize
                   then daemonize (daemon_e env) \<lparr>session_leader = False, umask_set = False, cwd_root = False, std_null = {}\<rparr>
                   else Inr \<lparr>session_leader = False, umask_set = False, cwd_root = False, std_null = {}\<rparr>) of
               Inl code \<Rightarrow> Some (Inr (exit_now code []))
             | Inr _ \<Rightarrow>
                 if mutex_init_ret env \<noteq> 0 then Some (Inr (exit_now EXIT_FAILURE (remove1 fd fds)))
                 else if \<not> char_device (build env) \<and>
                   \<not> fst (start_timer (timer_create_ret (build env)) (timer_settime_ret (build env)) TIMER_INTERVAL_SECS)
                 then Some (Inr (exit_now EXIT_FAILURE (remove1 fd fds)))
                 else
                   (case accept_loop (iters env) (start_state env ip) (stack_fd env) of
                      None \<Rightarrow> None
                    | Some (Inl e) \<Rightarrow> Some (Inl e)
                    | Some (Inr r) \<Rightarrow> main_cleanup (build env) (finish_sched env) fd fds r)))"

section \<open>Invariant of the accept loop\<close>

lemma strncpy_bounded: "n \<le> length src \<Longrightarrow> \<exists>s. strncpy src n = Inr s"
proof -
  assume n: "n \<le> length src"
  have "length (takeWhile (\<lambda>c. c \<noteq> nul) (take n src)) \<le> n"
    using length_takeWhile_le [of "\<lambda>c. c \<noteq> nul" "take n src"] n by simp
  with n show ?thesis by (auto simp: strncpy_def Let_def)
qed

lemma init_thread_node:
  "length ip = 46 \<Longrightarrow> \<exists>n. init_thread (Ptr a) h m fd ip = Inr (Ptr a, h(a \<mapsto> n)) \<and> \<not> finished n"
  using strncpy_bounded [of 45 ip] by (auto simp: init_thread_def zero_args_def)

lemma length_inet_ntop [simp]: "length (inet_ntop txt dst n) = length dst"
  by (simp add: inet_ntop_def)

text \<open>
  The nodes allocated are exactly those linked, and every thread created has either been
  joined or is still linked.
\<close>

definition main_inv :: "main_state \<Rightarrow> bool" where
  "main_inv s \<longleftrightarrow> length (ip_buf s) = 46 \<and>
     (\<exists>as. list_repr (threads s) as \<and> dom (payload (threads s)) = set as \<and>
        mset (created s) = mset (joined s) + mset (map (tid (threads s)) as))"

definition malloc_fresh :: "iter_env \<Rightarrow> bool" where
  "malloc_fresh it \<longleftrightarrow> (\<forall>h a. it_malloc it h = Ptr a \<longrightarrow> h a = None)"

lemma raise_term_fields [simp]:
  "threads (raise_term b s) = threads s" "ip_buf (raise_term b s) = ip_buf s" "joined (raise_term b s) = joined s"
  "created (raise_term b s) = created s" "is_running (sigs (raise_term b s)) = (is_running (sigs s) \<and> \<not> b)"
  "shut_down (sigs (raise_term b s)) = (shut_down (sigs s) \<or> b)"
  by (simp_all add: raise_term_def signal_handler_def Let_def)

lemma main_inv_raise [simp]: "main_inv (raise_term b s) = main_inv s"
  by (simp add: main_inv_def)

lemma mark_finished_dom: "dom (payload (mark_finished f s)) = dom (payload s)"
  by (auto simp: mark_finished_payload split: if_splits)

lemma link_and_reap_inv:
  assumes inv: "main_inv s" and fresh: "heap (threads s) a = None"
  shows "\<exists>s'. link_and_reap it s a ((heap (threads s))(a \<mapsto> n)) = Some (Inr s') \<and> main_inv s' \<and> sigs s' = sigs s"
proof -
  from inv obtain as where as: "list_repr (threads s) as" "dom (payload (threads s)) = set as"
    "mset (created s) = mset (joined s) + mset (map (tid (threads s)) as)" "length (ip_buf s) = 46"
    by (auto simp: main_inv_def)
  let ?h = "set_tid a (create_tid it) ((heap (threads s))(a \<mapsto> n))"
  let ?t = "(threads s)\<lparr>heap := ?h\<rparr>"
  have pa: "payload (threads s) a = None" using fresh by (simp add: payload_def)
  then have na: "a \<notin> set as" using as(2) by auto
  have p: "payload ?t = (payload (threads s))(a \<mapsto> n\<lparr>thread_id := create_tid it, sle_next := NULL\<rparr>)"
    by (rule ext) (simp add: payload_def set_tid_def)
  have "list_repr ?t as"
    using as(1) na by (auto simp: list_repr_def SLIST_FIRST_def set_tid_def intro: links_frame)
  with sl.insert_law [OF this na] p obtain ts where
    ts: "SLIST_INSERT_HEAD ?t (Ptr a) = Inr ts" "list_repr ts (a # as)" "payload ts = payload ?t" by auto
  let ?m = "mark_finished (now_finished it) ts" and ?as = "a # as"
  from remove_joinable_spec [OF mark_finished_repr [OF ts(2)], of "now_finished it"] obtain ts' where
    ts': "remove_joinable_threads ?m = Some (Inr (ts', map (tid ?m) (filter (is_finished ?m) ?as)))"
      "list_repr ts' (filter (\<lambda>b. \<not> is_finished ?m b) ?as)"
      "payload ts' = (\<lambda>b. if b \<in> set ?as \<and> is_finished ?m b then None else payload ?m b)" by blast
  have t1: "tid ts' b = tid ?m b" if "b \<in> set (filter (\<lambda>b. \<not> is_finished ?m b) ?as)" for b
    using that unfolding set_filter by (simp add: tid_def ts'(3))
  have t2: "map (tid ?m) ?as = create_tid it # map (tid (threads s)) as"
    unfolding mark_finished_is_finished(2) [abs_def] using na by (auto simp: tid_def ts(3) p)
  have dm: "dom (payload ?m) = set ?as"
    using as(2) by (simp add: mark_finished_dom ts(3) p)
  have d: "dom (payload ts') = set (filter (\<lambda>b. \<not> is_finished ?m b) ?as)"
    unfolding set_filter ts'(3) dm [symmetric] by (auto split: if_splits)
  let ?s = "s\<lparr>threads := ts', joined := joined s @ map (tid ?m) (filter (is_finished ?m) ?as),
      created := created s @ [create_tid it]\<rparr>"
  have "map (tid ts') (filter (\<lambda>b. \<not> is_finished ?m b) ?as) = map (tid ?m) (filter (\<lambda>b. \<not> is_finished ?m b) ?as)"
    using t1 by (intro map_cong) auto
  with mset_map_split [of "tid ?m" "is_finished ?m" ?as]
  have "mset (created ?s) = mset (joined ?s) + mset (map (tid ts') (filter (\<lambda>b. \<not> is_finished ?m b) ?as))"
    using as(3) t2 by (simp only: t2 mset.simps) simp
  then have "main_inv ?s" unfolding main_inv_def using ts'(2) d as(4) by auto
  moreover have "link_and_reap it s a ((heap (threads s))(a \<mapsto> n)) = Some (Inr ?s)"
    using ts(1) ts'(1) by (simp add: link_and_reap_def)
  ultimately show ?thesis by auto
qed

lemma start_client_cases:
  assumes inv: "main_inv s" and fresh: "malloc_fresh it"
  obtains (linked) s' where "start_client it fd s = Some (Inr (Inl s'))" "main_inv s'" "sigs s' = sigs s"
  | (failed) s' where "start_client it fd s = Some (Inr (Inr (EXIT_FAILURE, fd, s')))" "main_inv s'"
proof -
  define ip where "ip = inet_ntop (client_txt it) (ip_buf s) 46"
  define s2 where "s2 = s\<lparr>ip_buf := ip\<rparr>"
  define h where "h = heap (threads s2)"
  have i2: "main_inv s2" using inv by (simp add: s2_def ip_def main_inv_def)
  have ip: "length ip = 46" using i2 by (simp add: main_inv_def s2_def)
  have sg: "sigs s2 = sigs s" by (simp add: s2_def)
  have unf: "start_client it fd s =
      (case init_thread (it_malloc it h) h (Ptr 0) (fd) ip of
           Inl e \<Rightarrow> Some (Inl e)
         | Inr (NULL, _) \<Rightarrow> Some (Inr (Inr (EXIT_FAILURE, fd, s2)))
         | Inr (Ptr a, h) \<Rightarrow>
             if create_ret it \<noteq> 0 then
               Some (ebind (free_node ((threads s2)\<lparr>heap := h\<rparr>) (Ptr a)) (\<lambda>ts.
                 Inr (Inr (EXIT_FAILURE, fd, s2\<lparr>threads := ts\<rparr>))))
             else map_option (\<lambda>r. ebind r (\<lambda>s3. Inr (Inl s3))) (link_and_reap it s2 a h))"
    unfolding start_client_def Let_def ip_def [symmetric] s2_def [symmetric] h_def [symmetric] ..
  show thesis
  proof (cases "it_malloc it h")
    case NULL
    then have "init_thread (it_malloc it h) h (Ptr 0) (fd) ip = Inr (NULL, h)"
      by (simp add: init_thread_def)
    with failed [OF _ i2] show thesis by (simp add: unf)
  next
    case (Ptr a)
    with fresh have fr: "h a = None" by (auto simp: malloc_fresh_def)
    obtain n where n: "init_thread (it_malloc it h) h (Ptr 0) (fd) ip = Inr (Ptr a, h(a \<mapsto> n))"
      using init_thread_node [OF ip] Ptr by metis
    show thesis
    proof (cases "create_ret it = 0")
      case True
      from link_and_reap_inv [OF i2, of a it n] fr obtain s3 where
        "link_and_reap it s2 a (h(a \<mapsto> n)) = Some (Inr s3)" "main_inv s3" "sigs s3 = sigs s2" by (auto simp: h_def)
      with linked [of s3] n True sg show thesis by (simp add: unf)
    next
      case False
      have "free_node ((threads s2)\<lparr>heap := h(a \<mapsto> n)\<rparr>) (Ptr a) = Inr (threads s2)"
        using fr by (simp add: free_node_def h_def fun_upd_idem)
      with failed [OF _ i2] n False show thesis by (simp add: unf)
    qed
  qed
qed

text \<open>One iteration: it goes on, or leaves the loop, by the signal or by an error, or waits in \<open>accept\<close>.\<close>

lemma accept_step:
  assumes inv: "main_inv s" and run: "is_running (sigs s)" and fresh: "malloc_fresh it"
  obtains (continue) s' where "accept_loop (it # its) s c = accept_loop its (raise_term (sig_after it) s') (- 1)"
      "main_inv s'" "is_running (sigs s')" "\<not> sig_in_accept it"
  | (stop) s' where "accept_loop (it # its) s c = Some (Inr (EXIT_SUCCESS, - 1, s'))" "main_inv s'" "\<not> is_running (sigs s')"
  | (fail) s' fd where "accept_loop (it # its) s c = Some (Inr (EXIT_FAILURE, fd, s'))" "main_inv s'" "fd \<noteq> -1"
  | (blocked) "accept_loop (it # its) s c = None" "accept_ret it = None" "\<not> sig_in_accept it"
proof -
  let ?s = "raise_term (sig_in_accept it) s"
  have i: "main_inv ?s" using inv by simp
  note unf = accept_loop.simps [of "it # its" s c]
  show thesis
  proof (cases "accept_socket (accept_ret it) (sigs ?s)")
    case None
    then have "accept_ret it = None" "\<not> sig_in_accept it" by (auto simp: accept_socket_def split: if_splits)
    moreover have "accept_loop (it # its) s c = None" using run None by (simp add: unf Let_def)
    ultimately show thesis using blocked by blast
  next
    case (Some fd)
    show thesis
    proof (cases "fd = -1")
      case True
      with Some run continue [of ?s] stop [of ?s] i show thesis by (cases "sig_in_accept it") (simp_all add: unf Let_def)
    next
      case False
      with Some have ns: "\<not> sig_in_accept it" by (auto simp: accept_socket_def split: if_splits)
      show thesis
      proof (rule start_client_cases [OF i fresh, of fd])
        fix s' assume "start_client it fd ?s = Some (Inr (Inl s'))" "main_inv s'" "sigs s' = sigs ?s"
        with continue [of s'] run False Some ns show thesis by (simp add: unf Let_def)
      next
        fix s' assume "start_client it fd ?s = Some (Inr (Inr (EXIT_FAILURE, fd, s')))" "main_inv s'"
        with fail [of fd s'] run False Some show thesis by (simp add: unf Let_def)
      qed
    qed
  qed
qed

lemma accept_loop_stopped: "\<not> is_running (sigs s) \<Longrightarrow> accept_loop its s c = Some (Inr (EXIT_SUCCESS, c, s))"
  by (simp add: accept_loop.simps)

lemma accept_loop_inv:
  assumes "main_inv s" "list_all malloc_fresh its" "accept_loop its s c = Some r"
  shows "\<exists>code fd s'. r = Inr (code, fd, s') \<and> main_inv s' \<and>
    (code = EXIT_SUCCESS \<and> \<not> is_running (sigs s') \<and> (fd = -1 \<or> fd = c) \<or> code = EXIT_FAILURE \<and> fd \<noteq> -1)"
  using assms
proof (induction its arbitrary: s c)
  case Nil
  then show ?case by (auto simp: accept_loop.simps split: if_splits)
next
  case (Cons it its)
  show ?case
  proof (cases "is_running (sigs s)")
    case False
    with Cons.prems show ?thesis by (auto simp: accept_loop_stopped)
  next
    case True
    from Cons.prems have m: "malloc_fresh it" "list_all malloc_fresh its" by simp_all
    show ?thesis
    proof (cases rule: accept_step [OF Cons.prems(1) True m(1), of its c, case_names continue stop fail blocked])
      case (continue s')
      with Cons.IH [of "raise_term (sig_after it) s'" "- 1"] Cons.prems(3) m(2) show ?thesis by auto
    next
      case (stop s')
      with Cons.prems(3) show ?thesis by auto
    next
      case (fail s' fd)
      with Cons.prems(3) show ?thesis by auto
    next
      case blocked
      with Cons.prems(3) show ?thesis by simp
    qed
  qed
qed

text \<open>
  The loop ends in the iteration of a terminating signal: if the signal comes while \<open>accept\<close> waits,
  even if no client connects any more; if it comes later, the iteration was got through.
\<close>

definition ends_loop :: "iter_env \<Rightarrow> bool" where
  "ends_loop it \<longleftrightarrow> sig_in_accept it \<or> sig_after it \<and> accept_ret it \<noteq> None"

lemma accept_loop_ends:
  assumes "main_inv s" "list_all malloc_fresh (pre @ it # post)" "\<forall>x \<in> set pre. accept_ret x \<noteq> None" "ends_loop it"
  shows "\<exists>r. accept_loop (pre @ it # post) s c = Some r"
  using assms
proof (induction pre arbitrary: s c)
  case Nil
  show ?case
  proof (cases "is_running (sigs s)")
    case False
    then show ?thesis by (simp add: accept_loop_stopped)
  next
    case True
    from Nil.prems have m: "malloc_fresh it" by simp
    have "\<exists>r. accept_loop (it # post) s c = Some r"
    proof (cases rule: accept_step [OF Nil.prems(1) True m, of post c, case_names continue stop fail blocked])
      case (continue s')
      with Nil.prems(4) show ?thesis by (simp add: ends_loop_def accept_loop_stopped)
    qed (use Nil.prems(4) in \<open>auto simp: ends_loop_def\<close>)
    then show ?thesis by simp
  qed
next
  case (Cons x pre)
  show ?case
  proof (cases "is_running (sigs s)")
    case False
    then show ?thesis by (simp add: accept_loop_stopped)
  next
    case True
    from Cons.prems have m: "malloc_fresh x" "accept_ret x \<noteq> None" by simp_all
    have "\<exists>r. accept_loop (x # pre @ it # post) s c = Some r"
    proof (cases rule: accept_step [OF Cons.prems(1) True m(1), of "pre @ it # post" c, case_names continue stop fail blocked])
      case (continue s')
      with Cons.IH [of "raise_term (sig_after x) s'" "- 1"] Cons.prems show ?thesis by simp
    qed (use m(2) in auto)
    then show ?thesis by simp
  qed
qed

lemma main_inv_start: "length ip = 46 \<Longrightarrow> main_inv (start_state env ip)"
  by (auto simp: main_inv_def start_state_def Let_def SLIST_INIT_def empty_list_def list_repr_def SLIST_FIRST_def payload_def
      intro!: exI [of _ "[]"])

lemma start_state_sigs: "is_running (sigs (start_state env ip)) \<or> shut_down (sigs (start_state env ip))"
  by (simp add: start_state_def Let_def)

lemma payload_dom: "dom (payload t) = dom (heap t)"
  by (auto simp: payload_def)

lemma main_cleanup_spec:
  assumes inv: "main_inv s" and fin: "dom (heap (threads s)) \<subseteq> set (concat sched)" "sched \<noteq> []"
  shows "\<exists>out. main_cleanup bld sched fd [fd] (code, c, s) = Some (Inr out) \<and> exit_code out = code \<and>
    closed_fds out = (if c \<noteq> -1 then [c] else []) \<and> heap (out_threads out) = Map.empty \<and>
    mset (out_joined out) = mset (created s) \<and> listening out = [] \<and>
    timer_armed out = (\<not> char_device bld \<and> timer_delete_ret bld \<noteq> 0) \<and>
    file_removed out = (\<not> char_device bld \<and> remove_ret bld \<noteq> -1)"
proof -
  from inv obtain as where as: "list_repr (threads s) as" "dom (payload (threads s)) = set as"
    "mset (created s) = mset (joined s) + mset (map (tid (threads s)) as)" by (auto simp: main_inv_def)
  have "\<forall>a \<in> set as. is_finished (threads s) a \<or> a \<in> set (concat sched)"
    using fin(1) as(2) by (auto simp: payload_dom)
  from remove_all_spec [OF as(1) this, of "joined s"] fin(2) obtain ts js where
    t: "remove_all_remaining_threads sched (threads s) (joined s) = Some (Inr (ts, joined s @ js))"
      "mset js = mset (map (tid (threads s)) as)" "dom (payload ts) = {}" using as(2) by auto
  have "dom (heap ts) = {}" using t(3) by (simp only: payload_dom)
  then have "heap ts = Map.empty" by (simp only: dom_eq_empty_conv)
  with t as(3) show ?thesis by (simp add: main_cleanup_def)
qed

section \<open>Properties\<close>

text \<open>
  C9: The server stops: if it starts up and a terminating signal arrives in any iteration of the accept
  loop, whether \<open>main\<close> is waiting in \<open>accept\<close> for a client that never comes, which the handler's
  \<open>shutdown\<close> ends, or doing something else, the process ends, provided the client threads do. By then every thread created has
  been joined exactly once, every node has been freed and the listening socket is closed; the
  exit status is 0, or 1 if an allocation or a thread creation failed first, in which case
  the client's socket has been closed. In the build without the character device the timer has
  been deleted and the output file removed, unless those calls failed.
\<close>

theorem server_stops_cleanly:
  assumes start: "parse_args (argv env) False = Inr False" "start_listening (listen_e env) (stack_ip env) [] = (fd, ip, [fd])"
      "fd \<noteq> -1" "fst (set_signals (sigaction_ret env))" "mutex_init_ret env = 0" "length ip = 46"
      "\<not> char_device (build env) \<Longrightarrow> timer_create_ret (build env) = 0 \<and> timer_settime_ret (build env) = 0"
    and iters: "list_all malloc_fresh (iters env)" "iters env = pre @ it # post" "\<forall>x \<in> set pre. accept_ret x \<noteq> None"
      "sig_in_accept it \<or> sig_after it \<and> accept_ret it \<noteq> None"
    and fin: "\<forall>code c s. accept_loop (iters env) (start_state env ip) (stack_fd env) = Some (Inr (code, c, s)) \<longrightarrow>
      dom (heap (threads s)) \<subseteq> set (concat (finish_sched env))" "finish_sched env \<noteq> []"
  shows "\<exists>code c s out. accept_loop (iters env) (start_state env ip) (stack_fd env) = Some (Inr (code, c, s)) \<and>
    server_main env = Some (Inr out) \<and> exit_code out = code \<and> code \<in> {EXIT_SUCCESS, EXIT_FAILURE} \<and>
    (code = EXIT_FAILURE \<longrightarrow> closed_fds out = [c]) \<and> heap (out_threads out) = Map.empty \<and>
    mset (out_joined out) = mset (created s) \<and> listening out = [] \<and>
    (timer_armed out \<longrightarrow> timer_delete_ret (build env) \<noteq> 0) \<and>
    (file_removed out \<longleftrightarrow> \<not> char_device (build env) \<and> remove_ret (build env) \<noteq> -1)"
proof -
  note i = main_inv_start [OF start(6), of env]
  obtain r where r: "accept_loop (iters env) (start_state env ip) (stack_fd env) = Some r"
    using accept_loop_ends [OF i, of pre it post] iters by (auto simp: ends_loop_def)
  from accept_loop_inv [OF i iters(1) r] obtain code c s where
    s: "r = Inr (code, c, s)" "main_inv s" "code = EXIT_SUCCESS \<or> code = EXIT_FAILURE \<and> c \<noteq> -1" by blast
  from main_cleanup_spec [OF s(2) _ fin(2), of "build env" fd code c] fin(1) r s(1) obtain out where
    out: "main_cleanup (build env) (finish_sched env) fd [fd] (code, c, s) = Some (Inr out)" "exit_code out = code"
      "closed_fds out = (if c \<noteq> -1 then [c] else [])" "heap (out_threads out) = Map.empty"
      "mset (out_joined out) = mset (created s)" "listening out = []"
      "timer_armed out = (\<not> char_device (build env) \<and> timer_delete_ret (build env) \<noteq> 0)"
      "file_removed out = (\<not> char_device (build env) \<and> remove_ret (build env) \<noteq> -1)" by blast
  have "server_main env = Some (Inr out)"
    using start r s(1) out(1) by (cases "char_device (build env)") (simp_all add: server_main_def start_timer_def Let_def)
  with r s out show ?thesis by auto
qed

text \<open>One client, then a signal while \<open>main\<close> waits for the next one.\<close>

definition ex_iter :: iter_env where
  "ex_iter = \<lparr>accept_ret = Some 5, sig_in_accept = False, client_txt = ''10.0.0.1'',
     it_malloc = (\<lambda>h. if h 1 = None then Ptr 1 else NULL), create_ret = 0, create_tid = 7, now_finished = [], sig_after = False\<rparr>"

definition ex_wait :: iter_env where
  "ex_wait = ex_iter\<lparr>accept_ret := None, sig_in_accept := True\<rparr>"

definition ex_main :: main_env where
  "ex_main = \<lparr>argv = [''aesdsocket''], listen_e = ex_listen [ex_addr 3 0 0], sigaction_ret = (\<lambda>_. 0),
     daemon_e = \<lparr>fork1 = 0, setsid_ret = 7, fork2 = 0, devnull_fd = 5, dup2_ret = (\<lambda>d. d)\<rparr>, mutex_init_ret = 0,
     iters = [ex_iter, ex_wait], finish_sched = [[1]], stack_ip = replicate 46 nul, stack_fd = 0, early_term = False,
     term_at_loop = False, build = \<lparr>char_device = True, timer_create_ret = 0, timer_settime_ret = 0, timer_delete_ret = 0,
       remove_ret = 0\<rparr>\<rparr>"

lemma ex_main_listen: "\<exists>ip. start_listening (listen_e ex_main) (stack_ip ex_main) [] = (3, ip, [3]) \<and> length ip = 46"
  by (simp add: ex_main_def start_listening_def ex_listen_def ex_addr_def)

lemma ex_main_iter:
  assumes "length ip = 46" "accept_loop (iters ex_main) (start_state ex_main ip) (stack_fd ex_main) = Some (Inr (code, c, s))"
  shows "dom (heap (threads s)) \<subseteq> {1}"
proof -
  let ?ip = "inet_ntop ''10.0.0.1'' ip 46"
  obtain n where n: "init_thread (Ptr 1) Map.empty (Ptr 0) 5 ?ip = Inr (Ptr 1, [1 \<mapsto> n])" "\<not> finished n"
    using init_thread_node [of ?ip 1 Map.empty "Ptr 0" 5] assms(1) by auto
  with assms(2) show ?thesis
    by (simp add: ex_main_def ex_iter_def ex_wait_def accept_loop.simps accept_socket_def start_client_def link_and_reap_def start_state_def raise_term_def
        SLIST_INIT_def empty_list_def Let_def SLIST_INSERT_HEAD_def set_next_def set_tid_def remove_joinable_threads_def
        remove_joinable_loop.simps mark_finished_def SLIST_FIRST_def SLIST_NEXT_def node_at_def signal_handler_def)
      (auto split: if_splits)
qed

theorem server_stops_cleanly_witness:
  "\<exists>out. server_main ex_main = Some (Inr out) \<and> heap (out_threads out) = Map.empty \<and> listening out = []"
proof -
  obtain ip where ip: "start_listening (listen_e ex_main) (stack_ip ex_main) [] = (3, ip, [3])" "length ip = 46"
    using ex_main_listen by blast
  have "list_all malloc_fresh (iters ex_main)" "iters ex_main = [ex_iter] @ ex_wait # []" "\<forall>x \<in> set [ex_iter]. accept_ret x \<noteq> None"
    "sig_in_accept ex_wait \<or> sig_after ex_wait \<and> accept_ret ex_wait \<noteq> None"
    "parse_args (argv ex_main) False = Inr False" "fst (set_signals (sigaction_ret ex_main))" "mutex_init_ret ex_main = 0"
    "finish_sched ex_main \<noteq> []" "set (concat (finish_sched ex_main)) = {1}" "char_device (build ex_main)"
    by (auto simp: ex_main_def ex_iter_def ex_wait_def malloc_fresh_def parse_args_def set_signals_def)
  with server_stops_cleanly [of ex_main 3 ip "[ex_iter]" ex_wait "[]"] ip ex_main_iter [OF ip(2)] show ?thesis by auto
qed

text \<open>
  In every state the accept loop reaches, whatever clients, failures and signals it has seen, the
  nodes on the heap are exactly those of the list, no thread is lost (each one created has
  been joined or is still in the list), and no iteration accesses memory that is not
  allocated.
\<close>

theorem accept_loop_keeps_track:
  assumes "length ip = 46" "list_all malloc_fresh its" "accept_loop its (start_state env ip) c = Some r"
  shows "\<exists>code fd s as. r = Inr (code, fd, s) \<and> list_repr (threads s) as \<and> dom (heap (threads s)) = set as \<and>
    mset (created s) = mset (joined s) + mset (map (tid (threads s)) as) \<and>
    (code = EXIT_SUCCESS \<longrightarrow> \<not> is_running (sigs s)) \<and> (code = EXIT_FAILURE \<longrightarrow> fd \<noteq> -1)"
proof -
  from accept_loop_inv [OF main_inv_start [OF assms(1)] assms(2,3)] obtain code fd s where
    "r = Inr (code, fd, s)" "main_inv s" "code = EXIT_SUCCESS \<and> \<not> is_running (sigs s) \<or> code = EXIT_FAILURE \<and> fd \<noteq> -1"
    by blast
  then show ?thesis by (auto simp: main_inv_def payload_dom)
qed

theorem accept_loop_keeps_track_witness:
  "\<exists>r code fd s as. accept_loop ([ex_iter] @ ex_wait # []) (start_state ex_main (replicate 46 nul)) 0 = Some r \<and> r = Inr (code, fd, s) \<and>
     dom (heap (threads s)) = set as"
proof -
  have m: "list_all malloc_fresh ([ex_iter] @ ex_wait # [])" by (simp add: ex_iter_def ex_wait_def malloc_fresh_def)
  have l: "length (replicate 46 nul) = 46" by simp
  obtain r where "accept_loop ([ex_iter] @ ex_wait # []) (start_state ex_main (replicate 46 nul)) 0 = Some r"
    using accept_loop_ends [OF main_inv_start [OF l] m] by (auto simp: ex_iter_def ex_wait_def ends_loop_def)
  with accept_loop_keeps_track [OF l m this] show ?thesis by blast
qed

text \<open>
  C37: A terminating signal that arrives before \<open>is_running = true\<close> is lost: the flag is set again, the
  listening socket has been shut down, so every \<open>accept\<close> fails at once, whatever clients do, and the loop
  goes on for ever.
\<close>

theorem early_signal_is_lost:
  assumes "early_term env" "\<not> term_at_loop env" "\<forall>it \<in> set its. \<not> sig_in_accept it \<and> \<not> sig_after it"
  shows "shut_down (sigs (start_state env ip)) \<and> (\<forall>arrives. accept_socket arrives (sigs (start_state env ip)) = Some (- 1)) \<and>
    accept_loop its (start_state env ip) c = None"
proof -
  have "accept_loop its s c = None" if "is_running (sigs s)" "shut_down (sigs s)" for s c
    using assms(3) that
  proof (induction its arbitrary: s c)
    case Nil
    then show ?case by (simp add: accept_loop.simps)
  next
    case (Cons it its)
    then have "accept_loop (it # its) s c = accept_loop its s (- 1)"
      by (simp add: accept_loop.simps [of "it # its" s c] accept_socket_def raise_term_def)
    with Cons show ?case by simp
  qed
  then show ?thesis
    using assms(1,2) by (simp add: start_state_def raise_term_def signal_handler_def accept_socket_def Let_def)
qed

theorem early_signal_is_lost_witness:
  "\<forall>ip. accept_loop (replicate 1000 ex_iter) (start_state (ex_main\<lparr>early_term := True\<rparr>) ip) 0 = None"
  using early_signal_is_lost [of "ex_main\<lparr>early_term := True\<rparr>" "replicate 1000 ex_iter" _ 0]
  by (simp add: ex_iter_def ex_main_def)

text \<open>
  A terminating signal between \<open>is_running = true\<close> and the first test of the loop: no connection was
  accepted, \<open>client_sock_fd\<close> was never assigned, and the clean-up closes whatever descriptor its
  indeterminate value names.
\<close>

theorem signal_at_loop_closes_indeterminate_descriptor:
  assumes "parse_args (argv env) False = Inr False" "start_listening (listen_e env) (stack_ip env) [] = (fd, ip, [fd])"
      "fd \<noteq> -1" "fst (set_signals (sigaction_ret env))" "mutex_init_ret env = 0" "char_device (build env)" "term_at_loop env"
  shows "\<exists>out. server_main env = Some (Inr out) \<and> exit_code out = EXIT_SUCCESS \<and>
    (stack_fd env \<noteq> -1 \<longrightarrow> closed_fds out = [stack_fd env])"
proof -
  have "\<not> is_running (sigs (start_state env ip))" "threads (start_state env ip) = SLIST_INIT empty_list"
    using assms(7) by (simp_all add: start_state_def Let_def)
  then show ?thesis
    using assms(1-6) by (simp add: server_main_def accept_loop_stopped main_cleanup_def SLIST_INIT_def empty_list_def
        remove_all_remaining_threads.simps SLIST_EMPTY_def)
qed

end
