(* ===== verification/Server_System.thy ===== *)
theory Server_System
  imports Server_Concurrent Server_Main
begin

text \<open>
  The server as a whole: \<open>main\<close> from its accept loop to its end, and the client threads it
  creates, running concurrently. \<open>main\<close> is cut at its calls into single steps (\<open>main_step\<close>); a step
  of a client thread is a step of the interleaved threads, in which the thread also stores
  \<open>last_error\<close> and \<open>finished\<close> in the node it was given; signals arrive at any time.

  \<open>main\<close> frees the node of a thread while other threads run, and \<open>malloc\<close> may hand out the same
  address again, so the invariant says which thread owns which node. Shown: no access to a node
  ever fails, a thread's node stays allocated until the thread has returned, and when \<open>main\<close> ends
  the clients have been served as if one after the other.
\<close>

section \<open>The state\<close>

text \<open>
  The position of \<open>main\<close>. \<open>At_Reap\<close> is the loop of \<open>remove_joinable_threads\<close>, called from the accept
  loop (\<open>None\<close>) or from \<open>remove_all_remaining_threads\<close> (with \<open>exit_code\<close> and the sockets closed).
\<close>

datatype main_point =
    At_Loop int
  | At_Accept
  | At_Accept_Failed
  | At_Init int
  | At_Create int nat
  | At_Link nat
  | At_Reap "(int \<times> int list) option" ptr
  | At_Cleanup int int
  | At_Wait int "int list"
  | Main_Done main_out

record 'd sys =
  y_main :: main_state
  y_at :: main_point
  y_conc :: "'d conc"
  y_clients :: "(thread_env \<times> aesd_thread_args) list"
  y_nodes :: "nat list"       \<comment> \<open>the argument each thread was created with\<close>
  y_live :: "nat set"         \<comment> \<open>the threads created and not joined\<close>

text \<open>What the calls of one step of \<open>main\<close> return.\<close>

record answer =
  a_accept :: "int option"    \<comment> \<open>the connection or error \<open>accept\<close> gets, if any\<close>
  a_txt :: bytes              \<comment> \<open>the client's address as text\<close>
  a_malloc :: ptr
  a_create :: int
  a_tid :: u64
  a_env :: thread_env         \<comment> \<open>what the new thread will meet\<close>

definition answer_ok :: "answer \<Rightarrow> 'd sys \<Rightarrow> bool" where
  "answer_ok ans s \<longleftrightarrow> (\<forall>a. a_malloc ans = Ptr a \<longrightarrow> heap (threads (y_main s)) a = None)"

section \<open>The steps of main\<close>

text \<open>
  One iteration of the loop of \<open>remove_joinable_threads\<close> on the node at \<open>next\<close>: the next node to
  visit, the list, and the thread joined.
\<close>

definition reap_one :: "thread_list \<Rightarrow> ptr \<Rightarrow> (fault + ptr \<times> thread_list \<times> u64 list) option" where
  "reap_one s next =
     (case ebind (SLIST_NEXT (heap s) next) (\<lambda>next_temp.
             ebind (node_at (heap s) next) (\<lambda>n. Inr (next_temp, n))) of
        Inl e \<Rightarrow> Some (Inl e)
      | Inr (next_temp, n) \<Rightarrow>
          if finished n then
            (case SLIST_REMOVE s next of None \<Rightarrow> None
             | Some r \<Rightarrow> Some (ebind (ebind r (\<lambda>s1. free_node s1 next)) (\<lambda>s2. Inr (next_temp, s2, [thread_id n]))))
          else Some (Inr (next_temp, s, [])))"

definition spawn :: "thread_env \<Rightarrow> aesd_thread_args \<Rightarrow> 'd conc \<Rightarrow> 'd conc" where
  "spawn env args c = c\<lparr>c_threads := c_threads c @ [(Read_Line, thread_start args (c_dev c))]\<rparr>"

definition after_reap :: "(int \<times> int list) option \<Rightarrow> main_point" where
  "after_reap k = (case k of None \<Rightarrow> At_Loop (- 1) | Some (code, closed) \<Rightarrow> At_Wait code closed)"

text \<open>The threads that have been given the node at \<open>a\<close> and not been joined.\<close>

definition owners :: "'d sys \<Rightarrow> nat \<Rightarrow> nat set" where
  "owners s a = {i \<in> y_live s. y_nodes s ! i = a}"

definition joinable :: "'d sys \<Rightarrow> nat \<Rightarrow> bool" where
  "joinable s a \<longleftrightarrow> (\<forall>i \<in> owners s a. fst (c_threads (y_conc s) ! i) = Returned)"

definition main_step :: "build_env \<Rightarrow> int \<Rightarrow> int list \<Rightarrow> answer \<Rightarrow> 'd sys \<Rightarrow> (fault + 'd sys) option" where
  "main_step bld fd fds ans s =
     (let m = y_main s; ts = threads m in
      case y_at s of
        At_Loop c \<Rightarrow> Some (Inr (s\<lparr>y_at := if is_running (sigs m) then At_Accept else At_Cleanup EXIT_SUCCESS c\<rparr>))
      | At_Accept \<Rightarrow>
          map_option (\<lambda>c. Inr (if c = -1 then s\<lparr>y_at := At_Accept_Failed\<rparr>
                               else s\<lparr>y_main := m\<lparr>ip_buf := inet_ntop (a_txt ans) (ip_buf m) INET6_ADDRSTRLEN\<rparr>,
                                      y_at := At_Init c\<rparr>))
            (accept_socket (a_accept ans) (sigs m))
      | At_Accept_Failed \<Rightarrow>
          Some (Inr (s\<lparr>y_at := if is_running (sigs m) then At_Loop (- 1) else At_Cleanup EXIT_SUCCESS (- 1)\<rparr>))
      | At_Init c \<Rightarrow>
          Some (ebind (init_thread (a_malloc ans) (heap ts) (Ptr 0) c (ip_buf m)) (\<lambda>(p, h).
            Inr (case p of NULL \<Rightarrow> s\<lparr>y_at := At_Cleanup EXIT_FAILURE c\<rparr>
                 | Ptr a \<Rightarrow> s\<lparr>y_main := m\<lparr>threads := ts\<lparr>heap := h\<rparr>\<rparr>, y_at := At_Create c a\<rparr>)))
      | At_Create c a \<Rightarrow>
          if a_create ans \<noteq> 0 then
            Some (ebind (free_node ts (Ptr a)) (\<lambda>ts'.
              Inr (s\<lparr>y_main := m\<lparr>threads := ts'\<rparr>, y_at := At_Cleanup EXIT_FAILURE c\<rparr>)))
          else
            (let h = set_tid a (a_tid ans) (heap ts) in
             Some (ebind (node_at h (Ptr a)) (\<lambda>args.
               Inr (s\<lparr>y_main := m\<lparr>threads := ts\<lparr>heap := h\<rparr>, created := created m @ [a_tid ans]\<rparr>,
                      y_at := At_Link a, y_conc := spawn (a_env ans) args (y_conc s),
                      y_clients := y_clients s @ [(a_env ans, args)], y_nodes := y_nodes s @ [a],
                      y_live := insert (length (y_clients s)) (y_live s)\<rparr>))))
      | At_Link a \<Rightarrow>
          Some (ebind (SLIST_INSERT_HEAD ts (Ptr a)) (\<lambda>ts'.
            Inr (s\<lparr>y_main := m\<lparr>threads := ts'\<rparr>, y_at := At_Reap None (SLIST_FIRST ts')\<rparr>)))
      | At_Reap k p \<Rightarrow>
          (case p of NULL \<Rightarrow> Some (Inr (s\<lparr>y_at := after_reap k\<rparr>))
           | Ptr a \<Rightarrow>
               (case reap_one ts p of None \<Rightarrow> None
                | Some (Inl e) \<Rightarrow> Some (Inl e)
                | Some (Inr (p', ts', js)) \<Rightarrow>
                    if js \<noteq> [] \<and> \<not> joinable s a then None
                    else Some (Inr (s\<lparr>y_main := m\<lparr>threads := ts', joined := joined m @ js\<rparr>, y_at := At_Reap k p',
                                      y_live := if js = [] then y_live s else y_live s - owners s a\<rparr>))))
      | At_Cleanup code c \<Rightarrow> Some (Inr (s\<lparr>y_at := At_Wait code (if c \<noteq> -1 then [c] else [])\<rparr>))
      | At_Wait code closed \<Rightarrow>
          Some (Inr (s\<lparr>y_at := if \<not> SLIST_EMPTY ts then At_Reap (Some (code, closed)) (SLIST_FIRST ts)
            else Main_Done \<lparr>exit_code = code, closed_fds = closed, out_threads = ts, out_joined = joined m,
              listening = remove1 fd fds, timer_armed = (\<not> char_device bld \<and> timer_delete_ret bld \<noteq> 0),
              file_removed = (\<not> char_device bld \<and> remove_ret bld \<noteq> -1)\<rparr>\<rparr>))
      | Main_Done out \<Rightarrow> None)"

text \<open>\<open>main\<close> is in \<open>accept\<close> and the socket has not been shut down: only the network can end the call.\<close>

definition waits_for_client :: "'d sys \<Rightarrow> bool" where
  "waits_for_client s \<longleftrightarrow> y_at s = At_Accept \<and> \<not> shut_down (sigs (y_main s))"

section \<open>The steps of the system\<close>

text \<open>A thread stores \<open>last_error\<close> and \<open>finished\<close> in its node.\<close>

definition store_args :: "nat \<Rightarrow> aesd_thread_args \<Rightarrow> thread_list \<Rightarrow> fault + thread_list" where
  "store_args a args ts =
     (case heap ts a of None \<Rightarrow> Inl Dangling
      | Some n \<Rightarrow> Inr (ts\<lparr>heap := (heap ts)(a \<mapsto> n\<lparr>last_error := last_error args, finished := finished args\<rparr>)\<rparr>))"

definition client_moves :: "nat \<Rightarrow> 'd conc \<Rightarrow> 'd sys \<Rightarrow> fault + 'd sys" where
  "client_moves i c s =
     ebind (store_args (y_nodes s ! i) (t_args (snd (c_threads c ! i))) (threads (y_main s))) (\<lambda>ts.
       Inr (s\<lparr>y_main := (y_main s)\<lparr>threads := ts\<rparr>, y_conc := c\<rparr>))"

text \<open>
  A step of \<open>main\<close>, of thread \<open>i\<close>, or a signal; the outcome is the new state or the fault of an
  invalid access. A thread moves exactly if its position changes.
\<close>

inductive server_step :: "'d out_file \<Rightarrow> build_env \<Rightarrow> int \<Rightarrow> int list \<Rightarrow> 'd sys \<Rightarrow> fault + 'd sys \<Rightarrow> bool"
  for api bld fd fds where
  main: "answer_ok ans s \<Longrightarrow> main_step bld fd fds ans s = Some r \<Longrightarrow> server_step api bld fd fds s r"
| client: "conc_step api (y_clients s) (y_conc s) c \<Longrightarrow> i < length (y_clients s) \<Longrightarrow>
    fst (c_threads c ! i) \<noteq> fst (c_threads (y_conc s) ! i) \<Longrightarrow> server_step api bld fd fds s (client_moves i c s)"
| signal: "server_step api bld fd fds s
    (Inr (s\<lparr>y_main := (y_main s)\<lparr>sigs := signal_handler waits sig (sigs (y_main s))\<rparr>\<rparr>))"

definition server_start :: "main_state \<Rightarrow> int \<Rightarrow> 'd \<Rightarrow> 'd sys" where
  "server_start m c d = \<lparr>y_main = m, y_at = At_Loop c, y_conc = conc_start [] d, y_clients = [], y_nodes = [], y_live = {}\<rparr>"

inductive server_reach :: "'d out_file \<Rightarrow> build_env \<Rightarrow> int \<Rightarrow> int list \<Rightarrow> 'd sys \<Rightarrow> 'd sys \<Rightarrow> bool"
  for api bld fd fds s0 where
  start: "server_reach api bld fd fds s0 s0"
| step: "server_reach api bld fd fds s0 s \<Longrightarrow> server_step api bld fd fds s (Inr s') \<Longrightarrow> server_reach api bld fd fds s0 s'"

section \<open>Adding a thread\<close>

lemma conc_inv_spawn:
  assumes inv: "conc_inv api cs d0 c"
  shows "conc_inv api (cs @ [(env, args)]) d0 (spawn env args c)" (is "conc_inv api ?cs d0 ?c")
proof -
  note inv' = conc_invD [OF inv]
  have new: "c_threads ?c ! length cs = (Read_Line, thread_start args (c_dev c))" "?cs ! length cs = (env, args)"
    using inv'(1) by (simp_all add: spawn_def nth_append)
  have old: "c_threads ?c ! i = c_threads c ! i" "?cs ! i = cs ! i" if "i < length cs" for i
    using inv'(1) that by (simp_all add: spawn_def nth_append)
  have same: "devs ?c = devs c" "locked_once ?c = locked_once c" "c_order ?c = c_order c" "c_owner ?c = c_owner c"
    by (simp_all add: spawn_def devs_def locked_once_def)
  have r: "rest api ?cs ?c i d = rest api cs c i d" "whole api ?cs i d = whole api cs i d" if "i < length cs" for i d
    using old [OF that] by (simp_all add: rest_def whole_def)
  have rn: "rest api ?cs ?c (length cs) d = whole api ?cs (length cs) d" for d
    by (simp add: rest_def whole_def new finish_Read_Line)
  have out: "length cs \<notin> locked_once c" "c_owner c \<noteq> Some (length cs)"
    using inv'(3,10) conc_order_nth [OF inv, of "length (c_order c) - 1"] by (auto simp: last_conv_nth)
  show ?thesis
    unfolding conc_inv_def same
  proof (intro conjI allI impI)
    show "length (c_threads ?c) = length ?cs" using inv'(1) by (simp add: spawn_def)
    show "locked_once c \<subseteq> {..<length ?cs}" using inv'(3) by auto
    show "mtx_held (snd (c_threads ?c ! i)) \<longleftrightarrow> c_owner c = Some i" if "i < length ?cs" for i
      using that old inv'(9) new out(2) by (cases "i = length cs") auto
    show "mtx_held (snd (c_threads ?c ! i))" if "i < length ?cs" "in_critical (fst (c_threads ?c ! i))" for i
      using that old inv'(8) new by (cases "i = length cs") auto
    show "i \<notin> locked_once c" if "i < length ?cs" "before_lock (fst (c_threads ?c ! i))" for i
      using that old inv'(7) out(1) by (cases "i = length cs") auto
    show "rest api ?cs ?c i d = whole api ?cs i d" if "i < length ?cs" "i \<notin> locked_once c" for i d
      using that r rn inv'(6) by (cases "i = length cs") auto
    show "rest api ?cs ?c (fst (c_order c ! k)) (devs c ! Suc k) = whole api ?cs (fst (c_order c ! k)) (devs c ! k)"
      if "k < length (c_order c)" for k
      using r inv'(5) [OF that] conc_order_nth [OF inv that] by simp
    show "buffers_ok (fst (c_threads ?c ! i)) (snd (c_threads ?c ! i))" if "i < length ?cs" for i
      using that old inv'(11) new by (cases "i = length cs") auto
  qed (use inv' in auto)
qed

text \<open>A thread has returned exactly if it has set \<open>finished\<close>.\<close>

definition flags_right :: "'d conc \<Rightarrow> bool" where
  "flags_right c \<longleftrightarrow> (\<forall>(pc, s) \<in> set (c_threads c). finished (t_args s) \<longleftrightarrow> pc = Returned)"

lemma thread_step_finished:
  assumes "thread_step env api pc s = Some (Inr (pc', s'))" "finished (t_args s) \<longleftrightarrow> pc = Returned"
  shows "finished (t_args s') \<longleftrightarrow> pc' = Returned"
  using assms
  by (cases pc)
    (auto simp: Let_def ebind_eq_Inr set_error_def note_error_def dest: close_file_InrD append_to_file_InrD
      split: sum.splits option.splits prod.splits if_splits)

lemma flags_right_step:
  assumes "conc_step api cs c c'" "flags_right c"
  shows "flags_right c'"
  using assms(1)
proof (cases rule: conc_step.cases)
  case (thread_moves i pc s pc' s')
  have "finished (t_args s) \<longleftrightarrow> pc = Returned" using assms(2) nth_mem [OF thread_moves(2)] thread_moves(3) by (auto simp: flags_right_def)
  with thread_step_finished [OF thread_moves(6)] have "finished (t_args s') \<longleftrightarrow> pc' = Returned" by simp
  with assms(2) thread_moves(1) show ?thesis
    by (auto simp: flags_right_def dest!: set_update_subset_insert [THEN subsetD])
qed

text \<open>A step changes the position of one thread and leaves the others alone.\<close>

lemma conc_step_others:
  assumes "conc_step api cs c c'" "i < length (c_threads c)" "fst (c_threads c' ! i) \<noteq> fst (c_threads c ! i)"
  shows "\<And>j. j \<noteq> i \<Longrightarrow> c_threads c' ! j = c_threads c ! j" "fst (c_threads c ! i) \<noteq> Returned" "length (c_threads c') = length (c_threads c)"
proof -
  from assms(1) obtain k pc s pc' s' where m: "c_threads c' = (c_threads c)[k := (pc', s')]" "c_threads c ! k = (pc, s)" "pc \<noteq> Returned"
    by cases auto
  moreover from this assms(3) have "k = i" by (cases "k = i") auto
  ultimately show "\<And>j. j \<noteq> i \<Longrightarrow> c_threads c' ! j = c_threads c ! j" "fst (c_threads c ! i) \<noteq> Returned" "length (c_threads c') = length (c_threads c)"
    by auto
qed

lemma conc_step_mover:
  assumes "conc_step api cs c c'"
  obtains i where "i < length (c_threads c)" "fst (c_threads c' ! i) \<noteq> fst (c_threads c ! i)"
  using assms
proof (cases rule: conc_step.cases)
  case (thread_moves i pc s pc' s')
  then show thesis using that [of i] thread_step_left [OF thread_moves(6,4)] by auto
qed


section \<open>The invariant\<close>

text \<open>The node that is allocated and not linked yet, and the thread that already owns it.\<close>

fun unlinked :: "main_point \<Rightarrow> nat list" where
  "unlinked (At_Create c a) = [a]"
| "unlinked (At_Link a) = [a]"
| "unlinked _ = []"

fun unlinked_owned :: "main_point \<Rightarrow> nat list" where
  "unlinked_owned (At_Link a) = [a]"
| "unlinked_owned _ = []"

text \<open>The loop over the list stands at a node of the list or at its end; a finished \<open>main\<close> has an empty list.\<close>

fun point_ok :: "main_point \<Rightarrow> nat list \<Rightarrow> bool" where
  "point_ok (At_Reap k p) as \<longleftrightarrow> (\<exists>xs ys. as = xs @ ys \<and> p = ptr_of ys)"
| "point_ok (Main_Done out) as \<longleftrightarrow> as = []"
| "point_ok _ as \<longleftrightarrow> True"

definition list_inv :: "main_state \<Rightarrow> main_point \<Rightarrow> nat set \<Rightarrow> nat list \<Rightarrow> bool" where
  "list_inv m pt owned as \<longleftrightarrow> list_repr (threads m) as \<and> dom (payload (threads m)) = set (as @ unlinked pt) \<and>
     set (unlinked pt) \<inter> set as = {} \<and> owned = set (as @ unlinked_owned pt) \<and> point_ok pt as \<and> length (ip_buf m) = 46 \<and>
     mset (created m) = mset (joined m) + mset (map (tid (threads m)) (as @ unlinked_owned pt)) \<and>
     (\<forall>c a. pt = At_Create c a \<longrightarrow> \<not> is_finished (threads m) a) \<and>
     (\<forall>out. pt = Main_Done out \<longrightarrow> out_threads out = threads m \<and> out_joined out = joined m)"

definition threads_inv :: "'d sys \<Rightarrow> bool" where
  "threads_inv s \<longleftrightarrow> length (y_nodes s) = length (y_clients s) \<and> y_live s \<subseteq> {..<length (y_clients s)} \<and>
     inj_on ((!) (y_nodes s)) (y_live s) \<and>
     (\<forall>i < length (y_clients s). i \<notin> y_live s \<longrightarrow> fst (c_threads (y_conc s) ! i) = Returned) \<and>
     (\<forall>i \<in> y_live s. is_finished (threads (y_main s)) (y_nodes s ! i) \<longleftrightarrow> fst (c_threads (y_conc s) ! i) = Returned)"

definition server_inv :: "'d out_file \<Rightarrow> 'd \<Rightarrow> 'd sys \<Rightarrow> bool" where
  "server_inv api d0 s \<longleftrightarrow> conc_inv api (y_clients s) d0 (y_conc s) \<and> flags_right (y_conc s) \<and>
     ((\<forall>t \<in> set (y_clients s). unlock_ret (fst t) = 0) \<longrightarrow> held_inside (y_conc s)) \<and> threads_inv s \<and>
     created (y_main s) = map (thread_id \<circ> snd) (y_clients s) \<and>
     (\<exists>as. list_inv (y_main s) (y_at s) ((!) (y_nodes s) ` y_live s) as)"

lemma owners_live:
  assumes "threads_inv s" "i \<in> y_live s"
  shows "owners s (y_nodes s ! i) = {i}"
  using assms by (auto simp: threads_inv_def owners_def dest: inj_onD)

text \<open>One iteration of the loop over the list.\<close>

lemma reap_one_loop:
  "next \<noteq> NULL \<Longrightarrow> remove_joinable_loop s next js =
     (case reap_one s next of None \<Rightarrow> None | Some (Inl e) \<Rightarrow> Some (Inl e)
      | Some (Inr (next', s', js')) \<Rightarrow> remove_joinable_loop s' next' (js @ js'))"
  by (subst remove_joinable_loop.simps)
    (auto simp: reap_one_def split: sum.splits option.splits prod.splits)

lemma reap_one_spec:
  assumes "list_repr ts (xs @ a # ys)"
  shows "if is_finished ts a
    then \<exists>ts'. reap_one ts (Ptr a) = Some (Inr (ptr_of ys, ts', [tid ts a])) \<and> list_repr ts' (xs @ ys) \<and>
      payload ts' = (payload ts)(a := None)
    else reap_one ts (Ptr a) = Some (Inr (ptr_of ys, ts, []))"
proof -
  have nx: "SLIST_NEXT (heap ts) (Ptr a) = Inr (ptr_of ys)" using sl.succ_law [OF assms] by (simp add: ptr_of_def)
  from node_at_payload [of ts a] sl.live_law [OF assms, of a] obtain n where
    n: "node_at (heap ts) (Ptr a) = Inr n" "finished n = is_finished ts a" "thread_id n = tid ts a" by auto
  from sl.unlink_release [OF assms] obtain s1 s2 where
    s: "SLIST_REMOVE ts (Ptr a) = Some (Inr s1)" "free_node s1 (Ptr a) = Inr s2" "list_repr s2 (xs @ ys)"
      "payload s2 = (payload ts)(a := None)" by blast
  show ?thesis using nx n s by (simp add: reap_one_def)
qed

section \<open>Every step keeps the invariant\<close>

text \<open>The fields of a node a thread writes do not matter for the list.\<close>

lemma store_args_spec:
  assumes "payload ts a \<noteq> None" "list_repr ts as"
  shows "\<exists>ts'. store_args a args ts = Inr ts' \<and> list_repr ts' as \<and> dom (payload ts') = dom (payload ts) \<and> tid ts' = tid ts \<and>
    is_finished ts' = (is_finished ts)(a := finished args)"
proof -
  from assms(1) obtain n where n: "heap ts a = Some n" by (auto simp: payload_def)
  let ?n = "n\<lparr>last_error := last_error args, finished := finished args\<rparr>"
  have "links ((heap ts)(a \<mapsto> ?n)) p bs" if "links (heap ts) p bs" for p bs
    using that n by (induction bs arbitrary: p) (auto split: option.splits)
  then have "list_repr (ts\<lparr>heap := (heap ts)(a \<mapsto> ?n)\<rparr>) as" using assms(2) by (simp add: list_repr_def SLIST_FIRST_def)
  moreover have p: "payload (ts\<lparr>heap := (heap ts)(a \<mapsto> ?n)\<rparr>) = (payload ts)(a \<mapsto> ?n\<lparr>sle_next := NULL\<rparr>)"
    by (rule ext) (simp add: payload_def)
  moreover have "payload ts a = Some (n\<lparr>sle_next := NULL\<rparr>)" using n by (simp add: payload_def)
  ultimately show ?thesis
    using n by (auto simp: store_args_def tid_def is_finished_def fun_eq_iff split: if_splits)
qed

lemma client_keeps_inv:
  assumes inv: "server_inv api d0 s" and st: "conc_step api (y_clients s) (y_conc s) c" and i: "i < length (y_clients s)"
    "fst (c_threads c ! i) \<noteq> fst (c_threads (y_conc s) ! i)"
  shows "\<exists>s'. client_moves i c s = Inr s' \<and> server_inv api d0 s'"
proof -
  from inv obtain as where ci: "conc_inv api (y_clients s) d0 (y_conc s)" "flags_right (y_conc s)" and ti: "threads_inv s"
    and li: "list_inv (y_main s) (y_at s) ((!) (y_nodes s) ` y_live s) as" by (auto simp: server_inv_def)
  note len = conc_invD(1) [OF ci(1)]
  note o = conc_step_others [OF st _ i(2), unfolded len, OF i(1)]
  have il: "i \<in> y_live s" using ti i(1) o(2) by (auto simp: threads_inv_def)
  let ?a = "y_nodes s ! i" and ?ts = "threads (y_main s)"
  have "?a \<in> set (as @ unlinked_owned (y_at s))" using li il by (auto simp: list_inv_def)
  then have pl: "payload ?ts ?a \<noteq> None" and cr: "y_at s \<noteq> At_Create k ?a" "y_at s \<noteq> Main_Done out" for k out
    using li by (cases "y_at s"; auto simp: list_inv_def)+
  have "list_repr ?ts as" using li by (simp add: list_inv_def)
  from store_args_spec [OF pl this, of "t_args (snd (c_threads c ! i))"] obtain ts' where
    ts': "store_args ?a (t_args (snd (c_threads c ! i))) ?ts = Inr ts'" "list_repr ts' as" "dom (payload ts') = dom (payload ?ts)"
      "tid ts' = tid ?ts" "is_finished ts' = (is_finished ?ts)(?a := finished (t_args (snd (c_threads c ! i))))" by blast
  let ?s = "s\<lparr>y_main := (y_main s)\<lparr>threads := ts'\<rparr>, y_conc := c\<rparr>"
  have fr: "flags_right c" by (rule flags_right_step [OF st ci(2)])
  have "finished (t_args (snd (c_threads c ! i))) \<longleftrightarrow> fst (c_threads c ! i) = Returned"
    using fr nth_mem [of i "c_threads c"] i(1) o(3) len by (auto simp: flags_right_def case_prod_beta)
  moreover have "y_nodes s ! j \<noteq> ?a" if "j \<in> y_live s" "j \<noteq> i" for j
    using ti that il by (auto simp: threads_inv_def dest: inj_onD)
  ultimately have "threads_inv ?s"
    using ti o(1) il unfolding threads_inv_def by (simp add: ts'(5)) (metis o(1))
  moreover have "list_inv (y_main ?s) (y_at ?s) ((!) (y_nodes ?s) ` y_live ?s) as"
    using li ts' cr by (auto simp: list_inv_def)
  moreover have "client_moves i c s = Inr ?s" by (simp add: client_moves_def ts'(1))
  ultimately show ?thesis
    using conc_inv_step [OF st ci(1)] fr held_inside_step [OF st ci(1)] inv by (auto simp: server_inv_def)
qed


text \<open>Steps of \<open>main\<close> that leave the nodes and the threads alone.\<close>

lemma server_inv_moves:
  assumes "server_inv api d0 s" "threads m = threads (y_main s)" "length (ip_buf m) = length (ip_buf (y_main s))"
    "joined m = joined (y_main s)" "created m = created (y_main s)"
    "unlinked pt = unlinked (y_at s)" "unlinked_owned pt = unlinked_owned (y_at s)"
    "\<And>as. point_ok (y_at s) as \<Longrightarrow> list_repr (threads m) as \<Longrightarrow> point_ok pt as" "\<And>c a. pt \<noteq> At_Create c a"
    "\<And>out. pt = Main_Done out \<Longrightarrow> out_threads out = threads m \<and> out_joined out = joined m"
  shows "server_inv api d0 (s\<lparr>y_main := m, y_at := pt\<rparr>)"
  using assms by (auto simp: server_inv_def threads_inv_def list_inv_def)

lemma server_inv_main:
  assumes "server_inv api d0 s" "list_inv m pt ((!) (y_nodes s) ` y_live s) as"
    "\<And>a. a \<in> (!) (y_nodes s) ` y_live s \<Longrightarrow> is_finished (threads m) a = is_finished (threads (y_main s)) a" "created m = created (y_main s)"
  shows "server_inv api d0 (s\<lparr>y_main := m, y_at := pt\<rparr>)"
  using assms by (auto simp: server_inv_def threads_inv_def)

lemma init_keeps_inv:
  assumes inv: "server_inv api d0 s" and at: "y_at s = At_Init c" and ok: "answer_ok ans s"
  shows "\<exists>s'. main_step bld fd fds ans s = Some (Inr s') \<and> server_inv api d0 s'"
proof -
  let ?m = "y_main s" let ?ts = "threads ?m"
  from inv at obtain as where li: "list_inv ?m (At_Init c) ((!) (y_nodes s) ` y_live s) as" by (auto simp: server_inv_def)
  show ?thesis
  proof (cases "a_malloc ans")
    case NULL
    with at server_inv_moves [OF inv, of ?m "At_Cleanup EXIT_FAILURE c"] show ?thesis
      by (simp add: main_step_def init_thread_def)
  next
    case (Ptr a)
    with li init_thread_node [of "ip_buf ?m" a "heap ?ts" "Ptr 0" c] obtain n where
      n: "init_thread (Ptr a) (heap ?ts) (Ptr 0) c (ip_buf ?m) = Inr (Ptr a, (heap ?ts)(a \<mapsto> n))" "\<not> finished n"
      by (auto simp: list_inv_def)
    have "payload ?ts a = None" using ok Ptr by (simp add: answer_ok_def payload_def)
    moreover have "dom (payload ?ts) = set as" using li by (simp add: list_inv_def)
    ultimately have fresh: "a \<notin> set as" by auto
    let ?t = "?ts\<lparr>heap := (heap ?ts)(a \<mapsto> n)\<rparr>"
    have p: "payload ?t = (payload ?ts)(a \<mapsto> n\<lparr>sle_next := NULL\<rparr>)" by (rule ext) (simp add: payload_def)
    have "list_repr ?t as" using li fresh by (auto simp: list_inv_def list_repr_def SLIST_FIRST_def intro: links_frame)
    moreover have t: "tid ?t b = tid ?ts b" "is_finished ?t b = is_finished ?ts b" if "b \<in> set as" for b
      using that fresh by (auto simp: tid_def is_finished_def p)
    ultimately have "list_inv (?m\<lparr>threads := ?t\<rparr>) (At_Create c a) ((!) (y_nodes s) ` y_live s) as"
      using li fresh by (auto simp: list_inv_def p is_finished_def n(2) cong: map_cong)
    from server_inv_main [OF inv this] li t n(1) at Ptr show ?thesis
      by (simp add: main_step_def list_inv_def Let_def)
  qed
qed

text \<open>
  The new thread gets the next number; the threads there were and their nodes stay as they are.
\<close>

lemma threads_inv_spawn:
  assumes ti: "threads_inv s" and len: "length (c_threads (y_conc s)) = length (y_clients s)"
    and a: "a \<notin> (!) (y_nodes s) ` y_live s" and ta: "\<not> is_finished (threads m) a"
    and t: "\<And>b. b \<noteq> a \<Longrightarrow> is_finished (threads m) b = is_finished (threads (y_main s)) b"
  shows "threads_inv (s\<lparr>y_main := m, y_at := pt, y_conc := spawn env args (y_conc s), y_clients := y_clients s @ [(env, args)],
      y_nodes := y_nodes s @ [a], y_live := insert (length (y_clients s)) (y_live s)\<rparr>)" (is "threads_inv ?s")
    and "(!) (y_nodes s @ [a]) ` insert (length (y_clients s)) (y_live s) = insert a ((!) (y_nodes s) ` y_live s)"
proof -
  let ?k = "length (y_clients s)"
  have nodes: "(y_nodes s @ [a]) ! i = y_nodes s ! i" "i < ?k" if "i \<in> y_live s" for i
    using ti that by (auto simp: threads_inv_def nth_append)
  have new: "(y_nodes s @ [a]) ! ?k = a" "fst (c_threads (y_conc ?s) ! ?k) = Read_Line"
    using ti len by (simp_all add: threads_inv_def spawn_def nth_append)
  have old: "c_threads (y_conc ?s) ! i = c_threads (y_conc s) ! i" if "i < ?k" for i
    using that len by (simp add: spawn_def nth_append)
  show "(!) (y_nodes s @ [a]) ` insert ?k (y_live s) = insert a ((!) (y_nodes s) ` y_live s)" using nodes new by auto
  show "threads_inv ?s"
    unfolding threads_inv_def
  proof (intro conjI ballI allI impI)
    show "inj_on ((!) (y_nodes ?s)) (y_live ?s)"
      using ti a new nodes by (auto simp: threads_inv_def inj_on_def image_iff)
    show "is_finished (threads (y_main ?s)) (y_nodes ?s ! i) \<longleftrightarrow> fst (c_threads (y_conc ?s) ! i) = Returned"
      if "i \<in> y_live ?s" for i
    proof (cases "i = ?k")
      case True
      with new ta show ?thesis by simp
    next
      case False
      with that have i: "i \<in> y_live s" by simp
      with a have "y_nodes s ! i \<noteq> a" by auto
      with ti i nodes [OF i] old t show ?thesis by (simp add: threads_inv_def)
    qed
    show "fst (c_threads (y_conc ?s) ! i) = Returned" if "i < length (y_clients ?s)" "i \<notin> y_live ?s" for i
      using that ti old by (auto simp: threads_inv_def less_Suc_eq)
  qed (use ti in \<open>auto simp: threads_inv_def less_SucI\<close>)
qed

lemma create_keeps_inv:
  assumes inv: "server_inv api d0 s" and at: "y_at s = At_Create c a"
  shows "\<exists>s'. main_step bld fd fds ans s = Some (Inr s') \<and> server_inv api d0 s'"
proof -
  let ?m = "y_main s" let ?ts = "threads ?m"
  from inv at obtain as where li: "list_inv ?m (At_Create c a) ((!) (y_nodes s) ` y_live s) as"
    and ci: "conc_inv api (y_clients s) d0 (y_conc s)" "flags_right (y_conc s)" and ti: "threads_inv s" by (auto simp: server_inv_def)
  have a: "a \<notin> set as" "payload ?ts a \<noteq> None" "list_repr ?ts as" using li by (auto simp: list_inv_def)
  show ?thesis
  proof (cases "a_create ans = 0")
    case False
    from sl.release_law [OF a(3,1,2)] obtain ts' where
      ts': "free_node ?ts (Ptr a) = Inr ts'" "list_repr ts' as" "payload ts' = (payload ?ts)(a := None)" by blast
    have t: "tid ts' b = tid ?ts b" "is_finished ts' b = is_finished ?ts b" if "b \<in> set as" for b
      using that a(1) by (auto simp: tid_def is_finished_def ts'(3))
    then have "list_inv (?m\<lparr>threads := ts'\<rparr>) (At_Cleanup EXIT_FAILURE c) ((!) (y_nodes s) ` y_live s) as"
      using li a(1) ts' by (auto simp: list_inv_def cong: map_cong)
    from server_inv_main [OF inv this] li t ts'(1) at False show ?thesis by (simp add: main_step_def list_inv_def Let_def)
  next
    case True
    from a(2) obtain n where n: "heap ?ts a = Some n" by (auto simp: payload_def)
    let ?n = "n\<lparr>thread_id := a_tid ans\<rparr>" let ?t = "?ts\<lparr>heap := (heap ?ts)(a \<mapsto> ?n)\<rparr>"
    let ?m' = "?m\<lparr>threads := ?t, created := created ?m @ [a_tid ans]\<rparr>"
    let ?s = "s\<lparr>y_main := ?m', y_at := At_Link a, y_conc := spawn (a_env ans) ?n (y_conc s),
      y_clients := y_clients s @ [(a_env ans, ?n)], y_nodes := y_nodes s @ [a],
      y_live := insert (length (y_clients s)) (y_live s)\<rparr>"
    have p: "payload ?t = (payload ?ts)(a \<mapsto> ?n\<lparr>sle_next := NULL\<rparr>)" by (rule ext) (simp add: payload_def)
    have fin: "\<not> finished n" using li n by (auto simp: list_inv_def is_finished_def payload_def)
    have r: "list_repr ?t as" using a(1,3) by (auto simp: list_repr_def SLIST_FIRST_def intro: links_frame)
    have t: "tid ?t b = tid ?ts b" "is_finished ?t b = is_finished ?ts b" if "b \<noteq> a" for b
      using that by (auto simp: tid_def is_finished_def p)
    have ta: "tid ?t a = a_tid ans" "\<not> is_finished ?t a" using fin by (simp_all add: tid_def is_finished_def p)
    have "a \<notin> (!) (y_nodes s) ` y_live s" using li a(1) by (simp add: list_inv_def)
    note sp = threads_inv_spawn(1) [OF ti conc_invD(1) [OF ci(1)] this, where m = ?m' and pt = "At_Link a" and env = "a_env ans"
        and args = ?n, simplified, OF ta(2) t(2)]
      threads_inv_spawn(2) [OF ti conc_invD(1) [OF ci(1)] this, where m = ?m', simplified, OF ta(2) t(2)]
    have "image_mset (tid ?t) (mset as) = image_mset (tid ?ts) (mset as)"
      by (rule image_mset_cong) (metis a(1) set_mset_mset t(1))
    then have "list_inv ?m' (At_Link a) ((!) (y_nodes ?s) ` y_live ?s) as"
      using li r ta(1) sp(2) by (auto simp: list_inv_def p)
    moreover have "flags_right (y_conc ?s)" "held_inside (y_conc ?s) \<longleftrightarrow> held_inside (y_conc s)"
      using ci(2) fin by (auto simp: flags_right_def held_inside_def spawn_def thread_start_def)
    ultimately have "server_inv api d0 ?s"
      using conc_inv_spawn [OF ci(1)] inv sp(1) by (auto simp: server_inv_def)
    moreover have "main_step bld fd fds ans s = Some (Inr ?s)"
      using True at n by (simp add: main_step_def set_tid_def node_at_def Let_def)
    ultimately show ?thesis by blast
  qed
qed

lemma link_keeps_inv:
  assumes inv: "server_inv api d0 s" and at: "y_at s = At_Link a"
  shows "\<exists>s'. main_step bld fd fds ans s = Some (Inr s') \<and> server_inv api d0 s'"
proof -
  let ?m = "y_main s" let ?ts = "threads ?m"
  from inv at obtain as where li: "list_inv ?m (At_Link a) ((!) (y_nodes s) ` y_live s) as" by (auto simp: server_inv_def)
  then have a: "a \<notin> set as" "payload ?ts a \<noteq> None" "list_repr ?ts as" by (auto simp: list_inv_def)
  from sl.insert_law [OF a(3,1,2)] obtain ts' where
    ts': "SLIST_INSERT_HEAD ?ts (Ptr a) = Inr ts'" "list_repr ts' (a # as)" "payload ts' = payload ?ts" by blast
  have t: "tid ts' = tid ?ts" "is_finished ts' = is_finished ?ts" by (simp_all add: fun_eq_iff tid_def is_finished_def ts'(3))
  have "point_ok (At_Reap None (SLIST_FIRST ts')) (a # as)"
    using sl.first_law [OF ts'(2)] unfolding point_ok.simps by (intro exI [of _ "[]"] exI [of _ "a # as"]) (simp add: ptr_of_def)
  then have "list_inv (?m\<lparr>threads := ts'\<rparr>) (At_Reap None (SLIST_FIRST ts')) ((!) (y_nodes s) ` y_live s) (a # as)"
    using li ts' by (auto simp: list_inv_def t)
  from server_inv_main [OF inv this] t ts'(1) at show ?thesis by (simp add: main_step_def)
qed


lemma reap_keeps_inv:
  assumes inv: "server_inv api d0 s" and at: "y_at s = At_Reap k p"
  shows "\<exists>s'. main_step bld fd fds ans s = Some (Inr s') \<and> server_inv api d0 s'"
proof -
  let ?m = "y_main s" let ?ts = "threads ?m"
  from inv at obtain as where li: "list_inv ?m (At_Reap k p) ((!) (y_nodes s) ` y_live s) as" and ti: "threads_inv s"
    by (auto simp: server_inv_def)
  then obtain xs ys where as: "as = xs @ ys" "p = ptr_of ys" by (auto simp: list_inv_def)
  show ?thesis
  proof (cases ys)
    case Nil
    with at as server_inv_moves [OF inv, of ?m "after_reap k"] show ?thesis
      by (cases k) (auto simp: main_step_def after_reap_def ptr_of_def Let_def)
  next
    case (Cons a ys')
    with li as have r: "list_repr ?ts (xs @ a # ys')" by (simp add: list_inv_def)
    from sl.distinct_law [OF r] have d: "distinct (xs @ a # ys')" .
    have p: "p = Ptr a" using as Cons by (simp add: ptr_of_def)
    note one = reap_one_spec [OF r]
    show ?thesis
    proof (cases "is_finished ?ts a")
      case False
      let ?s = "s\<lparr>y_main := ?m\<lparr>threads := ?ts, joined := joined ?m @ []\<rparr>, y_at := At_Reap k (ptr_of ys')\<rparr>"
      have "point_ok (At_Reap k (ptr_of ys')) as"
        using as Cons unfolding point_ok.simps by (intro exI [of _ "xs @ [a]"] exI [of _ ys']) simp
      with li have "list_inv ?m (At_Reap k (ptr_of ys')) ((!) (y_nodes s) ` y_live s) as" by (auto simp: list_inv_def)
      from server_inv_main [OF inv this] False one at p show ?thesis by (simp add: main_step_def Let_def)
    next
      case True
      with one obtain ts' where ts': "reap_one ?ts (Ptr a) = Some (Inr (ptr_of ys', ts', [tid ?ts a]))" "list_repr ts' (xs @ ys')"
        "payload ts' = (payload ?ts)(a := None)" by auto
      from li as Cons have "a \<in> (!) (y_nodes s) ` y_live s" by (auto simp: list_inv_def)
      then obtain i where i: "i \<in> y_live s" "y_nodes s ! i = a" by auto
      then have ow: "owners s a = {i}" using owners_live [OF ti] by auto
      have ret: "fst (c_threads (y_conc s) ! i) = Returned" using ti i True by (auto simp: threads_inv_def)
      let ?m' = "?m\<lparr>threads := ts', joined := joined ?m @ [tid ?ts a]\<rparr>"
      let ?s = "s\<lparr>y_main := ?m', y_at := At_Reap k (ptr_of ys'), y_live := y_live s - owners s a\<rparr>"
      have t: "tid ts' b = tid ?ts b" "is_finished ts' b = is_finished ?ts b" if "b \<noteq> a" for b
        using that by (auto simp: tid_def is_finished_def ts'(3))
      have inj: "inj_on ((!) (y_nodes s)) (y_live s)" using ti by (simp add: threads_inv_def)
      have own: "(!) (y_nodes s) ` (y_live s - {i}) = set (xs @ ys')"
        using inj_on_image_set_diff [OF inj, of "y_live s" "{i}"] i li as Cons d by (auto simp: list_inv_def)
      have other: "y_nodes s ! j \<noteq> a" if "j \<in> y_live s - {i}" for j
        using inj i that by (auto dest: inj_onD)
      have "threads_inv ?s"
        using ti ret other t inj unfolding threads_inv_def ow by (auto intro: inj_on_subset)
      moreover have "image_mset (tid ts') (mset (xs @ ys')) = image_mset (tid ?ts) (mset (xs @ ys'))"
        using d by (intro image_mset_cong t(1)) auto
      then have "list_inv ?m' (At_Reap k (ptr_of ys')) ((!) (y_nodes ?s) ` y_live ?s) (xs @ ys')"
        using li as Cons ts' own ow d by (auto simp: list_inv_def)
      ultimately have "server_inv api d0 ?s" using inv by (auto simp: server_inv_def)
      moreover have "main_step bld fd fds ans s = Some (Inr ?s)"
        using at p ts'(1) ow ret by (simp add: main_step_def Let_def joinable_def)
      ultimately show ?thesis by blast
    qed
  qed
qed

lemma main_keeps_inv:
  assumes inv: "server_inv api d0 s" and ok: "answer_ok ans s"
  shows "(\<exists>out. y_at s = Main_Done out) \<or> waits_for_client s \<and> main_step bld fd fds ans s = None \<or>
    (\<exists>s'. main_step bld fd fds ans s = Some (Inr s') \<and> server_inv api d0 s')"
proof -
  let ?m = "y_main s"
  note mv = server_inv_moves [OF inv, of ?m] 
  have wait: "server_inv api d0 (s\<lparr>y_at := if \<not> SLIST_EMPTY (threads ?m) then At_Reap k (SLIST_FIRST (threads ?m)) else Main_Done out\<rparr>)"
    if "y_at s = At_Wait code cl" "out_threads out = threads ?m" "out_joined out = joined ?m" for k out code cl
  proof (cases "SLIST_EMPTY (threads ?m)")
    case True
    then have "as = []" if "list_repr (threads ?m) as" for as
      using sl.empty_iff [OF that] by (simp add: SLIST_EMPTY_def SLIST_FIRST_def)
    with True that mv [of "Main_Done out"] show ?thesis by simp
  next
    case False
    have "point_ok (At_Reap k (SLIST_FIRST (threads ?m))) as" if "list_repr (threads ?m) as" for as
      using sl.first_law [OF that] unfolding point_ok.simps by (intro exI [of _ "[]"] exI [of _ as]) (simp add: ptr_of_def)
    with False that mv [of "At_Reap k (SLIST_FIRST (threads ?m))"] show ?thesis by simp
  qed
  show ?thesis
  proof (cases "y_at s")
    case At_Accept
    with mv [of At_Accept_Failed] server_inv_moves [OF inv, of "?m\<lparr>ip_buf := inet_ntop (a_txt ans) (ip_buf ?m) INET6_ADDRSTRLEN\<rparr>" "At_Init (the (a_accept ans))"]
    show ?thesis
      by (cases "a_accept ans") (auto simp: main_step_def accept_socket_def waits_for_client_def Let_def)
  next
    case (At_Loop c)
    with mv [of At_Accept] mv [of "At_Cleanup EXIT_SUCCESS c"] show ?thesis by (auto simp: main_step_def Let_def)
  next
    case At_Accept_Failed
    with mv [of "At_Loop (- 1)"] mv [of "At_Cleanup EXIT_SUCCESS (- 1)"] show ?thesis by (auto simp: main_step_def Let_def)
  next
    case (At_Cleanup code c)
    with mv [of "At_Wait code cl" for cl] show ?thesis by (auto simp: main_step_def Let_def)
  next
    case (At_Wait code cl)
    with wait show ?thesis by (auto simp: main_step_def Let_def)
  next
    case (At_Init c)
    from init_keeps_inv [OF inv this ok] show ?thesis by blast
  next
    case (At_Create c a)
    from create_keeps_inv [OF inv this] show ?thesis by blast
  next
    case (At_Link a)
    from link_keeps_inv [OF inv this] show ?thesis by blast
  next
    case (At_Reap k p)
    from reap_keeps_inv [OF inv this] show ?thesis by blast
  qed simp
qed

lemma main_step_done [simp]: "y_at s = Main_Done out \<Longrightarrow> main_step bld fd fds ans s = None"
  by (simp add: main_step_def Let_def)

lemma server_inv_step:
  assumes "server_step api bld fd fds s r" "server_inv api d0 s"
  shows "\<exists>s'. r = Inr s' \<and> server_inv api d0 s'"
  using assms(1)
proof (cases rule: server_step.cases)
  case (main ans)
  with main_keeps_inv [OF assms(2), of ans bld fd fds] show ?thesis by auto
next
  case (client c i)
  with client_keeps_inv [OF assms(2)] show ?thesis by auto
next
  case (signal waits sig)
  with assms(2) show ?thesis by (auto simp: server_inv_def threads_inv_def list_inv_def)
qed

definition fresh_main :: "main_state \<Rightarrow> bool" where
  "fresh_main m \<longleftrightarrow> SLIST_EMPTY (threads m) \<and> heap (threads m) = Map.empty \<and> length (ip_buf m) = 46 \<and> joined m = [] \<and> created m = []"

lemma server_inv_start: "fresh_main m \<Longrightarrow> server_inv api d (server_start m c d)"
  using conc_start_inv [of api "[]" d]
  by (auto simp: fresh_main_def server_inv_def server_start_def flags_right_def held_inside_def conc_start_def threads_inv_def list_inv_def list_repr_def
      SLIST_EMPTY_def SLIST_FIRST_def payload_def intro!: exI [of _ "[]"])

lemma server_inv_reach: "server_reach api bld fd fds (server_start m c d) s \<Longrightarrow> fresh_main m \<Longrightarrow> server_inv api d s"
proof (induction rule: server_reach.induct)
  case start
  then show ?case by (rule server_inv_start)
next
  case (step s s')
  with server_inv_step [OF step.hyps(2)] show ?case by auto
qed

end
