(* ===== verification/Server_Progress.thy ===== *)
theory Server_Progress
  imports Server_System
begin

text \<open>
  What the invariant of the whole server gives: nodes outlive their threads, a finished run has
  served its clients as if one after the other, and a server that has been told to stop can
  always come to its end. Progress is shown by following \<open>main\<close> alone to the loop that waits for the
  threads, then the threads alone to their ends, then \<open>main\<close> again.
\<close>

section \<open>Progress\<close>

lemma server_reach_trans:
  "server_reach api bld fd fds s1 s2 \<Longrightarrow> server_reach api bld fd fds s0 s1 \<Longrightarrow> server_reach api bld fd fds s0 s2"
  by (induction rule: server_reach.induct) (auto intro: server_reach.step)

text \<open>
  While the loop runs, whoever clears \<open>is_running\<close> also shuts the socket down: the handler is the only one
  that changes either.
\<close>

definition sig_inv :: "'d sys \<Rightarrow> bool" where
  "sig_inv s \<longleftrightarrow> is_running (sigs (y_main s)) \<or> shut_down (sigs (y_main s))"

lemma main_step_sigs: "main_step bld fd fds ans s = Some (Inr s') \<Longrightarrow> sigs (y_main s') = sigs (y_main s)"
  by (cases "y_at s"; cases "a_malloc ans"; cases "strncpy (ip_buf (y_main s)) 45")
    (auto simp: main_step_def Let_def ebind_eq_Inr init_thread_def split: if_splits option.splits sum.splits ptr.splits)

lemma sig_inv_step:
  assumes "server_step api bld fd fds s (Inr s')" "sig_inv s"
  shows "sig_inv s'"
  using assms(1)
proof cases
  case (main ans)
  with main_step_sigs [OF main(2)] assms(2) show ?thesis by (simp add: sig_inv_def)
next
  case (client c i)
  from client(1) [symmetric] have "sigs (y_main s') = sigs (y_main s)" by (auto simp: client_moves_def ebind_eq_Inr)
  with assms(2) show ?thesis by (simp add: sig_inv_def)
next
  case (signal waits sig)
  with assms(2) show ?thesis by (simp add: sig_inv_def signal_handler_def Let_def)
qed

lemma sig_inv_reach: "server_reach api bld fd fds s0 s \<Longrightarrow> sig_inv s0 \<Longrightarrow> sig_inv s"
  by (induction rule: server_reach.induct) (auto dest: sig_inv_step)

lemma sig_inv_start: "is_running (sigs m) \<or> shut_down (sigs m) \<Longrightarrow> sig_inv (server_start m c d)"
  by (simp add: sig_inv_def server_start_def)

text \<open>The answers in which no client connects and nothing is created.\<close>

definition closing :: answer where
  "closing = \<lparr>a_accept = None, a_txt = [], a_malloc = NULL, a_create = 1, a_tid = 0, a_env = ex_tenv\<rparr>"

lemma closing_ok [simp]: "answer_ok closing s"
  by (simp add: answer_ok_def closing_def)

text \<open>\<open>main\<close> alone gets from \<open>s\<close> to a state with the property: the threads and signals are as in \<open>s\<close>.\<close>

definition main_gets :: "'d out_file \<Rightarrow> build_env \<Rightarrow> int \<Rightarrow> int list \<Rightarrow> 'd sys \<Rightarrow> ('d sys \<Rightarrow> bool) \<Rightarrow> bool" where
  "main_gets api bld fd fds s P \<longleftrightarrow> (\<exists>s'. server_reach api bld fd fds s s' \<and> y_conc s' = y_conc s \<and> y_clients s' = y_clients s \<and>
     sigs (y_main s') = sigs (y_main s) \<and> P s')"

lemma main_gets_here: "P s \<Longrightarrow> main_gets api bld fd fds s P"
  by (auto simp: main_gets_def intro: server_reach.start)

lemma main_gets_trans:
  assumes "main_gets api bld fd fds s Q"
    "\<And>s1. Q s1 \<Longrightarrow> y_conc s1 = y_conc s \<Longrightarrow> sigs (y_main s1) = sigs (y_main s) \<Longrightarrow> main_gets api bld fd fds s1 P"
  shows "main_gets api bld fd fds s P"
  using assms unfolding main_gets_def by (metis server_reach_trans)

lemma main_gets_step:
  assumes "main_step bld fd fds closing s = Some (Inr s')" "y_conc s' = y_conc s" "y_clients s' = y_clients s"
    "sigs (y_main s') = sigs (y_main s)" "P s'"
  shows "main_gets api bld fd fds s P"
  using assms server_step.main [OF closing_ok assms(1)] unfolding main_gets_def
  by (metis server_reach.start server_reach.step)

lemma reap_step:
  assumes inv: "server_inv api d0 s" and at: "y_at s = At_Reap k (Ptr a)" and r: "list_repr (threads (y_main s)) (xs @ a # ys)"
  shows "main_gets api bld fd fds s (\<lambda>s'. server_inv api d0 s' \<and> y_at s' = At_Reap k (ptr_of ys) \<and>
    list_repr (threads (y_main s')) (if is_finished (threads (y_main s)) a then xs @ ys else xs @ a # ys))"
proof -
  from reap_keeps_inv [OF inv at] obtain s' where s': "main_step bld fd fds closing s = Some (Inr s')" "server_inv api d0 s'" by blast
  show ?thesis
    by (rule main_gets_step [OF s'(1)])
      (use s' at r reap_one_spec [OF r] in \<open>auto simp: main_step_def Let_def split: if_splits\<close>)
qed

text \<open>When all threads have returned, every node of the list says so.\<close>

lemma returned_nodes_finished:
  assumes "server_inv api d0 s" "all_returned (y_conc s)" "list_repr (threads (y_main s)) bs" "a \<in> set bs"
  shows "is_finished (threads (y_main s)) a"
proof -
  from assms(1) obtain as where as: "list_inv (y_main s) (y_at s) ((!) (y_nodes s) ` y_live s) as" "threads_inv s"
    "length (c_threads (y_conc s)) = length (y_clients s)" by (auto simp: server_inv_def dest: conc_invD(1))
  then have "bs = as" using assms(3) by (auto simp: list_inv_def list_repr_def dest: links_unique)
  with as(1) assms(4) have "a \<in> (!) (y_nodes s) ` y_live s" by (auto simp: list_inv_def)
  then obtain i where i: "i \<in> y_live s" "y_nodes s ! i = a" by auto
  with as(2,3) assms(2) have "fst (c_threads (y_conc s) ! i) = Returned" by (auto simp: threads_inv_def all_returned_def)
  with as(2) i show ?thesis by (auto simp: threads_inv_def)
qed

text \<open>A pass over the list comes to its end; when all threads have returned it empties the list.\<close>

lemma reap_pass:
  assumes "server_inv api d0 s" "y_at s = At_Reap k (ptr_of ys)" "list_repr (threads (y_main s)) (xs @ ys)"
  shows "main_gets api bld fd fds s (\<lambda>s'. server_inv api d0 s' \<and> y_at s' = after_reap k \<and>
    (all_returned (y_conc s) \<longrightarrow> list_repr (threads (y_main s')) xs))"
  using assms
proof (induction ys arbitrary: s xs)
  case Nil
  from reap_keeps_inv [OF Nil.prems(1,2)] obtain s' where
    s': "main_step bld fd fds closing s = Some (Inr s')" "server_inv api d0 s'" by blast
  with Nil show ?case by (intro main_gets_step [OF s'(1)]) (auto simp: main_step_def Let_def ptr_of_def)
next
  case (Cons a ys)
  then have at: "y_at s = At_Reap k (Ptr a)" by (simp add: ptr_of_def)
  let ?f = "is_finished (threads (y_main s)) a"
  have fin: ?f if "all_returned (y_conc s)" using returned_nodes_finished [OF Cons.prems(1) that Cons.prems(3)] by simp
  show ?case
  proof (rule main_gets_trans [OF reap_step [OF Cons.prems(1) at Cons.prems(3)]], elim conjE)
    fix s1 assume s1: "server_inv api d0 s1" "y_at s1 = At_Reap k (ptr_of ys)"
      "list_repr (threads (y_main s1)) (if ?f then xs @ ys else xs @ a # ys)" "y_conc s1 = y_conc s"
    show "main_gets api bld fd fds s1 (\<lambda>s'. server_inv api d0 s' \<and> y_at s' = after_reap k \<and>
      (all_returned (y_conc s) \<longrightarrow> list_repr (threads (y_main s')) xs))"
    proof (cases ?f)
      case True
      with Cons.IH [OF s1(1,2), of xs] s1(3,4) show ?thesis by simp
    next
      case False
      with fin have "all_returned (y_conc s) = False" by blast
      with False Cons.IH [OF s1(1,2), of "xs @ [a]"] s1(3,4) show ?thesis by simp
    qed
  qed
qed

text \<open>Once \<open>is_running\<close> is cleared and the socket shut down, \<open>main\<close> gets to the loop that waits for the remaining threads.\<close>

definition waiting :: "'d out_file \<Rightarrow> 'd \<Rightarrow> 'd sys \<Rightarrow> bool" where
  "waiting api d0 s \<longleftrightarrow> server_inv api d0 s \<and> (\<exists>code cl. y_at s = At_Wait code cl)"

lemma gets_through:
  assumes "server_inv api d0 s" "main_step bld fd fds closing s = Some (Inr s1)" "y_conc s1 = y_conc s" "y_clients s1 = y_clients s"
    "sigs (y_main s1) = sigs (y_main s)" "server_inv api d0 s1 \<Longrightarrow> main_gets api bld fd fds s1 P"
  shows "main_gets api bld fd fds s P"
proof (rule main_gets_trans [OF main_gets_step [where P = "\<lambda>s'. s' = s1", OF assms(2-5) refl]])
  have "server_inv api d0 s1" using main_keeps_inv [OF assms(1) closing_ok, of bld fd fds] assms(2) by auto
  then show "main_gets api bld fd fds s' P" if "s' = s1" for s' using assms(6) that by simp
qed

lemma cleanup_waits:
  assumes "server_inv api d0 s" "y_at s = At_Cleanup code c"
  shows "main_gets api bld fd fds s (waiting api d0)"
  by (rule gets_through [where ?s1.0 = "s\<lparr>y_at := At_Wait code (if c \<noteq> -1 then [c] else [])\<rparr>", OF assms(1)])
    (use assms in \<open>auto simp: main_step_def Let_def waiting_def intro: main_gets_here\<close>)

lemma loop_waits:
  assumes "server_inv api d0 s" "y_at s = At_Loop c" "\<not> is_running (sigs (y_main s))"
  shows "main_gets api bld fd fds s (waiting api d0)"
  by (rule gets_through [where ?s1.0 = "s\<lparr>y_at := At_Cleanup EXIT_SUCCESS c\<rparr>", OF assms(1)])
    (use assms in \<open>auto simp: main_step_def Let_def intro: cleanup_waits\<close>)

lemma reap_waits:
  assumes inv: "server_inv api d0 s" and at: "y_at s = At_Reap k p" and nr: "\<not> is_running (sigs (y_main s))"
  shows "main_gets api bld fd fds s (waiting api d0)"
proof -
  from inv at obtain as where "list_inv (y_main s) (At_Reap k p) ((!) (y_nodes s) ` y_live s) as" by (auto simp: server_inv_def)
  then obtain xs ys where l: "list_repr (threads (y_main s)) (xs @ ys)" "p = ptr_of ys" by (auto simp: list_inv_def)
  show ?thesis
    by (rule main_gets_trans [OF reap_pass [OF inv at [unfolded l(2)] l(1)]])
      (use nr in \<open>cases k; auto simp: after_reap_def waiting_def intro: loop_waits main_gets_here\<close>)
qed

lemma stopped_waits:
  assumes inv: "server_inv api d0 s" and nr: "\<not> is_running (sigs (y_main s))" and sd: "shut_down (sigs (y_main s))" and nd: "\<nexists>out. y_at s = Main_Done out"
  shows "main_gets api bld fd fds s (waiting api d0)"
proof -
  note go = gets_through [OF inv, where bld = bld and fd = fd and fds = fds]
  show ?thesis
  proof (cases "y_at s")
    case At_Accept
    have "main_gets api bld fd fds s1 (waiting api d0)"
      if "server_inv api d0 s1" "y_at s1 = At_Accept_Failed" "\<not> is_running (sigs (y_main s1))" for s1
      by (rule gets_through [where ?s1.0 = "s1\<lparr>y_at := At_Cleanup EXIT_SUCCESS (- 1)\<rparr>", OF that(1)])
        (use that in \<open>auto simp: main_step_def Let_def intro: cleanup_waits\<close>)
    with At_Accept nr sd show ?thesis
      by (intro go [of "s\<lparr>y_at := At_Accept_Failed\<rparr>"]) (auto simp: main_step_def accept_socket_def Let_def)
  next
    case (At_Link a)
    from link_keeps_inv [OF inv this, of bld fd fds closing] obtain s1 where s1: "main_step bld fd fds closing s = Some (Inr s1)" by blast
    with At_Link nr show ?thesis
      by (intro go [OF s1]) (auto simp: main_step_def Let_def ebind_eq_Inr intro: reap_waits)
  next
    case (At_Create c a)
    from create_keeps_inv [OF inv this, of bld fd fds closing] obtain s1 where s1: "main_step bld fd fds closing s = Some (Inr s1)" by blast
    with At_Create show ?thesis
      by (intro go [OF s1]) (auto simp: main_step_def Let_def ebind_eq_Inr closing_def intro: cleanup_waits)
  next
    case (At_Init c)
    then show ?thesis
      by (intro go [of "s\<lparr>y_at := At_Cleanup EXIT_FAILURE c\<rparr>"]) (auto simp: main_step_def Let_def closing_def init_thread_def intro: cleanup_waits)
  next
    case At_Accept_Failed
    with nr show ?thesis
      by (intro go [of "s\<lparr>y_at := At_Cleanup EXIT_SUCCESS (- 1)\<rparr>"]) (auto simp: main_step_def Let_def intro: cleanup_waits)
  next
    case (At_Wait code cl)
    with inv show ?thesis by (intro main_gets_here) (simp add: waiting_def)
  qed (use inv nr nd loop_waits reap_waits cleanup_waits in auto)
qed

text \<open>The client threads run to their ends while \<open>main\<close> stands still.\<close>

lemma clients_run:
  assumes "(conc_step api (y_clients s))\<^sup>*\<^sup>* (y_conc s) c" "server_inv api d0 s"
  shows "\<exists>s'. server_reach api bld fd fds s s' \<and> server_inv api d0 s' \<and> y_conc s' = c \<and> y_at s' = y_at s \<and> y_clients s' = y_clients s"
  using assms(1)
proof (induction rule: rtranclp_induct)
  case base
  with assms(2) show ?case by (auto intro: server_reach.start)
next
  case (step c1 c2)
  then obtain s1 where s1: "server_reach api bld fd fds s s1" "server_inv api d0 s1" "y_conc s1 = c1" "y_at s1 = y_at s"
    "y_clients s1 = y_clients s" by blast
  obtain i where i: "i < length (c_threads c1)" "fst (c_threads c2 ! i) \<noteq> fst (c_threads c1 ! i)" by (rule conc_step_mover [OF step.hyps(2)])
  have "length (c_threads c1) = length (y_clients s)" using s1 by (auto simp: server_inv_def dest: conc_invD(1))
  with i step.hyps(2) s1 have m: "conc_step api (y_clients s1) (y_conc s1) c2" "i < length (y_clients s1)"
    "fst (c_threads c2 ! i) \<noteq> fst (c_threads (y_conc s1) ! i)" by simp_all
  from client_keeps_inv [OF s1(2) m] obtain s2 where s2: "client_moves i c2 s1 = Inr s2" "server_inv api d0 s2" by blast
  have "server_reach api bld fd fds s s2" using server_reach.step [OF s1(1)] server_step.client [OF m, of bld fd fds] s2(1) by simp
  with s1 s2 show ?case by (auto simp: client_moves_def ebind_eq_Inr)
qed

lemma waiting_ends:
  assumes w: "waiting api d0 s" and ret: "all_returned (y_conc s)"
  shows "main_gets api bld fd fds s (\<lambda>s'. \<exists>out. y_at s' = Main_Done out)"
proof -
  from w obtain code cl where at: "y_at s = At_Wait code cl" and inv: "server_inv api d0 s" by (auto simp: waiting_def)
  have fin: "main_gets api bld fd fds s1 (\<lambda>s'. \<exists>out. y_at s' = Main_Done out)"
    if "y_at s1 = At_Wait code cl" "SLIST_EMPTY (threads (y_main s1))" for s1
    using that by (auto intro!: main_gets_step simp: main_step_def Let_def)
  show ?thesis
  proof (cases "SLIST_EMPTY (threads (y_main s))")
    case True
    with at fin show ?thesis by blast
  next
    case False
    from inv obtain as where as: "list_repr (threads (y_main s)) as" by (auto simp: server_inv_def list_inv_def)
    let ?s = "s\<lparr>y_at := At_Reap (Some (code, cl)) (SLIST_FIRST (threads (y_main s)))\<rparr>"
    have "main_gets api bld fd fds ?s (\<lambda>s'. \<exists>out. y_at s' = Main_Done out)" if i: "server_inv api d0 ?s"
    proof (rule main_gets_trans [OF reap_pass [OF i, of "Some (code, cl)" as "[]"]], goal_cases)
      case 1
      then show ?case using sl.first_law [OF as] by (simp add: ptr_of_def)
    next
      case 2
      then show ?case using as by simp
    next
      case (3 s1)
      with ret have "list_repr (threads (y_main s1)) []" by simp
      from sl.empty_iff [OF this] have "SLIST_EMPTY (threads (y_main s1))" by (simp add: SLIST_EMPTY_def SLIST_FIRST_def)
      with 3 fin show ?case by (simp add: after_reap_def)
    qed
    with False at show ?thesis by (intro gets_through [where ?s1.0 = ?s, OF inv]) (auto simp: main_step_def Let_def)
  qed
qed

lemma stopped_server_can_end:
  assumes inv: "server_inv api d0 s" "sig_inv s" and nr: "\<not> is_running (sigs (y_main s))" and served: "served_clients api (y_clients s) ok" "ok 0 d0"
  shows "\<exists>s' out. server_reach api bld fd fds s s' \<and> y_at s' = Main_Done out \<and> y_clients s' = y_clients s"
proof (cases "\<exists>out. y_at s = Main_Done out")
  case True
  then show ?thesis using server_reach.start by blast
next
  case False
  have "shut_down (sigs (y_main s))" using inv(2) nr by (simp add: sig_inv_def)
  from stopped_waits [OF inv(1) nr this False, of bld fd fds] obtain s1 where
    s1: "server_reach api bld fd fds s s1" "y_clients s1 = y_clients s" "waiting api d0 s1" by (auto simp: main_gets_def)
  then have i1: "server_inv api d0 s1" by (simp add: waiting_def)
  have "held_inside (y_conc s1)" "conc_inv api (y_clients s1) d0 (y_conc s1)"
    using i1 served(1) s1(2) by (auto simp: server_inv_def served_clients_def)
  from inv_completes [OF this(2,1)] served s1(2) obtain c where
    c: "(conc_step api (y_clients s1))\<^sup>*\<^sup>* (y_conc s1) c" "all_returned c" by metis
  from clients_run [OF c(1) i1, of bld fd fds] obtain s2 where s2: "server_reach api bld fd fds s1 s2" "server_inv api d0 s2"
    "y_conc s2 = c" "y_at s2 = y_at s1" "y_clients s2 = y_clients s1" by blast
  with s1(3) have "waiting api d0 s2" by (simp add: waiting_def)
  from waiting_ends [OF this, of bld fd fds] c(2) s2(3) obtain s3 out where
    "server_reach api bld fd fds s2 s3" "y_at s3 = Main_Done out" "y_clients s3 = y_clients s2" by (auto simp: main_gets_def)
  with s1 s2 show ?thesis by (metis server_reach_trans)
qed


section \<open>Properties\<close>

text \<open>A server with one client that has just been given its thread.\<close>

definition ex_accepted :: answer where
  "ex_accepted = \<lparr>a_accept = Some 5, a_txt = ''10.0.0.1'', a_malloc = Ptr 1, a_create = 0, a_tid = 7, a_env = ex_tenv\<rparr>"

definition ex_fresh :: main_state where
  "ex_fresh = \<lparr>sigs = \<lparr>is_running = True, shut_down = False, errno = 0\<rparr>, threads = empty_list, ip_buf = replicate 46 nul, joined = [],
     created = []\<rparr>"

lemma ex_fresh_main: "fresh_main ex_fresh"
  by (simp add: fresh_main_def ex_fresh_def empty_list_def SLIST_EMPTY_def)

lemma ex_fresh_running: "is_running (sigs ex_fresh)" "sig_inv (server_start ex_fresh c d)"
  by (simp_all add: ex_fresh_def sig_inv_def server_start_def)

definition ex_build :: build_env where
  "ex_build = \<lparr>char_device = True, timer_create_ret = 0, timer_settime_ret = 0, timer_delete_ret = 0, remove_ret = 0\<rparr>"

lemma reach_main:
  "server_reach api bld fd fds s0 s \<Longrightarrow> answer_ok ans s \<Longrightarrow> main_step bld fd fds ans s = Some (Inr s') \<Longrightarrow>
     server_reach api bld fd fds s0 s'"
  by (rule server_reach.step [OF _ server_step.main])

text \<open>Four steps of \<open>main\<close>: \<open>while\<close>, \<open>accept\<close>, \<open>init_thread\<close>, \<open>pthread_create\<close>; then a terminating signal.\<close>

lemma one_client_accepted:
  "\<exists>s args. server_reach api bld fd fds (server_start ex_fresh 0 d) s \<and> y_at s = At_Link 1 \<and> y_clients s = [(ex_tenv, args)] \<and>
     y_nodes s = [1] \<and> fst (c_threads (y_conc s) ! 0) = Read_Line \<and> \<not> is_running (sigs (y_main s))"
proof -
  let ?s0 = "server_start ex_fresh 0 d" and ?ip = "inet_ntop ''10.0.0.1'' (replicate 46 nul) 46"
  let ?s1 = "?s0\<lparr>y_at := At_Accept\<rparr>"
  let ?s2 = "?s1\<lparr>y_main := ex_fresh\<lparr>ip_buf := ?ip\<rparr>, y_at := At_Init 5\<rparr>"
  obtain n where n: "init_thread (Ptr 1) Map.empty (Ptr 0) 5 ?ip = Inr (Ptr 1, [1 \<mapsto> n])"
    using init_thread_node [of ?ip 1 Map.empty "Ptr 0" 5] by auto
  let ?s3 = "?s2\<lparr>y_main := ex_fresh\<lparr>ip_buf := ?ip, threads := empty_list\<lparr>heap := [1 \<mapsto> n]\<rparr>\<rparr>, y_at := At_Create 5 1\<rparr>"
  have 1: "main_step bld fd fds ex_accepted ?s0 = Some (Inr ?s1)"
    by (simp add: main_step_def Let_def server_start_def ex_fresh_def)
  have 2: "main_step bld fd fds ex_accepted ?s1 = Some (Inr ?s2)"
    by (simp add: main_step_def accept_socket_def Let_def server_start_def ex_fresh_def ex_accepted_def)
  have 3: "main_step bld fd fds ex_accepted ?s2 = Some (Inr ?s3)"
    using n by (simp add: main_step_def Let_def server_start_def ex_fresh_def ex_accepted_def empty_list_def)
  obtain s4 where 4: "main_step bld fd fds ex_accepted ?s3 = Some (Inr s4)"
    and s4: "y_at s4 = At_Link 1" "y_clients s4 = [(ex_tenv, n\<lparr>thread_id := 7\<rparr>)]" "y_nodes s4 = [1]"
      "fst (c_threads (y_conc s4) ! 0) = Read_Line"
    by (simp add: spawn_def conc_start_def main_step_def Let_def server_start_def ex_fresh_def ex_accepted_def set_tid_def node_at_def)
  have ok: "answer_ok ex_accepted ?s0" "answer_ok ex_accepted ?s1" "answer_ok ex_accepted ?s2"
    by (simp_all add: answer_ok_def ex_accepted_def server_start_def ex_fresh_def empty_list_def)
  let ?s5 = "s4\<lparr>y_main := (y_main s4)\<lparr>sigs := signal_handler [] SIGTERM (sigs (y_main s4))\<rparr>\<rparr>"
  have "main_step bld fd fds (ex_accepted\<lparr>a_malloc := NULL\<rparr>) ?s3 = Some (Inr s4)"
    using 4 by (simp add: main_step_def Let_def server_start_def ex_fresh_def ex_accepted_def)
  from reach_main [OF reach_main [OF reach_main [OF reach_main [OF server_reach.start ok(1) 1] ok(2) 2] ok(3) 3] _ this]
  have "server_reach api bld fd fds ?s0 s4" by (simp add: answer_ok_def)
  from server_reach.step [OF this server_step.signal, where waits1 = "[]" and sig1 = SIGTERM] s4
  show ?thesis by (intro exI [of _ ?s5]) (auto simp: signal_handler_def Let_def)
qed

text \<open>
  C3: Threads, nodes and \<open>main\<close> running concurrently in any interleaving, with signals at any time and any
  call failing: no step of \<open>main\<close> or of a thread ever accesses a node that is not allocated. The
  node of a thread that has not returned is allocated, belongs to no other thread, and is not
  marked finished, so \<open>main\<close> cannot join the thread or free its argument.
\<close>

theorem threads_keep_their_nodes:
  assumes "server_reach api bld fd fds (server_start m c d) s" "fresh_main m"
  shows "(\<forall>r. server_step api bld fd fds s r \<longrightarrow> (\<exists>s'. r = Inr s')) \<and>
    (\<forall>i < length (y_clients s). fst (c_threads (y_conc s) ! i) \<noteq> Returned \<longrightarrow>
      (\<exists>n. heap (threads (y_main s)) (y_nodes s ! i) = Some n \<and> \<not> finished n) \<and>
      (\<forall>j < length (y_clients s). j \<noteq> i \<longrightarrow> fst (c_threads (y_conc s) ! j) \<noteq> Returned \<longrightarrow> y_nodes s ! j \<noteq> y_nodes s ! i))"
proof -
  note inv = server_inv_reach [OF assms]
  then obtain as where ti: "threads_inv s" and li: "list_inv (y_main s) (y_at s) ((!) (y_nodes s) ` y_live s) as"
    by (auto simp: server_inv_def)
  have live: "i \<in> y_live s" if "i < length (y_clients s)" "fst (c_threads (y_conc s) ! i) \<noteq> Returned" for i
    using ti that by (auto simp: threads_inv_def)
  have "\<exists>n. heap (threads (y_main s)) (y_nodes s ! i) = Some n \<and> \<not> finished n"
    if "i < length (y_clients s)" "fst (c_threads (y_conc s) ! i) \<noteq> Returned" for i
  proof -
    have "y_nodes s ! i \<in> set (as @ unlinked (y_at s))"
      using li live [OF that] by (cases "y_at s") (auto simp: list_inv_def)
    moreover have "\<not> is_finished (threads (y_main s)) (y_nodes s ! i)" using ti live [OF that] that by (auto simp: threads_inv_def)
    moreover have "dom (heap (threads (y_main s))) = set (as @ unlinked (y_at s))" using li by (simp only: list_inv_def payload_dom)
    ultimately show ?thesis by (fastforce simp: is_finished_def payload_def)
  qed
  moreover have "y_nodes s ! j \<noteq> y_nodes s ! i" if "i \<in> y_live s" "j \<in> y_live s" "j \<noteq> i" for i j
    using ti that by (auto simp: threads_inv_def dest: inj_onD)
  moreover have "\<exists>s'. r = Inr s'" if "server_step api bld fd fds s r" for r
    using server_inv_step [OF that inv] by blast
  ultimately show ?thesis using live by blast
qed

theorem threads_keep_their_nodes_witness:
  "\<exists>s n. server_reach ex_cell ex_build 3 [3] (server_start ex_fresh 0 []) s \<and> fst (c_threads (y_conc s) ! 0) = Read_Line \<and>
     y_nodes s = [1] \<and> heap (threads (y_main s)) 1 = Some n \<and> \<not> finished n"
proof -
  from one_client_accepted [of ex_cell ex_build 3 "[3]" "[]"] obtain s args where s: "server_reach ex_cell ex_build 3 [3] (server_start ex_fresh 0 []) s"
    "y_clients s = [(ex_tenv, args)]" "y_nodes s = [1]" "fst (c_threads (y_conc s) ! 0) = Read_Line" by blast
  with threads_keep_their_nodes [OF s(1) ex_fresh_main] show ?thesis by auto
qed

lemma main_step_listening:
  "main_step bld fd fds ans s = Some (Inr s') \<Longrightarrow> y_at s' = Main_Done out \<Longrightarrow> listening out = remove1 fd fds"
  by (cases "y_at s"; cases "a_malloc ans"; cases "strncpy (ip_buf (y_main s)) 45")
    (auto simp: main_step_def Let_def ebind_eq_Inr [of "free_node t q" for t q] ebind_eq_Inr [of "node_at h q" for h q]
      ebind_eq_Inr [of "SLIST_INSERT_HEAD t q" for t q] after_reap_def init_thread_def
      split: if_splits option.splits sum.splits ptr.splits)

lemma done_listening:
  "server_reach api bld fd fds (server_start m c d) s \<Longrightarrow> y_at s = Main_Done out \<Longrightarrow> listening out = remove1 fd fds"
proof (induction rule: server_reach.induct)
  case (step s s')
  show ?case
    using step.hyps(2)
  proof cases
    case (client c i)
    from client(1) [symmetric] have "y_at s' = y_at s" by (auto simp: client_moves_def ebind_eq_Inr)
    with step show ?thesis by simp
  qed (use step main_step_listening in auto)
qed (simp add: server_start_def)

text \<open>When \<open>main\<close> has ended.\<close>

lemma server_done:
  assumes "server_reach api bld fd [fd] (server_start m c d) s" "fresh_main m" "y_at s = Main_Done out"
  shows "conc_inv api (y_clients s) d (y_conc s)" "all_returned (y_conc s)" "heap (out_threads out) = Map.empty"
    "mset (out_joined out) = mset (map (thread_id \<circ> snd) (y_clients s))" "listening out = []"
proof -
  from server_inv_reach [OF assms(1,2)] obtain as where ti: "threads_inv s"
    and li: "list_inv (y_main s) (Main_Done out) ((!) (y_nodes s) ` y_live s) as"
    and ci: "conc_inv api (y_clients s) d (y_conc s)" and cr: "created (y_main s) = map (thread_id \<circ> snd) (y_clients s)"
    using assms(3) by (auto simp: server_inv_def)
  then have "y_live s = {}" by (auto simp: list_inv_def)
  then show "all_returned (y_conc s)"
    using ti conc_invD(1) [OF ci] by (simp add: threads_inv_def all_returned_def all_set_conv_all_nth)
  show "listening out = []" using done_listening [OF assms(1,3)] by simp
  have "dom (heap (out_threads out)) = {}" using li by (auto simp: list_inv_def payload_dom)
  then show "heap (out_threads out) = Map.empty" by simp
  show "mset (out_joined out) = mset (map (thread_id \<circ> snd) (y_clients s))" using li cr by (simp add: list_inv_def)
  show "conc_inv api (y_clients s) d (y_conc s)" by (rule ci)
qed

text \<open>
  C4: The whole server does what a server that handles one client at a time would do: when \<open>main\<close> has
  ended, every thread has returned and has been joined once, every node has been freed, the
  listening socket is closed, and there is an order of all accepted clients in which, run one
  after the other, they receive what they have received and leave the output file as it is.
\<close>

theorem server_serves_as_if_serial:
  assumes "server_reach api bld fd [fd] (server_start m c d) s" "fresh_main m" "y_at s = Main_Done out"
  shows "all_returned (y_conc s) \<and> heap (out_threads out) = Map.empty \<and>
    mset (out_joined out) = mset (map (thread_id \<circ> snd) (y_clients s)) \<and> listening out = [] \<and>
    (\<exists>is. distinct is \<and> set is = {..<length (y_clients s)} \<and>
      serve_all api (map ((!) (y_clients s)) is) d = Some (Inr (map (sent_to (y_conc s)) is, c_dev (y_conc s))))"
  using server_done(2-5) [OF assms] conc_inv_serial [OF server_done(1,2) [OF assms]] serial_order_perm [OF server_done(1) [OF assms]]
  by (intro conjI exI [of _ "serial_order (y_conc s)"]) simp_all

theorem server_serves_as_if_serial_witness:
  "\<exists>s out. server_reach ex_cell ex_build 3 [3] (server_start ex_fresh 0 []) s \<and> y_at s = Main_Done out \<and> length (y_clients s) = 1 \<and>
     all_returned (y_conc s) \<and> heap (out_threads out) = Map.empty \<and> out_joined out \<noteq> []"
proof -
  from one_client_accepted [of ex_cell ex_build 3 "[3]" "[]"] obtain s args where s: "server_reach ex_cell ex_build 3 [3] (server_start ex_fresh 0 []) s"
    "y_clients s = [(ex_tenv, args)]" "\<not> is_running (sigs (y_main s))" by blast
  have "served_clients ex_cell (y_clients s) (\<lambda>k d. True)"
    using ex_cell_thread ex_tenv_ok s(2) by (fastforce simp: served_clients_def all_calls_succeed_def)
  from stopped_server_can_end [OF server_inv_reach [OF s(1) ex_fresh_main] sig_inv_reach [OF s(1) ex_fresh_running(2)] s(3) this, of ex_build 3 "[3]"] obtain s' out where
    s': "server_reach ex_cell ex_build 3 [3] s s'" "y_at s' = Main_Done out" "y_clients s' = y_clients s" by blast
  from server_reach_trans [OF s'(1) s(1)] have r: "server_reach ex_cell ex_build 3 [3] (server_start ex_fresh 0 []) s'" .
  from server_serves_as_if_serial [OF r ex_fresh_main s'(2)] r s' s(2) show ?thesis by auto
qed

text \<open>
  The server can always be stopped: once a terminating signal has been handled, from whatever state
  \<open>main\<close> and the client threads are in, they can go on to the end of \<open>main\<close> without another client
  connecting, provided each thread, run alone, comes to its end. No deadlock of \<open>main\<close> and the
  threads is reachable, and no thread is left that \<open>main\<close> waits for in vain.
\<close>

theorem signalled_server_can_stop:
  assumes "server_reach api bld fd fds (server_start m c d) s" "fresh_main m" "is_running (sigs m)" "\<not> is_running (sigs (y_main s))"
    "served_clients api (y_clients s) ok" "ok 0 d"
  shows "\<exists>s' out. server_reach api bld fd fds s s' \<and> y_at s' = Main_Done out \<and> y_clients s' = y_clients s"
  by (rule stopped_server_can_end [OF server_inv_reach [OF assms(1,2)] sig_inv_reach [OF assms(1) sig_inv_start] assms(4-6)])
    (use assms(3) in simp)

theorem signalled_server_can_stop_witness:
  "\<exists>s s' out. server_reach ex_cell ex_build 3 [3] (server_start ex_fresh 0 []) s \<and> y_at s = At_Link 1 \<and>
     server_reach ex_cell ex_build 3 [3] s s' \<and> y_at s' = Main_Done out \<and> length (y_clients s') = 1"
proof -
  from one_client_accepted [of ex_cell ex_build 3 "[3]" "[]"] obtain s args where s: "server_reach ex_cell ex_build 3 [3] (server_start ex_fresh 0 []) s"
    "y_clients s = [(ex_tenv, args)]" "\<not> is_running (sigs (y_main s))" "y_at s = At_Link 1" by blast
  have "served_clients ex_cell (y_clients s) (\<lambda>k d. True)"
    using ex_cell_thread ex_tenv_ok s(2) by (fastforce simp: served_clients_def all_calls_succeed_def)
  from signalled_server_can_stop [OF s(1) ex_fresh_main ex_fresh_running(1) s(3) this] s show ?thesis by fastforce
qed

end
