(* ===== verification/Server_Fair.thy ===== *)
theory Server_Fair
  imports Fair_Runs Server_Progress
begin

text \<open>
  Infinite runs of the whole server, and what fair scheduling gives: once a terminating signal has
  been handled the server does come to its end. Fairness is weak fairness of \<open>main\<close> and of
  each client thread; nothing is assumed of signals, of what the calls of \<open>main\<close> return, or of the
  order in which threads get the mutex. Nor is anything assumed of the network: while \<open>main\<close> waits in
  \<open>accept\<close> on a socket that has not been shut down, its next step is one of the network, which
  need not come. It is the handler's \<open>shutdown\<close> that makes it a step of \<open>main\<close>.

  The proof has three parts: \<open>main\<close> gets to the loop that waits for the threads (measure \<open>needs\<close>);
  from then on no thread is created, so the threads take finitely many steps and, being
  scheduled fairly, return; with all threads returned the next pass over the list empties it
  (measure \<open>ends_in\<close>).
\<close>

section \<open>Actors\<close>

datatype actor = By_Main | By_Network | By_Client nat | By_Signal

fun acts :: "'d out_file \<Rightarrow> build_env \<Rightarrow> int \<Rightarrow> int list \<Rightarrow> actor \<Rightarrow> 'd sys \<Rightarrow> 'd sys \<Rightarrow> bool" where
  "acts api bld fd fds By_Main s s' \<longleftrightarrow> \<not> waits_for_client s \<and>
     (\<exists>ans. answer_ok ans s \<and> main_step bld fd fds ans s = Some (Inr s'))"
| "acts api bld fd fds By_Network s s' \<longleftrightarrow> waits_for_client s \<and>
     (\<exists>ans. answer_ok ans s \<and> main_step bld fd fds ans s = Some (Inr s'))"
| "acts api bld fd fds (By_Client i) s s' \<longleftrightarrow> i < length (y_clients s) \<and>
     (\<exists>c. conc_step api (y_clients s) (y_conc s) c \<and> fst (c_threads c ! i) \<noteq> fst (c_threads (y_conc s) ! i) \<and>
        client_moves i c s = Inr s')"
| "acts api bld fd fds By_Signal s s' \<longleftrightarrow>
     (\<exists>waits sig. s' = s\<lparr>y_main := (y_main s)\<lparr>sigs := signal_handler waits sig (sigs (y_main s))\<rparr>\<rparr>)"

text \<open>The steps of the actors are the steps of the server.\<close>

lemma acts_server_step: "server_step api bld fd fds s (Inr s') \<longleftrightarrow> (\<exists>a. acts api bld fd fds a s s')"
proof
  assume "server_step api bld fd fds s (Inr s')"
  then show "\<exists>a. acts api bld fd fds a s s'"
  proof cases
    case (main ans)
    then show ?thesis by (intro exI [of _ "if waits_for_client s then By_Network else By_Main"]) auto
  next
    case (client c i)
    then show ?thesis by (intro exI [of _ "By_Client i"]) auto
  next
    case (signal waits sig)
    then show ?thesis by (intro exI [of _ By_Signal]) auto
  qed
next
  assume "\<exists>a. acts api bld fd fds a s s'"
  then obtain a where a: "acts api bld fd fds a s s'" ..
  show "server_step api bld fd fds s (Inr s')"
  proof (cases a)
    case (By_Client i)
    with a obtain c where "conc_step api (y_clients s) (y_conc s) c" "i < length (y_clients s)"
      "fst (c_threads c ! i) \<noteq> fst (c_threads (y_conc s) ! i)" "client_moves i c s = Inr s'" by auto
    with server_step.client [OF this(1-3), of bld fd fds] show ?thesis by simp
  qed (use a in \<open>auto intro: server_step.main server_step.signal\<close>)
qed

lemma run_reach: "run_of (acts api bld fd fds) who run \<Longrightarrow> server_reach api bld fd fds (run 0) (run k)"
proof (induction k)
  case (Suc k)
  with run_ofD [of _ who run k] have "server_step api bld fd fds (run k) (Inr (run (Suc k)))" by (auto simp: acts_server_step)
  with Suc show ?case by (auto intro: server_reach.step)
qed (rule server_reach.start)

lemma acts_inv: "acts api bld fd fds a s s' \<Longrightarrow> server_inv api d0 s \<Longrightarrow> server_inv api d0 s'"
  using server_inv_step [of api bld fd fds s "Inr s'"] by (auto simp: acts_server_step)

section \<open>What an actor leaves alone\<close>

lemma client_acts:
  assumes "acts api bld fd fds (By_Client i) s s'"
  shows "y_at s' = y_at s" "y_clients s' = y_clients s" "y_live s' = y_live s" "sigs (y_main s') = sigs (y_main s)"
    "conc_step api (y_clients s) (y_conc s) (y_conc s')"
    "list_repr (threads (y_main s)) as \<Longrightarrow> list_repr (threads (y_main s')) as"
proof -
  from assms obtain c ts where c: "conc_step api (y_clients s) (y_conc s) c"
    "store_args (y_nodes s ! i) (t_args (snd (c_threads c ! i))) (threads (y_main s)) = Inr ts"
    "s' = s\<lparr>y_main := (y_main s)\<lparr>threads := ts\<rparr>, y_conc := c\<rparr>" by (auto simp: client_moves_def ebind_eq_Inr)
  then show "y_at s' = y_at s" "y_clients s' = y_clients s" "y_live s' = y_live s" "sigs (y_main s') = sigs (y_main s)"
    "conc_step api (y_clients s) (y_conc s) (y_conc s')" by simp_all
  have "payload (threads (y_main s)) (y_nodes s ! i) \<noteq> None" using c(2) by (auto simp: store_args_def payload_def split: option.splits)
  then show "list_repr (threads (y_main s')) as" if "list_repr (threads (y_main s)) as"
    using store_args_spec [OF _ that, of "y_nodes s ! i" "t_args (snd (c_threads c ! i))"] c(2,3) by auto
qed

lemma signal_acts:
  assumes "acts api bld fd fds By_Signal s s'"
  shows "y_at s' = y_at s" "y_clients s' = y_clients s" "y_live s' = y_live s" "y_conc s' = y_conc s"
    "threads (y_main s') = threads (y_main s)" "\<not> is_running (sigs (y_main s)) \<Longrightarrow> \<not> is_running (sigs (y_main s'))"
  using assms by (auto simp: signal_handler_def Let_def split: if_splits)

lemma acts_stopped: "acts api bld fd fds a s s' \<Longrightarrow> \<not> is_running (sigs (y_main s)) \<Longrightarrow> \<not> is_running (sigs (y_main s'))"
  using client_acts(4) [of api bld fd fds _ s s'] signal_acts(6) [of api bld fd fds s s']
  by (cases a) (auto simp del: acts.simps(3,4) dest!: main_step_sigs)

lemma acts_sig_inv: "acts api bld fd fds a s s' \<Longrightarrow> sig_inv s \<Longrightarrow> sig_inv s'"
  using sig_inv_step [of api bld fd fds s s'] by (auto simp: acts_server_step)

lemma main_can_act:
  assumes "server_inv api d0 s" "\<nexists>out. y_at s = Main_Done out" "\<not> waits_for_client s"
  shows "can_act (acts api bld fd fds) By_Main s"
proof -
  from main_keeps_inv [OF assms(1) closing_ok, of bld fd fds] assms(2,3) obtain s' where
    "main_step bld fd fds closing s = Some (Inr s')" by blast
  with assms(3) have "acts api bld fd fds By_Main s s'" using closing_ok [of s] by (auto simp del: closing_ok)
  then show ?thesis unfolding can_act_def ..
qed

lemma client_can_act:
  assumes "server_inv api d0 s" "conc_step api (y_clients s) (y_conc s) c" "i < length (y_clients s)"
    "fst (c_threads c ! i) \<noteq> fst (c_threads (y_conc s) ! i)"
  shows "can_act (acts api bld fd fds) (By_Client i) s"
  using client_keeps_inv [OF assms] assms(2-4) by (auto simp: can_act_def)


section \<open>Getting to the loop that waits\<close>

text \<open>How many steps \<open>main\<close> takes, at most, to the loop that waits for the threads.\<close>

fun needs :: "nat \<Rightarrow> main_point \<Rightarrow> 'd sys \<Rightarrow> bool" where
  "needs n (At_Cleanup code c) s \<longleftrightarrow> n = 1"
| "needs n (At_Loop c) s \<longleftrightarrow> n = 2"
| "needs n At_Accept_Failed s \<longleftrightarrow> n = 2"
| "needs n (At_Reap k p) s \<longleftrightarrow> (\<exists>xs ys. list_repr (threads (y_main s)) (xs @ ys) \<and> p = ptr_of ys \<and> n = length ys + 3)"
| "needs n (At_Link a) s \<longleftrightarrow> n = card (y_live s) + 4"
| "needs n (At_Create c a) s \<longleftrightarrow> n = card (y_live s) + 6"
| "needs n (At_Init c) s \<longleftrightarrow> n = card (y_live s) + 7"
| "needs n At_Accept s \<longleftrightarrow> n = card (y_live s) + 8"
| "needs n (At_Wait code cl) s \<longleftrightarrow> n = 0"
| "needs n (Main_Done out) s \<longleftrightarrow> n = 0"

fun at_wait :: "main_point \<Rightarrow> bool" where
  "at_wait (At_Wait code cl) = True"
| "at_wait (Main_Done out) = True"
| "at_wait _ = False"

lemma needs_exists: "server_inv api d0 s \<Longrightarrow> \<exists>n. needs n (y_at s) s"
  by (cases "y_at s") (auto simp: server_inv_def list_inv_def)

lemma live_length:
  assumes "server_inv api d0 s" "list_repr (threads (y_main s)) as" "unlinked (y_at s) = []"
  shows "length as = card (y_live s)"
proof -
  from assms obtain bs where l: "list_inv (y_main s) (y_at s) ((!) (y_nodes s) ` y_live s) bs" and inj: "inj_on ((!) (y_nodes s)) (y_live s)"
    by (auto simp: server_inv_def threads_inv_def)
  with assms(2) have "bs = as" by (auto simp: list_inv_def list_repr_def dest: links_unique)
  with l assms(3) have "(!) (y_nodes s) ` y_live s = set as" by (cases "y_at s") (auto simp: list_inv_def)
  with card_image [OF inj] sl.distinct_law [OF assms(2)] show ?thesis by (simp add: distinct_card)
qed

text \<open>One iteration over the list, whatever the calls return.\<close>

lemma main_reaps:
  assumes "main_step bld fd fds ans s = Some (Inr s')" "y_at s = At_Reap k (ptr_of ys)" "list_repr (threads (y_main s)) (xs @ ys)"
  shows "case ys of [] \<Rightarrow> s' = s\<lparr>y_at := after_reap k\<rparr>
    | a # ys' \<Rightarrow> y_at s' = At_Reap k (ptr_of ys') \<and> y_conc s' = y_conc s \<and> y_clients s' = y_clients s \<and>
        list_repr (threads (y_main s')) (if is_finished (threads (y_main s)) a then xs @ ys' else xs @ a # ys')"
proof (cases ys)
  case Nil
  with assms show ?thesis by (auto simp: main_step_def Let_def ptr_of_def)
next
  case (Cons a ys')
  with reap_one_spec [of "threads (y_main s)" xs a ys'] assms show ?thesis
    by (auto simp: main_step_def Let_def ptr_of_def [of "a # ys'"] split: if_splits)
qed

lemma main_needs_less:
  assumes "main_step bld fd fds ans s = Some (Inr s')" and inv: "server_inv api d0 s" "server_inv api d0 s'"
    and nr: "\<not> is_running (sigs (y_main s))" and n: "needs n (y_at s) s" "\<not> at_wait (y_at s)"
  shows "at_wait (y_at s') \<or> (\<exists>m < n. needs m (y_at s') s')"
proof (cases "y_at s")
  case (At_Reap k p)
  with n obtain xs ys where ys: "list_repr (threads (y_main s)) (xs @ ys)" "p = ptr_of ys" "n = length ys + 3" by auto
  note r = main_reaps [OF assms(1) At_Reap [unfolded ys(2)] ys(1)]
  show ?thesis
  proof (cases ys)
    case Nil
    with r ys(3) show ?thesis by (cases k) (auto simp: after_reap_def)
  next
    case (Cons a ys')
    have less: ?thesis if "list_repr (threads (y_main s')) (zs @ ys')" "y_at s' = At_Reap k (ptr_of ys')" for zs
      using that Cons ys(3) by (intro disjI2 exI [of _ "length ys' + 3"]) auto
    show ?thesis
      by (rule less [of "if is_finished (threads (y_main s)) a then xs else xs @ [a]"]) (use r Cons in auto)
  qed
next
  case (At_Link a)
  with assms(1) obtain ts where ts: "s' = s\<lparr>y_main := (y_main s)\<lparr>threads := ts\<rparr>, y_at := At_Reap None (SLIST_FIRST ts)\<rparr>"
    by (auto simp: main_step_def Let_def ebind_eq_Inr)
  from inv(2) obtain as where as: "list_repr ts as" by (auto simp: server_inv_def list_inv_def ts)
  have "length as = card (y_live s)" using live_length [OF inv(2), of as] as ts by simp
  moreover have "needs (length as + 3) (y_at s') s'"
    unfolding ts by (simp, rule exI [of _ "[]"], rule exI [of _ as]) (use sl.first_law [OF as] as in \<open>simp add: ptr_of_def\<close>)
  ultimately show ?thesis using n At_Link by (intro disjI2 exI [of _ "length as + 3"]) simp
next
  case (At_Create c a)
  have "finite (y_live s)" using inv(1) by (auto simp: server_inv_def threads_inv_def intro: finite_subset)
  moreover have "length (y_clients s) \<notin> y_live s" using inv(1) by (auto simp: server_inv_def threads_inv_def)
  ultimately show ?thesis
    using assms(1) At_Create n by (auto simp: main_step_def Let_def ebind_eq_Inr split: if_splits)
next
  case (At_Init c)
  let ?m = "y_main s"
  from At_Init assms(1) obtain p h where "s' = (case p of NULL \<Rightarrow> s\<lparr>y_at := At_Cleanup EXIT_FAILURE c\<rparr>
      | Ptr a \<Rightarrow> s\<lparr>y_main := ?m\<lparr>threads := (threads ?m)\<lparr>heap := h\<rparr>\<rparr>, y_at := At_Create c a\<rparr>)"
    by (auto simp: main_step_def Let_def ebind_eq_Inr)
  with At_Init n show ?thesis by (cases p) auto
qed (use assms(1) n nr in \<open>auto simp: main_step_def Let_def split: if_splits\<close>)

lemma others_keep_needs:
  assumes "acts api bld fd fds a s s'" "a \<noteq> By_Main" "needs n (y_at s) s" "\<not> waits_for_client s"
  shows "needs n (y_at s') s'"
proof (cases a)
  case (By_Client i)
  note c = client_acts [OF assms(1) [unfolded this]]
  from assms(3) c show ?thesis by (cases "y_at s") auto
next
  case By_Signal
  note c = signal_acts [OF assms(1) [unfolded this]]
  from assms(3) c show ?thesis by (cases "y_at s") auto
qed (use assms(1,2,4) in simp_all)

lemma stopped_main_waits:
  assumes run: "run_of (acts api bld fd fds) who run" and fair: "fair_to (acts api bld fd fds) By_Main who run"
    and inv: "server_inv api d0 (run i)" "sig_inv (run i)" and nr: "\<not> is_running (sigs (y_main (run i)))"
  shows "\<exists>j \<ge> i. at_wait (y_at (run j))"
proof -
  obtain n where n: "needs n (y_at (run i)) (run i)" using needs_exists [OF inv(1)] ..
  let ?P = "\<lambda>n s. server_inv api d0 s \<and> sig_inv s \<and> \<not> is_running (sigs (y_main s)) \<and> needs n (y_at s) s"
  show ?thesis
  proof (rule helpful_actor_leads [OF fair, of i ?P, where Q = "\<lambda>s. at_wait (y_at s)"])
    fix k n assume P: "?P n (run k)" and w: "\<not> at_wait (y_at (run k))"
    note act = run_ofD [OF run, of k]
    have keep: "server_inv api d0 (run (Suc k))" "sig_inv (run (Suc k))" "\<not> is_running (sigs (y_main (run (Suc k))))"
      using acts_inv [OF act] acts_sig_inv [OF act] acts_stopped [OF act] P by blast+
    have nw: "\<not> waits_for_client (run k)" using P by (auto simp: sig_inv_def waits_for_client_def)
    have can: "can_act (acts api bld fd fds) By_Main (run k)"
      using P w nw by (intro main_can_act) auto
    have less: "at_wait (y_at (run (Suc k))) \<or> (\<exists>m < n. needs m (y_at (run (Suc k))) (run (Suc k)))" if "who k = By_Main"
    proof -
      from act that obtain ans where "main_step bld fd fds ans (run k) = Some (Inr (run (Suc k)))" by auto
      from main_needs_less [OF this _ keep(1) _ _ w] P show ?thesis by blast
    qed
    have same: "needs n (y_at (run (Suc k))) (run (Suc k))" if "who k \<noteq> By_Main"
      using others_keep_needs [OF act that _ nw] P by blast
    show "can_act (acts api bld fd fds) By_Main (run k) \<and> (at_wait (y_at (run (Suc k))) \<or>
        (\<exists>m. ?P m (run (Suc k)) \<and> (m < n \<or> m = n \<and> who k \<noteq> By_Main)))"
      using can keep less same by blast
  qed (use n inv nr in auto)
qed


section \<open>Coming to the end\<close>

text \<open>\<open>main\<close> in \<open>remove_all_remaining_threads\<close> or behind it: no more threads are created.\<close>

fun closing_down :: "main_point \<Rightarrow> bool" where
  "closing_down (At_Wait code cl) = True"
| "closing_down (At_Reap k p) = (k \<noteq> None)"
| "closing_down (Main_Done out) = True"
| "closing_down _ = False"

lemma at_wait_closing: "at_wait p \<Longrightarrow> closing_down p"
  by (cases p) simp_all

lemma closing_main:
  assumes "main_step bld fd fds ans s = Some (Inr s')" "closing_down (y_at s)"
  shows "closing_down (y_at s')" "y_conc s' = y_conc s" "y_clients s' = y_clients s"
  using assms
  by (cases "y_at s"; auto simp: main_step_def Let_def after_reap_def split: if_splits option.splits sum.splits ptr.splits)+

lemma closing_acts:
  assumes "acts api bld fd fds a s s'" "closing_down (y_at s)"
  shows "closing_down (y_at s')" "y_clients s' = y_clients s" "remaining (y_conc s') \<le> remaining (y_conc s)"
    "remaining (y_conc s') = remaining (y_conc s) \<Longrightarrow> y_conc s' = y_conc s \<and> (\<forall>i. a \<noteq> By_Client i)"
proof -
  have "closing_down (y_at s') \<and> y_clients s' = y_clients s \<and>
    (y_conc s' = y_conc s \<and> (\<forall>i. a \<noteq> By_Client i) \<or> remaining (y_conc s') < remaining (y_conc s))"
  proof (cases a)
    case By_Main
    with assms closing_main show ?thesis by fastforce
  next
    case By_Network
    with assms show ?thesis by (auto simp: waits_for_client_def)
  next
    case (By_Client i)
    note c = client_acts [OF assms(1) [unfolded this]]
    with assms(2) remaining_step [OF c(5)] show ?thesis by simp
  next
    case By_Signal
    with signal_acts [OF assms(1) [unfolded this]] assms(2) show ?thesis by simp
  qed
  then show "closing_down (y_at s')" "y_clients s' = y_clients s" "remaining (y_conc s') \<le> remaining (y_conc s)"
    "remaining (y_conc s') = remaining (y_conc s) \<Longrightarrow> y_conc s' = y_conc s \<and> (\<forall>i. a \<noteq> By_Client i)" by auto
qed

lemma returned_stays:
  assumes "acts api bld fd fds a s s'" "all_returned (y_conc s) \<and> closing_down (y_at s)"
  shows "all_returned (y_conc s') \<and> closing_down (y_at s')"
proof (cases a)
  case (By_Client i)
  from client_acts(5) [OF assms(1) [unfolded this]] returned_no_step assms(2) show ?thesis by blast
next
  case By_Main
  with closing_main assms show ?thesis by fastforce
next
  case By_Network
  with assms show ?thesis by (auto simp: waits_for_client_def)
next
  case By_Signal
  with signal_acts [OF assms(1) [unfolded this]] assms(2) show ?thesis by simp
qed

text \<open>The threads return: they have finitely many steps left, and one that can move does.\<close>

lemma threads_return:
  assumes run: "run_of (acts api bld fd fds) who run" and fair: "\<And>i. fair_to (acts api bld fd fds) (By_Client i) who run"
    and inv: "server_inv api d0 (run i)" and cl: "closing_down (y_at (run i))"
    and served: "served_clients api (y_clients (run i)) ok" "ok 0 d0"
  shows "\<exists>j \<ge> i. all_returned (y_conc (run j)) \<and> closing_down (y_at (run j))"
proof -
  have all: "server_inv api d0 (run k) \<and> closing_down (y_at (run k)) \<and> y_clients (run k) = y_clients (run i)" if "i \<le> k" for k
    using run_keeps [OF run, of "\<lambda>s. server_inv api d0 s \<and> closing_down (y_at s) \<and> y_clients s = y_clients (run i)", OF _ _ that]
      inv cl acts_inv closing_acts(1,2) by metis
  have "remaining (y_conc (run (Suc k))) \<le> remaining (y_conc (run k))" if "i \<le> k" for k
    using closing_acts(3) [OF run_ofD [OF run]] all [OF that] by blast
  from eventually_constant [of i "\<lambda>k. remaining (y_conc (run k))", OF this] obtain j where
    j: "i \<le> j" "\<And>k. j \<le> k \<Longrightarrow> remaining (y_conc (run k)) = remaining (y_conc (run j))" by blast
  have still: "y_conc (run (Suc k)) = y_conc (run k) \<and> (\<forall>i. who k \<noteq> By_Client i)" if "j \<le> k" for k
  proof (rule closing_acts(4) [OF run_ofD [OF run]])
    show "closing_down (y_at (run k))" using all j(1) that by auto
    show "remaining (y_conc (run (Suc k))) = remaining (y_conc (run k))" using j(2) [of k] j(2) [of "Suc k"] that by simp
  qed
  have same: "y_conc (run k) = y_conc (run j)" if "j \<le> k" for k
    using that by (induction rule: dec_induct) (use still in auto)
  have "all_returned (y_conc (run j))"
  proof (rule ccontr)
    assume nr: "\<not> all_returned (y_conc (run j))"
    have "held_inside (y_conc (run j))" "conc_inv api (y_clients (run i)) d0 (y_conc (run j))"
      using all [OF j(1)] served(1) by (auto simp: server_inv_def served_clients_def)
    from inv_not_stuck [OF this(2,1) served nr] obtain c where c: "conc_step api (y_clients (run i)) (y_conc (run j)) c" ..
    obtain l where l: "l < length (c_threads (y_conc (run j)))" "fst (c_threads c ! l) \<noteq> fst (c_threads (y_conc (run j)) ! l)"
      by (rule conc_step_mover [OF c])
    have "length (c_threads (y_conc (run j))) = length (y_clients (run i))"
      using all [OF j(1)] by (auto simp: server_inv_def dest: conc_invD(1))
    with l(1) have l': "l < length (y_clients (run i))" by simp
    have "can_act (acts api bld fd fds) (By_Client l) (run k)" if "j \<le> k" for k
    proof -
      note a = all [OF le_trans [OF j(1) that]]
      show ?thesis by (rule client_can_act [of api d0 _ c]) (simp_all add: a same [OF that] c l(2) l')
    qed
    from fair_moves [OF fair this] obtain k where "j \<le> k" "who k = By_Client l" by blast
    with still show False by blast
  qed
  with all [OF j(1)] j(1) show ?thesis by blast
qed


text \<open>With all threads returned, the number of steps to the end from the waiting loop.\<close>

fun ends_in :: "nat \<Rightarrow> main_point \<Rightarrow> 'd sys \<Rightarrow> bool" where
  "ends_in n (At_Wait code cl) s \<longleftrightarrow> (\<exists>as. list_repr (threads (y_main s)) as \<and> n = (if as = [] then 1 else length as + 3))"
| "ends_in n (At_Reap k p) s \<longleftrightarrow> k \<noteq> None \<and> (\<exists>ys. list_repr (threads (y_main s)) ys \<and> p = ptr_of ys \<and> n = length ys + 2)"
| "ends_in n _ s \<longleftrightarrow> False"

lemma main_ends_less:
  assumes "main_step bld fd fds ans s = Some (Inr s')" and inv: "server_inv api d0 s" and ret: "all_returned (y_conc s)"
    and n: "ends_in n (y_at s) s"
  shows "(\<exists>out. y_at s' = Main_Done out) \<or> (\<exists>m < n. ends_in m (y_at s') s')"
proof (cases "y_at s")
  case (At_Wait code cl)
  with n obtain as where as: "list_repr (threads (y_main s)) as" "n = (if as = [] then 1 else length as + 3)" by auto
  have e: "SLIST_EMPTY (threads (y_main s)) \<longleftrightarrow> as = []" "SLIST_FIRST (threads (y_main s)) = ptr_of as"
    using sl.empty_iff [OF as(1)] sl.first_law [OF as(1)] by (simp_all add: SLIST_EMPTY_def SLIST_FIRST_def ptr_of_def)
  show ?thesis
  proof (cases "as = []")
    case True
    with e(1) assms(1) At_Wait show ?thesis by (auto simp: main_step_def Let_def)
  next
    case False
    with e assms(1) At_Wait have "s' = s\<lparr>y_at := At_Reap (Some (code, cl)) (ptr_of as)\<rparr>" by (simp add: main_step_def Let_def)
    with as False show ?thesis by (intro disjI2 exI [of _ "length as + 2"]) auto
  qed
next
  case (At_Reap k p)
  with n obtain ys code cl where ys: "list_repr (threads (y_main s)) ([] @ ys)" "p = ptr_of ys" "n = length ys + 2" "k = Some (code, cl)"
    by auto
  note r = main_reaps [OF assms(1) At_Reap [unfolded ys(2)] ys(1)]
  show ?thesis
  proof (cases ys)
    case Nil
    with r ys show ?thesis by (intro disjI2 exI [of _ 1]) (auto simp: after_reap_def)
  next
    case (Cons a ys')
    with returned_nodes_finished [OF inv ret] ys(1) have "is_finished (threads (y_main s)) a" by simp
    with r Cons ys show ?thesis by (intro disjI2 exI [of _ "length ys' + 2"]) auto
  qed
qed (use n in auto)

lemma others_keep_ends:
  assumes "acts api bld fd fds a s s'" "a \<noteq> By_Main" "ends_in n (y_at s) s" "all_returned (y_conc s)"
  shows "ends_in n (y_at s') s' \<and> all_returned (y_conc s')"
proof (cases a)
  case (By_Client i)
  from client_acts(5) [OF assms(1) [unfolded this]] returned_no_step [OF assms(4)] show ?thesis by blast
next
  case By_Signal
  note c = signal_acts [OF assms(1) [unfolded this]]
  from assms(3,4) c show ?thesis by (cases "y_at s") auto
next
  case By_Network
  with assms show ?thesis by (auto simp: waits_for_client_def)
qed (use assms(2) in simp)

lemma waiting_main_ends:
  assumes run: "run_of (acts api bld fd fds) who run" and fair: "fair_to (acts api bld fd fds) By_Main who run"
    and inv: "server_inv api d0 (run i)" and ret: "all_returned (y_conc (run i))" and w: "at_wait (y_at (run i))"
  shows "\<exists>j \<ge> i. \<exists>out. y_at (run j) = Main_Done out"
proof (cases "\<exists>out. y_at (run i) = Main_Done out")
  case False
  with w obtain code cl where at: "y_at (run i) = At_Wait code cl" by (cases "y_at (run i)") auto
  from inv obtain as where as: "list_repr (threads (y_main (run i))) as" by (auto simp: server_inv_def list_inv_def)
  let ?P = "\<lambda>n s. server_inv api d0 s \<and> all_returned (y_conc s) \<and> ends_in n (y_at s) s" and ?Q = "\<lambda>s. \<exists>out. y_at s = Main_Done out"
  show ?thesis
  proof (rule helpful_actor_leads [OF fair, of i ?P, where Q = ?Q])
    fix k n assume P: "?P n (run k)" and d: "\<not> ?Q (run k)"
    note act = run_ofD [OF run, of k]
    have keep: "server_inv api d0 (run (Suc k))" using acts_inv [OF act] P by blast
    have "\<not> waits_for_client (run k)" using P by (auto simp: waits_for_client_def)
    then have can: "can_act (acts api bld fd fds) By_Main (run k)" using P d by (intro main_can_act) auto
    have less: "(?Q (run (Suc k)) \<or> (\<exists>m < n. ends_in m (y_at (run (Suc k))) (run (Suc k)))) \<and> all_returned (y_conc (run (Suc k)))"
      if "who k = By_Main"
    proof -
      from act that obtain ans where m: "main_step bld fd fds ans (run k) = Some (Inr (run (Suc k)))" by auto
      have "closing_down (y_at (run k))" using P by (cases "y_at (run k)") auto
      from main_ends_less [OF m, of api d0 n] closing_main(2) [OF m this] P show ?thesis by simp
    qed
    have same: "ends_in n (y_at (run (Suc k))) (run (Suc k)) \<and> all_returned (y_conc (run (Suc k)))" if "who k \<noteq> By_Main"
      using others_keep_ends [OF act that] P by blast
    show "can_act (acts api bld fd fds) By_Main (run k) \<and> (?Q (run (Suc k)) \<or>
        (\<exists>m. ?P m (run (Suc k)) \<and> (m < n \<or> m = n \<and> who k \<noteq> By_Main)))"
      using can keep less same by blast
  next
    show "?P (if as = [] then 1 else length as + 3) (run i)" using as at inv ret by (auto intro!: exI [of _ as])
  qed simp
qed blast

text \<open>The three parts together.\<close>

lemma fair_server_ends:
  assumes run: "run_of (acts api bld fd fds) who run" and inv: "\<And>k. server_inv api d (run k)" and sig: "\<And>k. sig_inv (run k)"
    and fair: "\<And>a. a \<notin> {By_Signal, By_Network} \<Longrightarrow> fair_to (acts api bld fd fds) a who run"
    and nr: "\<not> is_running (sigs (y_main (run i)))" and served: "\<And>k. served_clients api (y_clients (run k)) ok" "ok 0 d"
  shows "\<exists>j out. i \<le> j \<and> y_at (run j) = Main_Done out"
proof -
  have stopped: "\<not> is_running (sigs (y_main (run k)))" if "i \<le> k" for k
    using run_keeps [OF run, of "\<lambda>s. \<not> is_running (sigs (y_main s))", OF acts_stopped nr that] .
  have fair': "fair_to (acts api bld fd fds) By_Main who run" "\<And>l. fair_to (acts api bld fd fds) (By_Client l) who run"
    using fair by simp_all
  obtain j1 where j1: "i \<le> j1" "at_wait (y_at (run j1))" using stopped_main_waits [OF run fair'(1) inv sig nr] by blast
  obtain j2 where j2: "j1 \<le> j2" "all_returned (y_conc (run j2))" "closing_down (y_at (run j2))"
    using threads_return [OF run fair'(2) inv at_wait_closing [OF j1(2)] served] by blast
  obtain j3 where j3: "j2 \<le> j3" "at_wait (y_at (run j3))"
    using stopped_main_waits [OF run fair'(1) inv sig stopped, of j2] j1(1) j2(1) by auto
  have "all_returned (y_conc (run j3)) \<and> closing_down (y_at (run j3))"
    by (rule run_keeps [OF run, of "\<lambda>s. all_returned (y_conc s) \<and> closing_down (y_at s)", OF _ _ j3(1)])
      (use returned_stays j2 in blast)+
  then obtain j out where j: "j3 \<le> j" "y_at (run j) = Main_Done out"
    using waiting_main_ends [OF run fair'(1) inv _ j3(2)] by blast
  with j1(1) j2(1) j3(1) show ?thesis by (intro exI [of _ j] exI [of _ out]) simp
qed

text \<open>A finite path, continued with signals that change nothing, as an infinite run.\<close>

definition settles :: "'d out_file \<Rightarrow> build_env \<Rightarrow> int \<Rightarrow> int list \<Rightarrow> (nat \<Rightarrow> actor) \<Rightarrow> (nat \<Rightarrow> 'd sys) \<Rightarrow> nat \<Rightarrow> 'd sys \<Rightarrow> bool" where
  "settles api bld fd fds who run n s \<longleftrightarrow> run_of (acts api bld fd fds) who run \<and> (\<forall>k \<ge> n. run k = s \<and> who k = By_Signal)"

lemma signal_idle: "acts api bld fd fds By_Signal s s"
  by (auto simp: signal_handler_def intro!: exI [of _ SIGCHLD])

lemma run_extends:
  assumes "server_reach api bld fd fds s s'" "settles api bld fd fds who run n s"
  shows "\<exists>who' run' n'. settles api bld fd fds who' run' n' s' \<and> (\<forall>k \<le> n. run' k = run k) \<and> n \<le> n'"
  using assms(1)
proof (induction rule: server_reach.induct)
  case start
  with assms(2) show ?case by blast
next
  case (step s1 s2)
  then obtain who1 run1 n1 where r: "settles api bld fd fds who1 run1 n1 s1" "\<forall>k \<le> n. run1 k = run k" "n \<le> n1" by blast
  from step.hyps(2) obtain a where a: "acts api bld fd fds a s1 s2" by (auto simp: acts_server_step)
  let ?run = "\<lambda>k. if k \<le> n1 then run1 k else s2" and ?who = "\<lambda>k. if k < n1 then who1 k else if k = n1 then a else By_Signal"
  have "acts api bld fd fds (?who k) (?run k) (?run (Suc k))" for k
    using r(1) a signal_idle [of api bld fd fds s2] by (cases k n1 rule: linorder_cases) (auto simp: settles_def run_of_def simp del: acts.simps)
  then have "settles api bld fd fds ?who ?run (Suc n1) s2" by (simp add: settles_def run_of_def del: acts.simps)
  with r(2,3) show ?case by (intro exI [of _ ?who] exI [of _ ?run] exI [of _ "Suc n1"]) auto
qed

lemma settled_fair:
  assumes "settles api bld fd fds who run n s" "y_at s = Main_Done out" "all_returned (y_conc s)"
  shows "fair_to (acts api bld fd fds) a who run"
proof -
  have "a = By_Signal \<or> \<not> can_act (acts api bld fd fds) a s"
    using assms(2) returned_no_step [OF assms(3)] by (cases a) (auto simp: can_act_def waits_for_client_def)
  with assms(1) have "who (max i n) = a \<or> \<not> can_act (acts api bld fd fds) a (run (max i n))" for i by (auto simp: settles_def)
  then show ?thesis unfolding fair_to_def by (meson max.cobounded1)
qed

lemma main_step_clients: "main_step bld fd fds ans s = Some (Inr s') \<Longrightarrow> set (y_clients s) \<subseteq> set (y_clients s')"
  by (cases "y_at s"; cases "a_malloc ans"; cases "strncpy (ip_buf (y_main s)) 45")
    (auto simp: main_step_def Let_def ebind_eq_Inr init_thread_def split: if_splits option.splits sum.splits ptr.splits)

lemma acts_clients: "acts api bld fd fds a s s' \<Longrightarrow> set (y_clients s) \<subseteq> set (y_clients s')"
  using client_acts(2) [of api bld fd fds _ s s'] signal_acts(2) [of api bld fd fds s s'] main_step_clients [of bld fd fds _ s s']
  by (cases a) (auto simp del: acts.simps(3,4))

text \<open>A run through a given state to the end of \<open>main\<close>, fair since nobody can move at the end.\<close>

lemma run_through:
  assumes r: "server_reach api bld fd fds s0 s" "server_reach api bld fd fds s s'" and e: "y_at s' = Main_Done out" "all_returned (y_conc s')"
  shows "\<exists>who run i. run_of (acts api bld fd fds) who run \<and> run 0 = s0 \<and> run i = s \<and> (\<forall>a. fair_to (acts api bld fd fds) a who run) \<and>
    (\<forall>k. set (y_clients (run k)) \<subseteq> set (y_clients s'))"
proof -
  have "settles api bld fd fds (\<lambda>_. By_Signal) (\<lambda>_. s0) 0 s0"
    using signal_idle [of api bld fd fds s0] by (simp add: settles_def run_of_def del: acts.simps)
  from run_extends [OF r(1) this] obtain who1 run1 i where r1: "settles api bld fd fds who1 run1 i s" "run1 0 = s0" by auto
  from run_extends [OF r(2) r1(1)] obtain who run n where
    r2: "settles api bld fd fds who run n s'" "\<forall>k \<le> i. run k = run1 k" "i \<le> n" by blast
  have run: "run_of (acts api bld fd fds) who run" "run 0 = s0" "run i = s" using r1 r2 by (simp_all add: settles_def)
  have "set (y_clients (run k)) \<subseteq> set (y_clients s')" for k
  proof -
    have "set (y_clients (run k)) \<subseteq> set (y_clients (run (max k n)))"
      by (rule run_keeps [OF run(1), of "\<lambda>s. set (y_clients (run k)) \<subseteq> set (y_clients s)"]) (use acts_clients in \<open>blast+\<close>, simp_all)
    with r2(1) show ?thesis by (simp add: settles_def)
  qed
  with run settled_fair [OF r2(1) e] show ?thesis by blast
qed

section \<open>Properties\<close>

text \<open>
  C10: A server that has been told to stop stops: in every infinite run in which \<open>main\<close> and every client
  thread are scheduled fairly (a thread that could move for ever does move), whatever the calls of
  \<open>main\<close> return, in whatever order threads get the mutex and whether or not another client ever
  connects (nobody ends the wait in \<open>accept\<close> but a client, or the handler's \<open>shutdown\<close>), some time after
  a signal has cleared \<open>is_running\<close> \<open>main\<close> returns, with every thread joined once, every node freed and the
  listening socket closed. Each client thread, run alone, is assumed to return.
\<close>

theorem fair_signalled_server_stops:
  assumes "run_of (acts api bld fd [fd]) who run" "run 0 = server_start m c d" "fresh_main m" "is_running (sigs m)"
    "\<forall>a. a \<noteq> By_Signal \<longrightarrow> a \<noteq> By_Network \<longrightarrow> fair_to (acts api bld fd [fd]) a who run"
    "\<not> is_running (sigs (y_main (run i)))" "\<forall>k. served_clients api (y_clients (run k)) ok" "ok 0 d"
  shows "\<exists>j out. i \<le> j \<and> y_at (run j) = Main_Done out \<and> all_returned (y_conc (run j)) \<and> heap (out_threads out) = Map.empty \<and>
    mset (out_joined out) = mset (map (thread_id \<circ> snd) (y_clients (run j))) \<and> listening out = []"
proof -
  have reach: "server_reach api bld fd [fd] (server_start m c d) (run k)" for k using run_reach [OF assms(1), of k] assms(2) by simp
  obtain j out where j: "i \<le> j" "y_at (run j) = Main_Done out"
    using fair_server_ends [OF assms(1) server_inv_reach [OF reach assms(3)] sig_inv_reach [OF reach sig_inv_start]] assms(4-8)
    by blast
  with server_done(2-5) [OF reach assms(3) j(2)] show ?thesis by blast
qed

theorem fair_signalled_server_stops_witness:
  "\<exists>who run i j out. run_of (acts ex_cell ex_build 3 [3]) who run \<and> run 0 = server_start ex_fresh 0 [] \<and> y_at (run i) = At_Link 1 \<and>
     length (y_clients (run i)) = 1 \<and> i \<le> j \<and> y_at (run j) = Main_Done out \<and> heap (out_threads out) = Map.empty"
proof -
  let ?acts = "acts ex_cell ex_build 3 [3]" and ?s0 = "server_start ex_fresh 0 []"
  from one_client_accepted [of ex_cell ex_build 3 "[3]" "[]"] obtain s args where s: "server_reach ex_cell ex_build 3 [3] ?s0 s"
    "y_clients s = [(ex_tenv, args)]" "\<not> is_running (sigs (y_main s))" "y_at s = At_Link 1" by blast
  have served: "served_clients ex_cell cs (\<lambda>k d. True)" if "set cs \<subseteq> {(ex_tenv, args)}" for cs
    using ex_cell_thread ex_tenv_ok that by (fastforce simp: served_clients_def all_calls_succeed_def)
  from stopped_server_can_end [OF server_inv_reach [OF s(1) ex_fresh_main] sig_inv_reach [OF s(1) ex_fresh_running(2)] s(3) served, of ex_build 3 "[3]"] s(2) obtain s' out where
    s': "server_reach ex_cell ex_build 3 [3] s s'" "y_at s' = Main_Done out" "y_clients s' = [(ex_tenv, args)]" by auto
  have "server_reach ex_cell ex_build 3 [3] ?s0 s'" by (rule server_reach_trans [OF s'(1) s(1)])
  from server_done(2) [OF this ex_fresh_main s'(2)] have "all_returned (y_conc s')" .
  from run_through [OF s(1) s'(1,2) this] obtain who run i where
    ri: "run i = s" "run 0 = ?s0" "run_of ?acts who run" "\<forall>a. a \<noteq> By_Signal \<longrightarrow> a \<noteq> By_Network \<longrightarrow> fair_to ?acts a who run"
    and clients: "\<And>k. set (y_clients (run k)) \<subseteq> {(ex_tenv, args)}" unfolding s'(3) by auto
  have "\<not> is_running (sigs (y_main (run i)))" using ri(1) s(3) by simp
  from fair_signalled_server_stops [OF ri(3,2) ex_fresh_main ex_fresh_running(1) ri(4) this, of "\<lambda>k d. True"] served clients
  obtain j out' where j: "i \<le> j" "y_at (run j) = Main_Done out'" "heap (out_threads out') = Map.empty" by blast
  with ri s show ?thesis by (intro exI [of _ who] exI [of _ run] exI [of _ i] exI [of _ j] exI [of _ out']) simp
qed

end
