(* ===== verification/Queue_Mem.thy ===== *)
theory Queue_Mem
  imports Aesd_Prelude
begin

text \<open>
  The memory the tail queues and lists of \<open>server/queue.h\<close> live in: heads and elements with embedded
  links. A pointer to a pointer (\<open>struct type **\<close>), which these families keep to the link
  that points to an element or to the last link of the queue, is the address of a field: the
  field \<open>first\<close> of a head or the field \<open>next\<close> of an element (\<open>field_addr\<close>).

  The representation is shared by the families. A head has \<open>first\<close> and \<open>last\<close>, as in \<open>STAILQ_HEAD\<close> and
  \<open>TAILQ_HEAD\<close>; the \<open>LIST\<close> macros never touch \<open>last\<close>. An element has \<open>next\<close> and \<open>prev\<close>, as in \<open>LIST_ENTRY\<close>
  and \<open>TAILQ_ENTRY\<close>; the \<open>STAILQ\<close> macros never touch \<open>prev\<close>. The tracing and trashing hooks are empty
  unless \<open>QUEUE_MACRO_DEBUG\<close> is defined.

  Reasoning is on three functions, the value of each link field, the back link of each element
  and the last link of each head; \<open>path\<close> says which elements a head leads to.
\<close>

section \<open>Heads, elements, fields\<close>

datatype field_addr = First_Field nat | Next_Field ptr

record qhead =
  qh_first :: ptr
  qh_last :: field_addr

record 'v qnode =
  qe_next :: ptr
  qe_prev :: field_addr
  qe_val :: 'v              \<comment> \<open>the rest of the structure the entry is embedded in\<close>

record 'v qmem =
  q_heads :: "nat \<Rightarrow> qhead"
  q_nodes :: "nat \<rightharpoonup> 'v qnode"

definition q_live :: "'v qmem \<Rightarrow> nat set" where
  "q_live q = dom (q_nodes q)"

definition q_vals :: "'v qmem \<Rightarrow> nat \<Rightarrow> 'v option" where
  "q_vals q a = map_option qe_val (q_nodes q a)"

fun valid :: "'v qmem \<Rightarrow> field_addr \<Rightarrow> bool" where
  "valid q (First_Field h) = True"
| "valid q (Next_Field NULL) = False"
| "valid q (Next_Field (Ptr a)) = (a \<in> q_live q)"

text \<open>The value of a link field.\<close>

fun link_val :: "'v qmem \<Rightarrow> field_addr \<Rightarrow> ptr" where
  "link_val q (First_Field h) = qh_first (q_heads q h)"
| "link_val q (Next_Field NULL) = NULL"
| "link_val q (Next_Field (Ptr a)) = (case q_nodes q a of None \<Rightarrow> NULL | Some n \<Rightarrow> qe_next n)"

fun put :: "'v qmem \<Rightarrow> field_addr \<Rightarrow> ptr \<Rightarrow> 'v qmem" where
  "put q (First_Field h) v = q\<lparr>q_heads := (q_heads q)(h := (q_heads q h)\<lparr>qh_first := v\<rparr>)\<rparr>"
| "put q (Next_Field NULL) v = q"
| "put q (Next_Field (Ptr a)) v = q\<lparr>q_nodes := (q_nodes q)(a := map_option (\<lambda>n. n\<lparr>qe_next := v\<rparr>) (q_nodes q a))\<rparr>"

definition bad :: "field_addr \<Rightarrow> fault" where
  "bad l = (if l = Next_Field NULL then Null_Deref else Dangling)"

text \<open>Reading and writing through a pointer to a link: \<open>*l\<close> and \<open>*l = v\<close>.\<close>

definition load_link :: "'v qmem \<Rightarrow> field_addr \<Rightarrow> fault + ptr" where
  "load_link q l = (if valid q l then Inr (link_val q l) else Inl (bad l))"

definition store_link :: "'v qmem \<Rightarrow> field_addr \<Rightarrow> ptr \<Rightarrow> fault + 'v qmem" where
  "store_link q l v = (if valid q l then Inr (put q l v) else Inl (bad l))"

text \<open>The back link of an element.\<close>

definition back_link :: "'v qmem \<Rightarrow> nat \<Rightarrow> field_addr" where
  "back_link q a = (case q_nodes q a of None \<Rightarrow> Next_Field NULL | Some n \<Rightarrow> qe_prev n)"

definition put_back :: "'v qmem \<Rightarrow> nat \<Rightarrow> field_addr \<Rightarrow> 'v qmem" where
  "put_back q a l = q\<lparr>q_nodes := (q_nodes q)(a := map_option (\<lambda>n. n\<lparr>qe_prev := l\<rparr>) (q_nodes q a))\<rparr>"

definition get_prev :: "'v qmem \<Rightarrow> ptr \<Rightarrow> fault + field_addr" where
  "get_prev q p = (case p of NULL \<Rightarrow> Inl Null_Deref | Ptr a \<Rightarrow> if a \<in> q_live q then Inr (back_link q a) else Inl Dangling)"

definition set_prev :: "'v qmem \<Rightarrow> ptr \<Rightarrow> field_addr \<Rightarrow> fault + 'v qmem" where
  "set_prev q p l = (case p of NULL \<Rightarrow> Inl Null_Deref | Ptr a \<Rightarrow> if a \<in> q_live q then Inr (put_back q a l) else Inl Dangling)"

text \<open>The last link of a head.\<close>

definition last_link :: "'v qmem \<Rightarrow> nat \<Rightarrow> field_addr" where
  "last_link q h = qh_last (q_heads q h)"

definition set_last :: "'v qmem \<Rightarrow> nat \<Rightarrow> field_addr \<Rightarrow> 'v qmem" where
  "set_last q h l = q\<lparr>q_heads := (q_heads q)(h := (q_heads q h)\<lparr>qh_last := l\<rparr>)\<rparr>"

text \<open>\<open>__containerof(l, type, field.next)\<close>: the element whose field it is.\<close>

definition container :: "field_addr \<Rightarrow> fault + ptr" where
  "container l = (case l of First_Field h \<Rightarrow> Inl Dangling | Next_Field p \<Rightarrow> Inr p)"

lemma q_live_simps [simp]:
  "q_live (put q l v) = q_live q" "q_live (put_back q a l) = q_live q" "q_live (set_last q h l) = q_live q"
  by (cases "(q, l)" rule: valid.cases; auto simp: q_live_def put_back_def set_last_def split: if_splits)+

lemma valid_simps [simp]:
  "valid (put q l v) l' = valid q l'" "valid (put_back q a l) l' = valid q l'" "valid (set_last q h l) l' = valid q l'"
  by (cases "(q, l')" rule: valid.cases; simp)+

lemma q_vals_simps [simp]:
  "q_vals (put q l v) = q_vals q" "q_vals (put_back q a l) = q_vals q" "q_vals (set_last q h l) = q_vals q"
  by (cases "(q, l)" rule: valid.cases; auto simp: fun_eq_iff q_vals_def put_back_def set_last_def option.map_comp comp_def)+

lemma link_val_put [simp]: "valid q l \<Longrightarrow> link_val (put q l v) = (link_val q)(l := v)"
proof (rule ext)
  fix l' assume "valid q l"
  then show "link_val (put q l v) l' = ((link_val q)(l := v)) l'"
    by (cases "(q, l)" rule: valid.cases; cases "(q, l')" rule: valid.cases) (auto simp: q_live_def split: option.splits)
qed

lemma link_val_others [simp]: "link_val (put_back q a l) = link_val q" "link_val (set_last q h l) = link_val q"
proof (rule_tac [!] ext)
  fix l'
  show "link_val (put_back q a l) l' = link_val q l'" "link_val (set_last q h l) l' = link_val q l'"
    by (cases "(q, l')" rule: valid.cases; auto simp: put_back_def set_last_def split: option.splits)+
qed

lemma back_link_simps [simp]:
  "a \<in> q_live q \<Longrightarrow> back_link (put_back q a l) = (back_link q)(a := l)" "back_link (put q l v) = back_link q"
  "back_link (set_last q h l) = back_link q"
  by (cases "(q, l)" rule: valid.cases; auto simp: fun_eq_iff back_link_def put_back_def set_last_def q_live_def split: option.splits)+

lemma last_link_simps [simp]:
  "last_link (set_last q h l) = (last_link q)(h := l)" "last_link (put q l v) = last_link q" "last_link (put_back q a l) = last_link q"
  by (cases "(q, l)" rule: valid.cases; auto simp: fun_eq_iff last_link_def put_back_def set_last_def)+

declare put.simps [simp del] link_val.simps [simp del]

text \<open>Accesses that do not fail.\<close>

lemma access_simps [simp]:
  "valid q l \<Longrightarrow> load_link q l = Inr (link_val q l)" "valid q l \<Longrightarrow> store_link q l v = Inr (put q l v)"
  "a \<in> q_live q \<Longrightarrow> get_prev q (Ptr a) = Inr (back_link q a)" "a \<in> q_live q \<Longrightarrow> set_prev q (Ptr a) l = Inr (put_back q a l)"
  "container (Next_Field p) = Inr p"
  by (simp_all add: load_link_def store_link_def get_prev_def set_prev_def container_def)

section \<open>Paths\<close>

text \<open>
  \<open>path d V P l as p\<close>: following the links \<open>V\<close> from field \<open>l\<close> one meets the elements \<open>as\<close> and then the pointer
  \<open>p\<close>; if \<open>d\<close>, each element's back link is the field that points to it.
\<close>

fun path :: "bool \<Rightarrow> (field_addr \<Rightarrow> ptr) \<Rightarrow> (nat \<Rightarrow> field_addr) \<Rightarrow> field_addr \<Rightarrow> nat list \<Rightarrow> ptr \<Rightarrow> bool" where
  "path d V P l [] p \<longleftrightarrow> V l = p"
| "path d V P l (a # as) p \<longleftrightarrow> V l = Ptr a \<and> (d \<longrightarrow> P a = l) \<and> path d V P (Next_Field (Ptr a)) as p"

definition end_field :: "field_addr \<Rightarrow> nat list \<Rightarrow> field_addr" where
  "end_field l as = (if as = [] then l else Next_Field (Ptr (last as)))"

lemma end_field_simps [simp]:
  "end_field l [] = l" "end_field l (a # as) = end_field (Next_Field (Ptr a)) as" "end_field l (as @ [b]) = Next_Field (Ptr b)"
  by (simp_all add: end_field_def)

lemma end_field_append [simp]: "end_field l (as @ bs) = end_field (end_field l as) bs"
  by (simp add: end_field_def)

lemma path_append [simp]:
  "path d V P l (as @ b # bs) p \<longleftrightarrow> path d V P l as (Ptr b) \<and> (d \<longrightarrow> P b = end_field l as) \<and> path d V P (Next_Field (Ptr b)) bs p"
  by (induction as arbitrary: l) auto

lemma path_end: "path d V P l as p \<Longrightarrow> V (end_field l as) = p"
  by (induction as arbitrary: l) auto

lemma path_link: "path d V P l as p \<Longrightarrow> V l = (case as of [] \<Rightarrow> p | a # _ \<Rightarrow> Ptr a)"
  by (cases as) auto

lemma path_forward: "path True V P l as p \<Longrightarrow> path False V P l as p"
  by (induction as arbitrary: l) auto

lemma path_cong:
  "path d V P l as p \<Longrightarrow> V' l = V l \<Longrightarrow>
     (\<And>a. a \<in> set as \<Longrightarrow> V' (Next_Field (Ptr a)) = V (Next_Field (Ptr a)) \<and> (d \<longrightarrow> P' a = P a)) \<Longrightarrow> path d V' P' l as p"
  by (induction as arbitrary: l) auto

lemma path_unique: "path d V P l as NULL \<Longrightarrow> path d' V P' l bs NULL \<Longrightarrow> as = bs"
proof (induction as arbitrary: l bs)
  case Nil
  then show ?case by (cases bs) auto
next
  case (Cons a as)
  then obtain bs' where "bs = a # bs'" by (cases bs) auto
  with Cons show ?case by auto
qed

lemma path_distinct: "path d V P l as NULL \<Longrightarrow> distinct as"
proof (induction as arbitrary: l)
  case (Cons a as)
  have "a \<notin> set as"
  proof
    assume "a \<in> set as"
    then obtain bs cs where s: "as = bs @ a # cs" by (meson split_list)
    with Cons.prems have "path d V P (Next_Field (Ptr a)) as NULL" "path d V P (Next_Field (Ptr a)) cs NULL" by auto
    from path_unique [OF this] s show False by simp
  qed
  with Cons show ?case by auto
qed simp

text \<open>
  Inserting, removing and joining, as changes of the links. The families differ in which pointers
  they follow to get there.
\<close>

definition start_of :: "nat list \<Rightarrow> ptr" where
  "start_of as = (case as of [] \<Rightarrow> NULL | a # _ \<Rightarrow> Ptr a)"

lemma start_of_simps [simp]: "start_of [] = NULL" "start_of (a # as) = Ptr a" "start_of as = NULL \<longleftrightarrow> as = []"
  by (simp_all add: start_of_def split: list.split)

definition back_of :: "nat list \<Rightarrow> field_addr \<Rightarrow> (nat \<Rightarrow> field_addr) \<Rightarrow> nat \<Rightarrow> field_addr" where
  "back_of ys l P = (case ys of [] \<Rightarrow> P | b # _ \<Rightarrow> P(b := l))"

lemma back_of_simps [simp]: "back_of [] l P = P" "back_of (b # ys) l P = P(b := l)"
  by (simp_all add: back_of_def)

lemma path_first: "path d V P l as NULL \<Longrightarrow> V l = start_of as"
  by (cases as) auto

lemma end_field_cases: "end_field (First_Field h) xs = First_Field h' \<longleftrightarrow> xs = [] \<and> h' = h"
  "end_field (First_Field h) xs = Next_Field (Ptr b) \<longleftrightarrow> (\<exists>xs'. xs = xs' @ [b])"
  "First_Field h' = end_field (First_Field h) xs \<longleftrightarrow> xs = [] \<and> h' = h"
  "Next_Field (Ptr b) = end_field (First_Field h) xs \<longleftrightarrow> (\<exists>xs'. xs = xs' @ [b])"
  by (cases xs rule: rev_cases; auto)+

lemma end_field_not: "(\<forall>b \<in> set (x # xs). l \<noteq> Next_Field (Ptr b)) \<Longrightarrow> end_field (Next_Field (Ptr x)) xs \<noteq> l"
  by (cases xs rule: rev_cases) auto

lemma path_insert:
  assumes "path d V P l (xs @ ys) NULL" "a \<notin> set (xs @ ys)" "\<forall>b \<in> set (xs @ a # ys). l \<noteq> Next_Field (Ptr b)"
    and V: "V' (end_field l xs) = Ptr a" "V' (Next_Field (Ptr a)) = start_of ys"
      "\<forall>f. f \<noteq> end_field l xs \<longrightarrow> f \<noteq> Next_Field (Ptr a) \<longrightarrow> V' f = V f"
    and P: "d \<longrightarrow> P' a = end_field l xs" "\<forall>b. d \<longrightarrow> b \<noteq> a \<longrightarrow> P' b = back_of ys (Next_Field (Ptr a)) P b"
  shows "path d V' P' l (xs @ a # ys) NULL"
  using assms(1-3) V P(1) path_distinct [OF assms(1)]
proof (induction xs arbitrary: l)
  case Nil
  show ?case
  proof (cases ys)
    case (Cons b ys')
    have ne: "c \<noteq> a" "Next_Field (Ptr c) \<noteq> l" if "c \<in> set ys" for c using Nil.prems(2,3) that by auto
    have tl: "path d V P (Next_Field (Ptr b)) ys' NULL" and "b \<notin> set ys'" using Nil.prems(1,8) Cons by auto
    have "path d V' P' (Next_Field (Ptr b)) ys' NULL"
    proof (rule path_cong [OF tl])
      show "V' (Next_Field (Ptr b)) = V (Next_Field (Ptr b))" using Nil.prems(6) ne [of b] Cons by simp
      show "V' (Next_Field (Ptr c)) = V (Next_Field (Ptr c)) \<and> (d \<longrightarrow> P' c = P c)" if "c \<in> set ys'" for c
        using Nil.prems(6) P(2) ne [of c] Cons that \<open>b \<notin> set ys'\<close> by (cases "c = b") simp_all
    qed
    with Nil Cons P(2) ne [of b] show ?thesis by simp
  qed (use Nil in auto)
next
  case (Cons x xs)
  have "path d V' P' (Next_Field (Ptr x)) (xs @ a # ys) NULL"
    by (rule Cons.IH) (use Cons.prems in auto)
  moreover have "end_field (Next_Field (Ptr x)) xs \<noteq> l" by (rule end_field_not) (use Cons.prems in auto)
  ultimately show ?case using Cons.prems P(2) by (cases ys) auto
qed

lemma path_remove:
  assumes "path d V P l (xs @ a # ys) NULL" "\<forall>b \<in> set (xs @ a # ys). l \<noteq> Next_Field (Ptr b)"
    and V: "V' (end_field l xs) = start_of ys" "\<forall>f. f \<noteq> end_field l xs \<longrightarrow> f \<noteq> Next_Field (Ptr a) \<longrightarrow> V' f = V f"
    and P: "\<forall>b. d \<longrightarrow> b \<noteq> a \<longrightarrow> P' b = back_of ys (end_field l xs) P b"
  shows "path d V' P' l (xs @ ys) NULL"
  using assms path_distinct [OF assms(1)]
proof (induction xs arbitrary: l)
  case Nil
  show ?case
  proof (cases ys)
    case (Cons b ys')
    have ne: "c \<noteq> a" "Next_Field (Ptr c) \<noteq> l" if "c \<in> set ys" for c using Nil.prems(2,6) that by auto
    have tl: "path d V P (Next_Field (Ptr b)) ys' NULL" and "b \<notin> set ys'" using Nil.prems(1,6) Cons by auto
    have "path d V' P' (Next_Field (Ptr b)) ys' NULL"
    proof (rule path_cong [OF tl])
      show "V' (Next_Field (Ptr b)) = V (Next_Field (Ptr b))" using Nil.prems(4) ne [of b] Cons by simp
      show "V' (Next_Field (Ptr c)) = V (Next_Field (Ptr c)) \<and> (d \<longrightarrow> P' c = P c)" if "c \<in> set ys'" for c
        using Nil.prems(4,5) ne [of c] Cons that \<open>b \<notin> set ys'\<close> by (cases "c = b") simp_all
    qed
    with Nil.prems(3,5) Cons ne [of b] show ?thesis by simp
  qed (use Nil in auto)
next
  case (Cons x xs)
  have "path d V' P' (Next_Field (Ptr x)) (xs @ ys) NULL"
    by (rule Cons.IH) (use Cons.prems in auto)
  moreover have "end_field (Next_Field (Ptr x)) xs \<noteq> l" by (rule end_field_not) (use Cons.prems in auto)
  ultimately show ?case using Cons.prems by (cases ys) auto
qed

lemma path_join:
  assumes "path d V P l as NULL" "path d V P l' bs NULL" "\<forall>b \<in> set (as @ bs). l \<noteq> Next_Field (Ptr b)" "set as \<inter> set bs = {}"
    and V: "V' (end_field l as) = start_of bs" "\<forall>f. f \<noteq> end_field l as \<longrightarrow> f \<noteq> l' \<longrightarrow> V' f = V f"
    and l': "\<forall>b \<in> set (as @ bs). l' \<noteq> Next_Field (Ptr b)" "l' \<noteq> l"
    and P: "\<forall>b. d \<longrightarrow> P' b = back_of bs (end_field l as) P b"
  shows "path d V' P' l (as @ bs) NULL"
  using assms(1,3-8) P path_distinct [OF assms(1)]
proof (induction as arbitrary: l)
  case Nil
  show ?case
  proof (cases bs)
    case (Cons b bs')
    have ne: "Next_Field (Ptr c) \<noteq> l'" "Next_Field (Ptr c) \<noteq> l" if "c \<in> set bs" for c using Nil.prems(2,6) that by auto
    have tl: "path d V P (Next_Field (Ptr b)) bs' NULL" and "b \<notin> set bs'" using assms(2) path_distinct [OF assms(2)] Cons by auto
    have "path d V' P' (Next_Field (Ptr b)) bs' NULL"
    proof (rule path_cong [OF tl])
      show "V' (Next_Field (Ptr b)) = V (Next_Field (Ptr b))" using Nil.prems(5) ne [of b] Cons by simp
      show "V' (Next_Field (Ptr c)) = V (Next_Field (Ptr c)) \<and> (d \<longrightarrow> P' c = P c)" if "c \<in> set bs'" for c
        using Nil.prems(5,8) ne [of c] Cons that \<open>b \<notin> set bs'\<close> by (cases "c = b") simp_all
    qed
    with Nil.prems(4,8) Cons show ?thesis by simp
  qed (use Nil in auto)
next
  case (Cons x as)
  have "path d V' P' (Next_Field (Ptr x)) (as @ bs) NULL"
    by (rule Cons.IH) (use Cons.prems in auto)
  moreover have "end_field (Next_Field (Ptr x)) as \<noteq> l" by (rule end_field_not) (use Cons.prems in auto)
  ultimately show ?case using Cons.prems by (cases bs) auto
qed

text \<open>The same elements reached from another head.\<close>

lemma path_rehead:
  assumes "path d V P l as NULL" "V' l' = start_of as" "\<forall>b \<in> set as. l' \<noteq> Next_Field (Ptr b)"
    "\<And>a. a \<in> set as \<Longrightarrow> V' (Next_Field (Ptr a)) = V (Next_Field (Ptr a)) \<and> (d \<longrightarrow> P' a = back_of as l' P a)"
  shows "path d V' P' l' as NULL"
proof (cases as)
  case (Cons a as')
  have "path d V' P' (Next_Field (Ptr a)) as' NULL"
    by (rule path_cong [of d V P]) (use assms Cons path_distinct [OF assms(1)] in auto)
  with assms Cons show ?thesis by simp
qed (use assms in simp)

section \<open>Queues\<close>

text \<open>The elements a head leads to; with back links; with the last link. All are allocated.\<close>

definition chain :: "bool \<Rightarrow> 'v qmem \<Rightarrow> nat \<Rightarrow> nat list \<Rightarrow> bool" where
  "chain d q h as \<longleftrightarrow> path d (link_val q) (back_link q) (First_Field h) as NULL \<and> set as \<subseteq> q_live q"

definition tail_chain :: "bool \<Rightarrow> 'v qmem \<Rightarrow> nat \<Rightarrow> nat list \<Rightarrow> bool" where
  "tail_chain d q h as \<longleftrightarrow> chain d q h as \<and> last_link q h = end_field (First_Field h) as"

lemma chain_distinct: "chain d q h as \<Longrightarrow> distinct as"
  by (auto simp: chain_def dest: path_distinct)

lemma chain_valid_end: "set as \<subseteq> q_live q \<Longrightarrow> valid q (end_field (First_Field h) as)"
  by (auto simp: end_field_def)

text \<open>Changes of the memory that insert, remove, join and move elements.\<close>

lemma chain_insert:
  assumes "chain d q h (xs @ ys)" "a \<in> q_live q" "a \<notin> set (xs @ ys)" "q_live q' = q_live q"
    and V: "\<And>f. link_val q' f = (if f = end_field (First_Field h) xs then Ptr a else if f = Next_Field (Ptr a) then start_of ys
      else link_val q f)"
    and P: "\<And>b. d \<Longrightarrow> back_link q' b = (if b = a then end_field (First_Field h) xs else back_of ys (Next_Field (Ptr a)) (back_link q) b)"
  shows "chain d q' h (xs @ a # ys)"
proof -
  have "end_field (First_Field h) xs \<noteq> Next_Field (Ptr a)" using assms(3) by (auto simp: end_field_cases)
  with assms have "path d (link_val q') (back_link q') (First_Field h) (xs @ a # ys) NULL"
    by (intro path_insert [of d "link_val q" "back_link q"]) (auto simp: chain_def)
  with assms show ?thesis by (simp add: chain_def)
qed

lemma chain_remove:
  assumes "chain d q h (xs @ a # ys)" "q_live q' = q_live q"
    and V: "\<And>f. f \<noteq> Next_Field (Ptr a) \<Longrightarrow> link_val q' f = (if f = end_field (First_Field h) xs then start_of ys else link_val q f)"
    and P: "\<And>b. d \<Longrightarrow> b \<noteq> a \<Longrightarrow> back_link q' b = back_of ys (end_field (First_Field h) xs) (back_link q) b"
  shows "chain d q' h (xs @ ys)"
proof -
  have "distinct (xs @ a # ys)" by (rule chain_distinct [OF assms(1)])
  then have "end_field (First_Field h) xs \<noteq> Next_Field (Ptr a)" by (auto simp: end_field_cases)
  with assms have "path d (link_val q') (back_link q') (First_Field h) (xs @ ys) NULL"
    by (intro path_remove [of d "link_val q" "back_link q" _ xs a ys]) (auto simp: chain_def)
  with assms show ?thesis by (simp add: chain_def)
qed

lemma chain_join:
  assumes "chain d q h as" "chain d q h' bs" "h' \<noteq> h" "set as \<inter> set bs = {}" "q_live q' = q_live q"
    and V: "\<And>f. f \<noteq> First_Field h' \<Longrightarrow> link_val q' f = (if f = end_field (First_Field h) as then start_of bs else link_val q f)"
    and P: "\<And>b. d \<Longrightarrow> back_link q' b = back_of bs (end_field (First_Field h) as) (back_link q) b"
  shows "chain d q' h (as @ bs)"
proof -
  have "end_field (First_Field h) as \<noteq> First_Field h'" using assms(3) by (auto simp: end_field_cases)
  with assms have "path d (link_val q') (back_link q') (First_Field h) (as @ bs) NULL"
    by (intro path_join [of d "link_val q" "back_link q" _ as "First_Field h'" bs]) (auto simp: chain_def)
  with assms show ?thesis by (simp add: chain_def)
qed

lemma chain_rehead:
  assumes "chain d q h as" "q_live q' = q_live q" "link_val q' (First_Field h') = start_of as"
    "\<And>a. a \<in> set as \<Longrightarrow> link_val q' (Next_Field (Ptr a)) = link_val q (Next_Field (Ptr a))"
    "\<And>a. d \<Longrightarrow> a \<in> set as \<Longrightarrow> back_link q' a = back_of as (First_Field h') (back_link q) a"
  shows "chain d q' h' as"
  using assms by (auto simp: chain_def intro!: path_rehead [of d "link_val q" "back_link q" "First_Field h"])

lemma chain_nil: "chain d q h [] \<longleftrightarrow> link_val q (First_Field h) = NULL"
  by (simp add: chain_def)

lemma chain_first: "chain d q h as \<Longrightarrow> link_val q (First_Field h) = start_of as"
  by (auto simp: chain_def dest: path_first)

lemma chain_next: "chain d q h (xs @ b # ys) \<Longrightarrow> link_val q (Next_Field (Ptr b)) = start_of ys"
  by (auto simp: chain_def dest: path_first)

lemma chain_back: "chain True q h (xs @ b # ys) \<Longrightarrow> back_link q b = end_field (First_Field h) xs"
  by (simp add: chain_def)

lemma chain_live: "chain d q h as \<Longrightarrow> a \<in> set as \<Longrightarrow> a \<in> q_live q"
  by (auto simp: chain_def)

text \<open>The back link of the first of \<open>ys\<close>, if there is one.\<close>

definition put_back_of :: "nat list \<Rightarrow> field_addr \<Rightarrow> 'v qmem \<Rightarrow> 'v qmem" where
  "put_back_of ys l q = (case ys of [] \<Rightarrow> q | b # _ \<Rightarrow> put_back q b l)"

lemma put_back_of_simps [simp]:
  "put_back_of [] l q = q" "put_back_of (b # ys) l q = put_back q b l"
  by (simp_all add: put_back_of_def)

text \<open>Which heads and elements an operation may have changed; values it never changes.\<close>

definition changed_only :: "nat set \<Rightarrow> nat set \<Rightarrow> 'v qmem \<Rightarrow> 'v qmem \<Rightarrow> bool" where
  "changed_only H A q q' \<longleftrightarrow> q_live q' = q_live q \<and> q_vals q' = q_vals q \<and>
     (\<forall>h. h \<notin> H \<longrightarrow> link_val q' (First_Field h) = link_val q (First_Field h) \<and> last_link q' h = last_link q h) \<and>
     (\<forall>a. a \<notin> A \<longrightarrow> link_val q' (Next_Field (Ptr a)) = link_val q (Next_Field (Ptr a)) \<and> back_link q' a = back_link q a)"

lemma chain_frame: "changed_only H A q q' \<Longrightarrow> h \<notin> H \<Longrightarrow> set as \<inter> A = {} \<Longrightarrow> chain d q h as \<Longrightarrow> chain d q' h as"
  by (auto simp: changed_only_def chain_def intro!: path_cong [of d "link_val q" "back_link q" _ as])

lemma tail_chain_frame:
  "changed_only H A q q' \<Longrightarrow> h \<notin> H \<Longrightarrow> set as \<inter> A = {} \<Longrightarrow> tail_chain d q h as \<Longrightarrow> tail_chain d q' h as"
  using chain_frame [of H A q q' h as d] by (auto simp: tail_chain_def changed_only_def)

section \<open>Loops\<close>

text \<open>
  The loops of all families: \<open>nxt\<close> finds the element after the one visited, reading the memory in
  the state of the loop; the safe variants read it before the body.
\<close>

partial_function (option) foreach ::
  "('s \<Rightarrow> ptr \<Rightarrow> fault + ptr) \<Rightarrow> ('s \<Rightarrow> ptr \<Rightarrow> fault + 's) \<Rightarrow> 's \<Rightarrow> ptr \<Rightarrow> (fault + 's) option" where
  "foreach nxt body s var =
     (if var = NULL then Some (Inr s)
      else case body s var of Inl e \<Rightarrow> Some (Inl e)
      | Inr s' \<Rightarrow> (case nxt s' var of Inl e \<Rightarrow> Some (Inl e) | Inr n \<Rightarrow> foreach nxt body s' n))"

partial_function (option) foreach_safe ::
  "('s \<Rightarrow> ptr \<Rightarrow> fault + ptr) \<Rightarrow> ('s \<Rightarrow> ptr \<Rightarrow> fault + 's) \<Rightarrow> 's \<Rightarrow> ptr \<Rightarrow> (fault + 's) option" where
  "foreach_safe nxt body s var =
     (if var = NULL then Some (Inr s)
      else case nxt s var of Inl e \<Rightarrow> Some (Inl e)
      | Inr tvar \<Rightarrow> (case body s var of Inl e \<Rightarrow> Some (Inl e) | Inr s' \<Rightarrow> foreach_safe nxt body s' tvar))"

fun visit :: "('s \<Rightarrow> ptr \<Rightarrow> fault + 's) \<Rightarrow> 's \<Rightarrow> nat list \<Rightarrow> fault + 's" where
  "visit body s [] = Inr s"
| "visit body s (a # as) = ebind (body s (Ptr a)) (\<lambda>s'. visit body s' as)"

text \<open>A body that keeps what \<open>nxt\<close> finds meets every element once, in order.\<close>

lemma queue_foreach_visits:
  assumes "\<And>s a bs xs. I s \<Longrightarrow> as = xs @ a # bs \<Longrightarrow> nxt s (Ptr a) = Inr (start_of bs)"
    "\<And>s s' a. I s \<Longrightarrow> a \<in> set as \<Longrightarrow> body s (Ptr a) = Inr s' \<Longrightarrow> I s'" "I s" "as = xs @ ys"
  shows "foreach nxt body s (start_of ys) = Some (visit body s ys)"
  using assms(3,4)
proof (induction ys arbitrary: s xs)
  case Nil
  then show ?case by (simp add: foreach.simps start_of_def)
next
  case (Cons a ys)
  show ?case
  proof (cases "body s (Ptr a)")
    case (Inl e)
    then show ?thesis by (simp add: foreach.simps [of _ _ s] start_of_def)
  next
    case (Inr s')
    have "I s'" using assms(2) [OF Cons.prems(1) _ Inr] Cons.prems(2) by simp
    with Cons.IH [OF this, of "xs @ [a]"] assms(1) [OF this Cons.prems(2)] Cons.prems(2) Inr show ?thesis
      by (simp add: foreach.simps [of _ _ s] start_of_def [of "a # ys"])
  qed
qed

text \<open>
  In the safe loops the body may do anything to the element it visits, unlink and release it
  included, as long as the elements still to come are found.
\<close>

lemma queue_foreach_safe_visits:
  assumes "\<And>s a bs xs. as = xs @ a # bs \<Longrightarrow> I s (a # bs) \<Longrightarrow> nxt s (Ptr a) = Inr (start_of bs)"
    "\<And>s s' a bs xs. as = xs @ a # bs \<Longrightarrow> I s (a # bs) \<Longrightarrow> body s (Ptr a) = Inr s' \<Longrightarrow> I s' bs" "I s ys" "as = xs @ ys"
  shows "foreach_safe nxt body s (start_of ys) = Some (visit body s ys)"
  using assms(3,4)
proof (induction ys arbitrary: s xs)
  case Nil
  then show ?case by (simp add: foreach_safe.simps start_of_def)
next
  case (Cons a ys)
  note n = assms(1) [OF Cons.prems(2,1)]
  show ?case
  proof (cases "body s (Ptr a)")
    case (Inl e)
    with n show ?thesis by (simp add: foreach_safe.simps [of _ _ s] start_of_def [of "a # ys"])
  next
    case (Inr s')
    from Cons.IH [OF assms(2) [OF Cons.prems(2,1) Inr], of "xs @ [a]"] Cons.prems(2) n Inr show ?thesis
      by (simp add: foreach_safe.simps [of _ _ s] start_of_def [of "a # ys"])
  qed
qed

end
