(* ===== verification/Stailq.thy ===== *)
theory Stailq
  imports Queue_Mem
begin

text \<open>
  The singly linked tail queues (\<open>STAILQ\<close>) of \<open>server/queue.h\<close>. Each macro is a function on the memory
  of \<open>Queue_Mem\<close>; a head is given by its number, an element by a pointer. Shown: on memory that
  holds the queue \<open>as\<close> at head \<open>h\<close> each macro does to \<open>as\<close> what its name says, touches no other
  head or element, and never faults.
\<close>

section \<open>The macros\<close>

definition STAILQ_FIRST :: "'v qmem \<Rightarrow> nat \<Rightarrow> ptr" where
  "STAILQ_FIRST q head = link_val q (First_Field head)"

definition STAILQ_EMPTY :: "'v qmem \<Rightarrow> nat \<Rightarrow> bool" where
  "STAILQ_EMPTY q head \<longleftrightarrow> link_val q (First_Field head) = NULL"

definition STAILQ_NEXT :: "'v qmem \<Rightarrow> ptr \<Rightarrow> fault + ptr" where
  "STAILQ_NEXT q elm = load_link q (Next_Field elm)"

definition STAILQ_INIT :: "'v qmem \<Rightarrow> nat \<Rightarrow> 'v qmem" where
  "STAILQ_INIT q head = set_last (put q (First_Field head) NULL) head (First_Field head)"

definition STAILQ_CONCAT :: "'v qmem \<Rightarrow> nat \<Rightarrow> nat \<Rightarrow> fault + 'v qmem" where
  "STAILQ_CONCAT q head1 head2 =
     (if \<not> STAILQ_EMPTY q head2 then
        ebind (store_link q (last_link q head1) (STAILQ_FIRST q head2)) (\<lambda>q1.
          Inr (STAILQ_INIT (set_last q1 head1 (last_link q1 head2)) head2))
      else Inr q)"

definition STAILQ_INSERT_AFTER :: "'v qmem \<Rightarrow> nat \<Rightarrow> ptr \<Rightarrow> ptr \<Rightarrow> fault + 'v qmem" where
  "STAILQ_INSERT_AFTER q head tqelm elm =
     ebind (STAILQ_NEXT q tqelm) (\<lambda>n.
     ebind (store_link q (Next_Field elm) n) (\<lambda>q1.
       store_link (if n = NULL then set_last q1 head (Next_Field elm) else q1) (Next_Field tqelm) elm))"

definition STAILQ_INSERT_HEAD :: "'v qmem \<Rightarrow> nat \<Rightarrow> ptr \<Rightarrow> fault + 'v qmem" where
  "STAILQ_INSERT_HEAD q head elm =
     (let n = STAILQ_FIRST q head in
      ebind (store_link q (Next_Field elm) n) (\<lambda>q1.
        Inr (put (if n = NULL then set_last q1 head (Next_Field elm) else q1) (First_Field head) elm)))"

definition STAILQ_INSERT_TAIL :: "'v qmem \<Rightarrow> nat \<Rightarrow> ptr \<Rightarrow> fault + 'v qmem" where
  "STAILQ_INSERT_TAIL q head elm =
     ebind (store_link q (Next_Field elm) NULL) (\<lambda>q1.
     ebind (store_link q1 (last_link q1 head) elm) (\<lambda>q2.
       Inr (set_last q2 head (Next_Field elm))))"

definition STAILQ_LAST :: "'v qmem \<Rightarrow> nat \<Rightarrow> fault + ptr" where
  "STAILQ_LAST q head = (if STAILQ_EMPTY q head then Inr NULL else container (last_link q head))"

definition STAILQ_REMOVE_HEAD :: "'v qmem \<Rightarrow> nat \<Rightarrow> fault + 'v qmem" where
  "STAILQ_REMOVE_HEAD q head =
     ebind (STAILQ_NEXT q (STAILQ_FIRST q head)) (\<lambda>n.
       let q1 = put q (First_Field head) n
       in Inr (if n = NULL then set_last q1 head (First_Field head) else q1))"

definition STAILQ_REMOVE_AFTER :: "'v qmem \<Rightarrow> nat \<Rightarrow> ptr \<Rightarrow> fault + 'v qmem" where
  "STAILQ_REMOVE_AFTER q head elm =
     ebind (STAILQ_NEXT q elm) (\<lambda>p.
     ebind (STAILQ_NEXT q p) (\<lambda>n.
     ebind (store_link q (Next_Field elm) n) (\<lambda>q1.
       Inr (if n = NULL then set_last q1 head (Next_Field elm) else q1))))"

text \<open>The loop of \<open>STAILQ_REMOVE\<close> that looks for the predecessor.\<close>

partial_function (option) stailq_find_prev :: "'v qmem \<Rightarrow> ptr \<Rightarrow> ptr \<Rightarrow> (fault + ptr) option" where
  "stailq_find_prev q curelm elm =
     (case STAILQ_NEXT q curelm of Inl e \<Rightarrow> Some (Inl e)
      | Inr n \<Rightarrow> if n \<noteq> elm then stailq_find_prev q n elm else Some (Inr curelm))"

definition STAILQ_REMOVE :: "'v qmem \<Rightarrow> nat \<Rightarrow> ptr \<Rightarrow> (fault + 'v qmem) option" where
  "STAILQ_REMOVE q head elm =
     (if STAILQ_FIRST q head = elm then Some (STAILQ_REMOVE_HEAD q head)
      else map_option (\<lambda>r. ebind r (\<lambda>curelm. STAILQ_REMOVE_AFTER q head curelm))
             (stailq_find_prev q (STAILQ_FIRST q head) elm))"

definition STAILQ_SWAP :: "'v qmem \<Rightarrow> nat \<Rightarrow> nat \<Rightarrow> 'v qmem" where
  "STAILQ_SWAP q head1 head2 =
     (let swap_first = STAILQ_FIRST q head1;
          swap_last = last_link q head1;
          q1 = put q (First_Field head1) (STAILQ_FIRST q head2);
          q2 = set_last q1 head1 (last_link q1 head2);
          q3 = put q2 (First_Field head2) swap_first;
          q4 = set_last q3 head2 swap_last;
          q5 = (if STAILQ_EMPTY q4 head1 then set_last q4 head1 (First_Field head1) else q4)
      in if STAILQ_EMPTY q5 head2 then set_last q5 head2 (First_Field head2) else q5)"

text \<open>The loops; \<open>mem\<close> is the memory in the state of the loop.\<close>

definition STAILQ_FOREACH where
  "STAILQ_FOREACH mem body s head = foreach (\<lambda>s. STAILQ_NEXT (mem s)) body s (STAILQ_FIRST (mem s) head)"

definition STAILQ_FOREACH_FROM where
  "STAILQ_FOREACH_FROM mem body s head var =
     foreach (\<lambda>s. STAILQ_NEXT (mem s)) body s (if var \<noteq> NULL then var else STAILQ_FIRST (mem s) head)"

definition STAILQ_FOREACH_SAFE where
  "STAILQ_FOREACH_SAFE mem body s head = foreach_safe (\<lambda>s. STAILQ_NEXT (mem s)) body s (STAILQ_FIRST (mem s) head)"

definition STAILQ_FOREACH_FROM_SAFE where
  "STAILQ_FOREACH_FROM_SAFE mem body s head var =
     foreach_safe (\<lambda>s. STAILQ_NEXT (mem s)) body s (if var \<noteq> NULL then var else STAILQ_FIRST (mem s) head)"

section \<open>What they do to the queue\<close>

abbreviation stailq :: "'v qmem \<Rightarrow> nat \<Rightarrow> nat list \<Rightarrow> bool" where
  "stailq \<equiv> tail_chain False"

lemma stailq_first: "stailq q h as \<Longrightarrow> STAILQ_FIRST q h = start_of as"
  by (auto simp: STAILQ_FIRST_def tail_chain_def chain_def dest: path_first)

lemma stailq_init: "stailq (STAILQ_INIT q h) h [] \<and> changed_only {h} {} q (STAILQ_INIT q h)"
  by (simp add: STAILQ_INIT_def tail_chain_def chain_def changed_only_def)

lemma stailq_D:
  assumes "stailq q h (xs @ ys)"
  shows "chain False q h (xs @ ys)" "valid q (end_field (First_Field h) xs)" "last_link q h = end_field (end_field (First_Field h) xs) ys"
  using assms by (auto simp: tail_chain_def chain_def intro: chain_valid_end)

lemma stailq_insert_tail:
  assumes "stailq q h as" "a \<in> q_live q" "a \<notin> set as"
  shows "\<exists>q'. STAILQ_INSERT_TAIL q h (Ptr a) = Inr q' \<and> stailq q' h (as @ [a]) \<and> changed_only {h} (set (a # as)) q q'"
proof -
  note D = stailq_D [of q h as "[]", simplified, OF assms(1)]
  let ?q = "set_last (put (put q (Next_Field (Ptr a)) NULL) (end_field (First_Field h) as) (Ptr a)) h (Next_Field (Ptr a))"
  have e: "end_field (First_Field h) as \<noteq> Next_Field (Ptr a)" using assms(3) by (auto simp: end_field_cases)
  have "STAILQ_INSERT_TAIL q h (Ptr a) = Inr ?q" using D assms(2) by (simp add: STAILQ_INSERT_TAIL_def)
  moreover have "chain False ?q h (as @ [a])" using D assms e by (intro chain_insert [of False q h as "[]"]) auto
  then have "stailq ?q h (as @ [a])" by (simp add: tail_chain_def)
  moreover have "changed_only {h} (set (a # as)) q ?q" using D assms(2) by (auto simp: changed_only_def end_field_cases)
  ultimately show ?thesis by blast
qed


lemma stailq_insert_head:
  assumes "stailq q h as" "a \<in> q_live q" "a \<notin> set as"
  shows "\<exists>q'. STAILQ_INSERT_HEAD q h (Ptr a) = Inr q' \<and> stailq q' h (a # as) \<and> changed_only {h} (set (a # as)) q q'"
proof -
  note D = stailq_D [of q h "[]" as, unfolded append_Nil end_field_simps, OF assms(1)] and f = chain_first [OF D(1)]
  let ?q1 = "put q (Next_Field (Ptr a)) (start_of as)"
  let ?q = "put (if as = [] then set_last ?q1 h (Next_Field (Ptr a)) else ?q1) (First_Field h) (Ptr a)"
  have "STAILQ_INSERT_HEAD q h (Ptr a) = Inr ?q" using f assms(2) by (simp add: STAILQ_INSERT_HEAD_def STAILQ_FIRST_def)
  moreover have "chain False ?q h ([] @ a # as)" using D assms by (intro chain_insert [of False q]) auto
  then have "stailq ?q h (a # as)" using D assms(2) by (cases as) (simp_all add: tail_chain_def)
  moreover have "changed_only {h} (set (a # as)) q ?q" using assms(2) by (auto simp: changed_only_def)
  ultimately show ?thesis by blast
qed

lemma stailq_insert_after:
  assumes "stailq q h (xs @ b # ys)" "a \<in> q_live q" "a \<notin> set (xs @ b # ys)"
  shows "\<exists>q'. STAILQ_INSERT_AFTER q h (Ptr b) (Ptr a) = Inr q' \<and> stailq q' h (xs @ b # a # ys) \<and>
    changed_only {h} (set (a # xs @ b # ys)) q q'"
proof -
  note D = stailq_D [of q h "xs @ [b]" ys, simplified, OF assms(1)] and n = chain_next [of False q h xs b ys]
  let ?q1 = "put q (Next_Field (Ptr a)) (start_of ys)"
  let ?q = "put (if ys = [] then set_last ?q1 h (Next_Field (Ptr a)) else ?q1) (Next_Field (Ptr b)) (Ptr a)"
  have "STAILQ_INSERT_AFTER q h (Ptr b) (Ptr a) = Inr ?q"
    using n D assms(2) by (simp add: STAILQ_INSERT_AFTER_def STAILQ_NEXT_def)
  moreover have "chain False ?q h ((xs @ [b]) @ a # ys)" using D assms by (intro chain_insert [of False q]) auto
  then have "stailq ?q h (xs @ b # a # ys)" using D assms(2) by (cases ys) (simp_all add: tail_chain_def)
  moreover have "changed_only {h} (set (a # xs @ b # ys)) q ?q" using D assms(2) by (auto simp: changed_only_def)
  ultimately show ?thesis by blast
qed

lemma stailq_remove_head:
  assumes "stailq q h (a # as)"
  shows "\<exists>q'. STAILQ_REMOVE_HEAD q h = Inr q' \<and> stailq q' h as \<and> changed_only {h} (set (a # as)) q q'"
proof -
  note D = stailq_D [of q h "[]" "a # as", unfolded append_Nil end_field_simps, OF assms] and n = chain_next [of False q h "[]" a as]
  have l: "a \<in> q_live q" using chain_live [OF D(1)] by simp
  let ?q1 = "put q (First_Field h) (start_of as)"
  let ?q = "if as = [] then set_last ?q1 h (First_Field h) else ?q1"
  have "STAILQ_REMOVE_HEAD q h = Inr ?q"
    using n D l chain_first [OF D(1)] by (simp add: STAILQ_REMOVE_HEAD_def STAILQ_NEXT_def STAILQ_FIRST_def)
  moreover have "chain False ?q h ([] @ as)" using D by (intro chain_remove [of False q h "[]" a as]) auto
  then have "stailq ?q h as" using D by (cases as) (simp_all add: tail_chain_def)
  moreover have "changed_only {h} (set (a # as)) q ?q" by (auto simp: changed_only_def)
  ultimately show ?thesis by blast
qed

lemma stailq_remove_after:
  assumes "stailq q h (xs @ b # a # ys)"
  shows "\<exists>q'. STAILQ_REMOVE_AFTER q h (Ptr b) = Inr q' \<and> stailq q' h (xs @ b # ys) \<and>
    changed_only {h} (set (xs @ b # a # ys)) q q'"
proof -
  note D = stailq_D [of q h "xs @ [b]" "a # ys", simplified, OF assms] and
    n = chain_next [of False q h xs b "a # ys"] chain_next [of False q h "xs @ [b]" a ys]
  have l: "a \<in> q_live q" using chain_live [OF D(1)] by simp
  let ?q1 = "put q (Next_Field (Ptr b)) (start_of ys)"
  let ?q = "if ys = [] then set_last ?q1 h (Next_Field (Ptr b)) else ?q1"
  have "STAILQ_REMOVE_AFTER q h (Ptr b) = Inr ?q"
    using n D l by (simp add: STAILQ_REMOVE_AFTER_def STAILQ_NEXT_def)
  moreover have "chain False ?q h ((xs @ [b]) @ ys)" using D by (intro chain_remove [of False q h "xs @ [b]" a ys]) auto
  then have "stailq ?q h (xs @ b # ys)" using D by (cases ys) (simp_all add: tail_chain_def)
  moreover have "changed_only {h} (set (xs @ b # a # ys)) q ?q" using D by (auto simp: changed_only_def)
  ultimately show ?thesis by blast
qed

lemma stailq_find_prev_finds:
  "chain False q h (xs @ ys @ b # a # zs) \<Longrightarrow> stailq_find_prev q (start_of (ys @ [b])) (Ptr a) = Some (Inr (Ptr b))"
proof (induction ys arbitrary: xs)
  case Nil
  then show ?case
    using chain_next [of False q h xs b "a # zs"] chain_live [OF Nil, of b]
    by (simp add: stailq_find_prev.simps STAILQ_NEXT_def)
next
  case (Cons c ys)
  have d: "distinct (xs @ (c # ys) @ b # a # zs)" by (rule chain_distinct [OF Cons.prems])
  have "STAILQ_NEXT q (Ptr c) = Inr (start_of (ys @ [b]))"
    using chain_next [of False q h xs c "ys @ b # a # zs"] Cons.prems chain_live [OF Cons.prems, of c]
    by (cases ys) (simp_all add: STAILQ_NEXT_def)
  moreover have "start_of (ys @ [b]) \<noteq> Ptr a" using d by (cases ys) auto
  ultimately show ?case
    using Cons.IH [of "xs @ [c]"] Cons.prems by (simp add: stailq_find_prev.simps [of q "Ptr c"])
qed

lemma stailq_remove:
  assumes "stailq q h (xs @ a # ys)"
  shows "\<exists>q'. STAILQ_REMOVE q h (Ptr a) = Some (Inr q') \<and> stailq q' h (xs @ ys) \<and> changed_only {h} (set (xs @ a # ys)) q q'"
proof (cases xs rule: rev_cases)
  case Nil
  with stailq_remove_head [of q h a ys] stailq_first [of q h "a # ys"] assms show ?thesis by (auto simp: STAILQ_REMOVE_def)
next
  case (snoc xs' b)
  then have c: "stailq q h (xs' @ b # a # ys)" "chain False q h ([] @ xs' @ b # a # ys)"
    using assms by (simp_all add: tail_chain_def)
  from chain_distinct [OF c(2)] have "STAILQ_FIRST q h \<noteq> Ptr a" "STAILQ_FIRST q h = start_of (xs' @ [b])"
    unfolding stailq_first [OF c(1)] by (cases xs'; auto)+
  then have "STAILQ_REMOVE q h (Ptr a) = Some (STAILQ_REMOVE_AFTER q h (Ptr b))"
    using stailq_find_prev_finds [OF c(2)] by (simp add: STAILQ_REMOVE_def)
  with stailq_remove_after [OF c(1)] snoc show ?thesis by auto
qed

lemma stailq_concat:
  assumes "stailq q h1 as" "stailq q h2 bs" "h1 \<noteq> h2" "set as \<inter> set bs = {}"
  shows "\<exists>q'. STAILQ_CONCAT q h1 h2 = Inr q' \<and> stailq q' h1 (as @ bs) \<and> stailq q' h2 [] \<and> changed_only {h1, h2} (set as) q q'"
proof (cases "bs = []")
  case True
  with assms stailq_first [OF assms(2)] show ?thesis
    by (auto simp: STAILQ_CONCAT_def STAILQ_EMPTY_def STAILQ_FIRST_def changed_only_def)
next
  case False
  note D = stailq_D [of q h1 as "[]", simplified, OF assms(1)] and D2 = stailq_D [of q h2 bs "[]", simplified, OF assms(2)]
  let ?e = "end_field (First_Field h1) as"
  let ?q = "STAILQ_INIT (set_last (put q ?e (start_of bs)) h1 (last_link q h2)) h2"
  have "STAILQ_CONCAT q h1 h2 = Inr ?q"
    using False D stailq_first [OF assms(2)] by (simp add: STAILQ_CONCAT_def STAILQ_EMPTY_def STAILQ_FIRST_def)
  moreover have ne: "?e \<noteq> First_Field h2" using assms(3) by (auto simp: end_field_cases)
  have "chain False ?q h1 (as @ bs)"
    using D D2 assms(3,4) ne by (intro chain_join [of False q h1 as h2 bs]) (auto simp: STAILQ_INIT_def)
  moreover have "last_link ?q h1 = end_field (First_Field h1) (as @ bs)"
    using False D2(3) assms(3) by (cases bs) (simp_all add: STAILQ_INIT_def)
  moreover have "changed_only {h1, h2} (set as) q ?q"
    using D by (auto simp: changed_only_def STAILQ_INIT_def end_field_cases)
  ultimately show ?thesis using stailq_init by (auto simp: tail_chain_def)
qed

lemma stailq_swap:
  assumes "stailq q h1 as" "stailq q h2 bs" "h1 \<noteq> h2"
  shows "stailq (STAILQ_SWAP q h1 h2) h1 bs" "stailq (STAILQ_SWAP q h1 h2) h2 as" "changed_only {h1, h2} {} q (STAILQ_SWAP q h1 h2)"
proof -
  note D = stailq_D [of q h1 as "[]", simplified, OF assms(1)] and D2 = stailq_D [of q h2 bs "[]", simplified, OF assms(2)]
  note f = chain_first [OF D(1)] chain_first [OF D2(1)]
  let ?q = "STAILQ_SWAP q h1 h2"
  note defs = STAILQ_SWAP_def Let_def STAILQ_EMPTY_def STAILQ_FIRST_def f D(3) D2(3)
  have "chain False ?q h1 bs" using assms(3) by (intro chain_rehead [OF D2(1)]) (simp_all add: defs)
  then show "stailq ?q h1 bs" using assms(3) by (cases bs) (simp_all add: tail_chain_def defs)
  have "chain False ?q h2 as" using assms(3) by (intro chain_rehead [OF D(1)]) (simp_all add: defs)
  then show "stailq ?q h2 as" using assms(3) by (cases as) (simp_all add: tail_chain_def defs)
  show "changed_only {h1, h2} {} q ?q" using assms(3) by (simp add: changed_only_def defs)
qed

lemma stailq_last: "stailq q h as \<Longrightarrow> STAILQ_LAST q h = Inr (if as = [] then NULL else Ptr (last as))"
  using stailq_first [of q h as] by (auto simp: STAILQ_LAST_def STAILQ_EMPTY_def STAILQ_FIRST_def tail_chain_def end_field_def)

end
