(* ===== verification/Tailq.thy ===== *)
theory Tailq
  imports Queue_Mem
begin

text \<open>
  The doubly linked tail queues (\<open>TAILQ\<close>) of \<open>server/queue.h\<close>. \<open>TAILQ_LAST\<close> and \<open>TAILQ_PREV\<close> take the address
  of a link for the address of a head: \<open>struct { first; last }\<close> and \<open>struct { next; prev }\<close> have the same
  layout, so that the second field of whatever the link is part of is read (\<open>second_field\<close>). The
  checks made in a kernel with \<open>INVARIANTS\<close> are definitions of their own; in this program they are
  compiled to nothing.
\<close>

section \<open>The macros\<close>

definition TAILQ_FIRST :: "'v qmem \<Rightarrow> nat \<Rightarrow> ptr" where
  "TAILQ_FIRST q head = link_val q (First_Field head)"

definition TAILQ_EMPTY :: "'v qmem \<Rightarrow> nat \<Rightarrow> bool" where
  "TAILQ_EMPTY q head \<longleftrightarrow> link_val q (First_Field head) = NULL"

definition TAILQ_NEXT :: "'v qmem \<Rightarrow> ptr \<Rightarrow> fault + ptr" where
  "TAILQ_NEXT q elm = load_link q (Next_Field elm)"

definition TAILQ_INIT :: "'v qmem \<Rightarrow> nat \<Rightarrow> 'v qmem" where
  "TAILQ_INIT q head = set_last (put q (First_Field head) NULL) head (First_Field head)"

definition TAILQ_CONCAT :: "'v qmem \<Rightarrow> nat \<Rightarrow> nat \<Rightarrow> fault + 'v qmem" where
  "TAILQ_CONCAT q head1 head2 =
     (if \<not> TAILQ_EMPTY q head2 then
        ebind (store_link q (last_link q head1) (TAILQ_FIRST q head2)) (\<lambda>q1.
        ebind (set_prev q1 (TAILQ_FIRST q1 head2) (last_link q1 head1)) (\<lambda>q2.
          Inr (TAILQ_INIT (set_last q2 head1 (last_link q2 head2)) head2)))
      else Inr q)"

definition TAILQ_INSERT_AFTER :: "'v qmem \<Rightarrow> nat \<Rightarrow> ptr \<Rightarrow> ptr \<Rightarrow> fault + 'v qmem" where
  "TAILQ_INSERT_AFTER q head listelm elm =
     ebind (TAILQ_NEXT q listelm) (\<lambda>n.
     ebind (store_link q (Next_Field elm) n) (\<lambda>q1.
     ebind (if n \<noteq> NULL then ebind (TAILQ_NEXT q1 elm) (\<lambda>n'. set_prev q1 n' (Next_Field elm))
            else Inr (set_last q1 head (Next_Field elm))) (\<lambda>q2.
     ebind (store_link q2 (Next_Field listelm) elm) (\<lambda>q3.
       set_prev q3 elm (Next_Field listelm)))))"

definition TAILQ_INSERT_BEFORE :: "'v qmem \<Rightarrow> ptr \<Rightarrow> ptr \<Rightarrow> fault + 'v qmem" where
  "TAILQ_INSERT_BEFORE q listelm elm =
     ebind (get_prev q listelm) (\<lambda>l.
     ebind (set_prev q elm l) (\<lambda>q1.
     ebind (store_link q1 (Next_Field elm) listelm) (\<lambda>q2.
     ebind (get_prev q2 listelm) (\<lambda>l'.
     ebind (store_link q2 l' elm) (\<lambda>q3.
       set_prev q3 listelm (Next_Field elm))))))"

definition TAILQ_INSERT_HEAD :: "'v qmem \<Rightarrow> nat \<Rightarrow> ptr \<Rightarrow> fault + 'v qmem" where
  "TAILQ_INSERT_HEAD q head elm =
     (let n = TAILQ_FIRST q head in
      ebind (store_link q (Next_Field elm) n) (\<lambda>q1.
      ebind (if n \<noteq> NULL then set_prev q1 (TAILQ_FIRST q1 head) (Next_Field elm)
             else Inr (set_last q1 head (Next_Field elm))) (\<lambda>q2.
        set_prev (put q2 (First_Field head) elm) elm (First_Field head))))"

definition TAILQ_INSERT_TAIL :: "'v qmem \<Rightarrow> nat \<Rightarrow> ptr \<Rightarrow> fault + 'v qmem" where
  "TAILQ_INSERT_TAIL q head elm =
     ebind (store_link q (Next_Field elm) NULL) (\<lambda>q1.
     ebind (set_prev q1 elm (last_link q1 head)) (\<lambda>q2.
     ebind (store_link q2 (last_link q2 head) elm) (\<lambda>q3.
       Inr (set_last q3 head (Next_Field elm)))))"

definition second_field :: "'v qmem \<Rightarrow> field_addr \<Rightarrow> fault + field_addr" where
  "second_field q l = (case l of First_Field h \<Rightarrow> Inr (last_link q h) | Next_Field p \<Rightarrow> get_prev q p)"

definition TAILQ_LAST :: "'v qmem \<Rightarrow> nat \<Rightarrow> fault + ptr" where
  "TAILQ_LAST q head = ebind (second_field q (last_link q head)) (load_link q)"

definition TAILQ_LAST_FAST :: "'v qmem \<Rightarrow> nat \<Rightarrow> fault + ptr" where
  "TAILQ_LAST_FAST q head = (if TAILQ_EMPTY q head then Inr NULL else container (last_link q head))"

definition TAILQ_PREV :: "'v qmem \<Rightarrow> ptr \<Rightarrow> fault + ptr" where
  "TAILQ_PREV q elm = ebind (get_prev q elm) (\<lambda>l. ebind (second_field q l) (load_link q))"

definition TAILQ_PREV_FAST :: "'v qmem \<Rightarrow> ptr \<Rightarrow> nat \<Rightarrow> fault + ptr" where
  "TAILQ_PREV_FAST q elm head = ebind (get_prev q elm) (\<lambda>l. if l = First_Field head then Inr NULL else container l)"

definition TAILQ_REMOVE :: "'v qmem \<Rightarrow> nat \<Rightarrow> ptr \<Rightarrow> fault + 'v qmem" where
  "TAILQ_REMOVE q head elm =
     ebind (TAILQ_NEXT q elm) (\<lambda>n.
     ebind (get_prev q elm) (\<lambda>l.
     ebind (if n \<noteq> NULL then set_prev q n l else Inr (set_last q head l)) (\<lambda>q1.
     ebind (get_prev q1 elm) (\<lambda>l'.
     ebind (TAILQ_NEXT q1 elm) (\<lambda>n'.
       store_link q1 l' n')))))"

definition TAILQ_SWAP :: "'v qmem \<Rightarrow> nat \<Rightarrow> nat \<Rightarrow> fault + 'v qmem" where
  "TAILQ_SWAP q head1 head2 =
     (let swap_first = TAILQ_FIRST q head1;
          swap_last = last_link q head1;
          q1 = put q (First_Field head1) (TAILQ_FIRST q head2);
          q2 = set_last q1 head1 (last_link q1 head2);
          q3 = put q2 (First_Field head2) swap_first;
          q4 = set_last q3 head2 swap_last
      in ebind (let f = TAILQ_FIRST q4 head1
                in if f \<noteq> NULL then set_prev q4 f (First_Field head1) else Inr (set_last q4 head1 (First_Field head1))) (\<lambda>q5.
         let f = TAILQ_FIRST q5 head2
         in if f \<noteq> NULL then set_prev q5 f (First_Field head2) else Inr (set_last q5 head2 (First_Field head2))))"

text \<open>The loops, forward and in reverse; \<open>mem\<close> is the memory in the state of the loop.\<close>

definition TAILQ_FOREACH where
  "TAILQ_FOREACH mem body s head = foreach (\<lambda>s. TAILQ_NEXT (mem s)) body s (TAILQ_FIRST (mem s) head)"

definition TAILQ_FOREACH_FROM where
  "TAILQ_FOREACH_FROM mem body s head var =
     foreach (\<lambda>s. TAILQ_NEXT (mem s)) body s (if var \<noteq> NULL then var else TAILQ_FIRST (mem s) head)"

definition TAILQ_FOREACH_SAFE where
  "TAILQ_FOREACH_SAFE mem body s head = foreach_safe (\<lambda>s. TAILQ_NEXT (mem s)) body s (TAILQ_FIRST (mem s) head)"

definition TAILQ_FOREACH_FROM_SAFE where
  "TAILQ_FOREACH_FROM_SAFE mem body s head var =
     foreach_safe (\<lambda>s. TAILQ_NEXT (mem s)) body s (if var \<noteq> NULL then var else TAILQ_FIRST (mem s) head)"

text \<open>\<open>v\<close> as the start of a loop; finding it may fault.\<close>

definition start_at :: "(ptr \<Rightarrow> (fault + 's) option) \<Rightarrow> fault + ptr \<Rightarrow> (fault + 's) option" where
  "start_at loop v = (case v of Inl e \<Rightarrow> Some (Inl e) | Inr p \<Rightarrow> loop p)"

definition TAILQ_FOREACH_REVERSE where
  "TAILQ_FOREACH_REVERSE mem body s head = start_at (foreach (\<lambda>s. TAILQ_PREV (mem s)) body s) (TAILQ_LAST (mem s) head)"

definition TAILQ_FOREACH_REVERSE_FROM where
  "TAILQ_FOREACH_REVERSE_FROM mem body s head var =
     start_at (foreach (\<lambda>s. TAILQ_PREV (mem s)) body s) (if var \<noteq> NULL then Inr var else TAILQ_LAST (mem s) head)"

definition TAILQ_FOREACH_REVERSE_SAFE where
  "TAILQ_FOREACH_REVERSE_SAFE mem body s head = start_at (foreach_safe (\<lambda>s. TAILQ_PREV (mem s)) body s) (TAILQ_LAST (mem s) head)"

definition TAILQ_FOREACH_REVERSE_FROM_SAFE where
  "TAILQ_FOREACH_REVERSE_FROM_SAFE mem body s head var =
     start_at (foreach_safe (\<lambda>s. TAILQ_PREV (mem s)) body s) (if var \<noteq> NULL then Inr var else TAILQ_LAST (mem s) head)"

text \<open>The checks; \<open>False\<close> is a \<open>panic\<close>.\<close>

definition QMD_TAILQ_CHECK_HEAD :: "'v qmem \<Rightarrow> nat \<Rightarrow> fault + bool" where
  "QMD_TAILQ_CHECK_HEAD q head =
     (if \<not> TAILQ_EMPTY q head then ebind (get_prev q (TAILQ_FIRST q head)) (\<lambda>l. Inr (l = First_Field head)) else Inr True)"

definition QMD_TAILQ_CHECK_TAIL :: "'v qmem \<Rightarrow> nat \<Rightarrow> fault + bool" where
  "QMD_TAILQ_CHECK_TAIL q head = ebind (load_link q (last_link q head)) (\<lambda>p. Inr (p = NULL))"

definition QMD_TAILQ_CHECK_NEXT :: "'v qmem \<Rightarrow> ptr \<Rightarrow> fault + bool" where
  "QMD_TAILQ_CHECK_NEXT q elm =
     ebind (TAILQ_NEXT q elm) (\<lambda>n. if n \<noteq> NULL then ebind (get_prev q n) (\<lambda>l. Inr (l = Next_Field elm)) else Inr True)"

definition QMD_TAILQ_CHECK_PREV :: "'v qmem \<Rightarrow> ptr \<Rightarrow> fault + bool" where
  "QMD_TAILQ_CHECK_PREV q elm = ebind (get_prev q elm) (\<lambda>l. ebind (load_link q l) (\<lambda>p. Inr (p = elm)))"

section \<open>What they do to the queue\<close>

abbreviation tailq :: "'v qmem \<Rightarrow> nat \<Rightarrow> nat list \<Rightarrow> bool" where
  "tailq \<equiv> tail_chain True"

lemma tailq_D:
  assumes "tailq q h (xs @ ys)"
  shows "chain True q h (xs @ ys)" "valid q (end_field (First_Field h) xs)" "last_link q h = end_field (end_field (First_Field h) xs) ys"
  using assms by (auto simp: tail_chain_def chain_def intro: chain_valid_end)

lemma tailq_first: "tailq q h as \<Longrightarrow> TAILQ_FIRST q h = start_of as"
  by (auto simp: TAILQ_FIRST_def tail_chain_def dest: chain_first)

lemma tailq_init: "tailq (TAILQ_INIT q h) h [] \<and> changed_only {h} {} q (TAILQ_INIT q h)"
  by (simp add: TAILQ_INIT_def tail_chain_def chain_def changed_only_def)

lemma tailq_insert_tail:
  assumes "tailq q h as" "a \<in> q_live q" "a \<notin> set as"
  shows "\<exists>q'. TAILQ_INSERT_TAIL q h (Ptr a) = Inr q' \<and> tailq q' h (as @ [a]) \<and> changed_only {h} (set (a # as)) q q'"
proof -
  note D = tailq_D [of q h as "[]", simplified, OF assms(1)]
  let ?e = "end_field (First_Field h) as"
  let ?q = "set_last (put (put_back (put q (Next_Field (Ptr a)) NULL) a ?e) ?e (Ptr a)) h (Next_Field (Ptr a))"
  have e: "?e \<noteq> Next_Field (Ptr a)" using assms(3) by (auto simp: end_field_cases)
  have "TAILQ_INSERT_TAIL q h (Ptr a) = Inr ?q" using D assms(2) by (simp add: TAILQ_INSERT_TAIL_def)
  moreover have "chain True ?q h (as @ [a])" using D assms e by (intro chain_insert [of True q h as "[]"]) auto
  then have "tailq ?q h (as @ [a])" by (simp add: tail_chain_def)
  moreover have "changed_only {h} (set (a # as)) q ?q" using D assms(2) by (auto simp: changed_only_def end_field_cases)
  ultimately show ?thesis by blast
qed

lemma tailq_insert_head:
  assumes "tailq q h as" "a \<in> q_live q" "a \<notin> set as"
  shows "\<exists>q'. TAILQ_INSERT_HEAD q h (Ptr a) = Inr q' \<and> tailq q' h (a # as) \<and> changed_only {h} (set (a # as)) q q'"
proof -
  note D = tailq_D [of q h "[]" as, unfolded append_Nil end_field_simps, OF assms(1)] and f = chain_first [OF D(1)]
  let ?n = "Next_Field (Ptr a)"
  let ?q1 = "put q ?n (start_of as)"
  let ?q = "put_back (put (put_back_of as ?n (if as = [] then set_last ?q1 h ?n else ?q1)) (First_Field h) (Ptr a)) a (First_Field h)"
  have l: "set as \<subseteq> q_live q" using chain_live [OF D(1)] by auto
  have "TAILQ_INSERT_HEAD q h (Ptr a) = Inr ?q"
    using f l assms(2) by (cases as) (simp_all add: TAILQ_INSERT_HEAD_def TAILQ_FIRST_def)
  moreover have "chain True ?q h ([] @ a # as)"
    using D l assms by (intro chain_insert [of True q]) (cases as; auto)+
  then have "tailq ?q h (a # as)" using D assms(2) by (cases as) (simp_all add: tail_chain_def)
  moreover have "changed_only {h} (set (a # as)) q ?q" using assms(2) l by (cases as) (auto simp: changed_only_def)
  ultimately show ?thesis by blast
qed

lemma tailq_insert_after:
  assumes "tailq q h (xs @ b # ys)" "a \<in> q_live q" "a \<notin> set (xs @ b # ys)"
  shows "\<exists>q'. TAILQ_INSERT_AFTER q h (Ptr b) (Ptr a) = Inr q' \<and> tailq q' h (xs @ b # a # ys) \<and>
    changed_only {h} (set (a # xs @ b # ys)) q q'"
proof -
  note D = tailq_D [of q h "xs @ [b]" ys, simplified, OF assms(1)] and n = chain_next [of True q h xs b ys]
  let ?n = "Next_Field (Ptr a)"
  let ?q1 = "put q ?n (start_of ys)"
  let ?q = "put_back (put (put_back_of ys ?n (if ys = [] then set_last ?q1 h ?n else ?q1)) (Next_Field (Ptr b)) (Ptr a)) a (Next_Field (Ptr b))"
  have l: "set ys \<subseteq> q_live q" using chain_live [OF D(1)] by auto
  have "TAILQ_INSERT_AFTER q h (Ptr b) (Ptr a) = Inr ?q"
    using n D l assms(2) by (cases ys) (simp_all add: TAILQ_INSERT_AFTER_def TAILQ_NEXT_def)
  moreover have "chain True ?q h ((xs @ [b]) @ a # ys)"
    using D l assms by (intro chain_insert [of True q]) (cases ys; auto)+
  then have "tailq ?q h (xs @ b # a # ys)" using D assms(2) by (cases ys) (simp_all add: tail_chain_def)
  moreover have "changed_only {h} (set (a # xs @ b # ys)) q ?q" using D l assms(2) by (cases ys) (auto simp: changed_only_def)
  ultimately show ?thesis by blast
qed

lemma tailq_insert_before:
  assumes "tailq q h (xs @ b # ys)" "a \<in> q_live q" "a \<notin> set (xs @ b # ys)"
  shows "\<exists>q'. TAILQ_INSERT_BEFORE q (Ptr b) (Ptr a) = Inr q' \<and> tailq q' h (xs @ a # b # ys) \<and>
    changed_only {h} (set (a # xs @ b # ys)) q q'"
proof -
  note D = tailq_D [OF assms(1)] and p = chain_back [of q h xs b ys]
  let ?e = "end_field (First_Field h) xs"
  let ?q = "put_back (put (put (put_back q a ?e) (Next_Field (Ptr a)) (Ptr b)) ?e (Ptr a)) b (Next_Field (Ptr a))"
  have l: "b \<in> q_live q" "a \<noteq> b" using chain_live [OF D(1)] assms(3) by auto
  have e: "?e \<noteq> Next_Field (Ptr a)" using assms(3) by (auto simp: end_field_cases)
  have "TAILQ_INSERT_BEFORE q (Ptr b) (Ptr a) = Inr ?q"
    using p D l assms(2) by (simp add: TAILQ_INSERT_BEFORE_def)
  moreover have "chain True ?q h (xs @ a # b # ys)"
    using D l e assms by (intro chain_insert [of True q h xs "b # ys" a]) auto
  then have "tailq ?q h (xs @ a # b # ys)" using D assms(2) l by (simp add: tail_chain_def)
  moreover have "changed_only {h} (set (a # xs @ b # ys)) q ?q" using D l assms(2) by (auto simp: changed_only_def end_field_cases)
  ultimately show ?thesis by blast
qed

lemma tailq_remove:
  assumes "tailq q h (xs @ a # ys)"
  shows "\<exists>q'. TAILQ_REMOVE q h (Ptr a) = Inr q' \<and> tailq q' h (xs @ ys) \<and> changed_only {h} (set (xs @ a # ys)) q q'"
proof -
  note D = tailq_D [OF assms] and p = chain_back [of q h xs a ys] and n = chain_next [of True q h xs a ys]
  let ?e = "end_field (First_Field h) xs"
  let ?q = "put (put_back_of ys ?e (if ys = [] then set_last q h ?e else q)) ?e (start_of ys)"
  have l: "a \<in> q_live q" "set ys \<subseteq> q_live q" "a \<notin> set ys" using chain_live [OF D(1)] chain_distinct [OF D(1)] by auto
  have "TAILQ_REMOVE q h (Ptr a) = Inr ?q"
    using n p D l by (cases ys) (simp_all add: TAILQ_REMOVE_def TAILQ_NEXT_def)
  moreover have "chain True ?q h (xs @ ys)"
    using D l by (intro chain_remove [of True q h xs a ys]) (cases ys; auto)+
  then have "tailq ?q h (xs @ ys)" using D l by (cases ys) (simp_all add: tail_chain_def)
  moreover have "changed_only {h} (set (xs @ a # ys)) q ?q" using D l by (cases ys) (auto simp: changed_only_def end_field_cases)
  ultimately show ?thesis by blast
qed


lemma tailq_concat:
  assumes "tailq q h1 as" "tailq q h2 bs" "h1 \<noteq> h2" "set as \<inter> set bs = {}"
  shows "\<exists>q'. TAILQ_CONCAT q h1 h2 = Inr q' \<and> tailq q' h1 (as @ bs) \<and> tailq q' h2 [] \<and> changed_only {h1, h2} (set (as @ bs)) q q'"
proof (cases bs)
  case Nil
  with assms tailq_first [OF assms(2)] show ?thesis
    by (auto simp: TAILQ_CONCAT_def TAILQ_EMPTY_def TAILQ_FIRST_def changed_only_def)
next
  case (Cons b bs')
  note D = tailq_D [of q h1 as "[]", simplified, OF assms(1)] and D2 = tailq_D [of q h2 bs "[]", simplified, OF assms(2)]
  have l: "b \<in> q_live q" using chain_live [OF D2(1)] Cons by simp
  let ?e = "end_field (First_Field h1) as"
  let ?q = "TAILQ_INIT (set_last (put_back (put q ?e (start_of bs)) b ?e) h1 (last_link q h2)) h2"
  have ne: "?e \<noteq> First_Field h2" using assms(3) by (auto simp: end_field_cases)
  have "TAILQ_CONCAT q h1 h2 = Inr ?q"
    using Cons D l ne tailq_first [OF assms(2)] by (simp add: TAILQ_CONCAT_def TAILQ_EMPTY_def TAILQ_FIRST_def)
  moreover have "chain True ?q h1 (as @ bs)"
    using D D2 assms(3,4) ne l Cons by (intro chain_join [of True q h1 as h2 bs]) (auto simp: TAILQ_INIT_def)
  moreover have "last_link ?q h1 = end_field (First_Field h1) (as @ bs)"
    using Cons D2(3) assms(3) by (simp add: TAILQ_INIT_def)
  moreover have "changed_only {h1, h2} (set (as @ bs)) q ?q"
    using D l Cons by (auto simp: changed_only_def TAILQ_INIT_def end_field_cases)
  ultimately show ?thesis using tailq_init by (auto simp: tail_chain_def)
qed

lemma tailq_swap:
  assumes "tailq q h1 as" "tailq q h2 bs" "h1 \<noteq> h2" "set as \<inter> set bs = {}"
  shows "\<exists>q'. TAILQ_SWAP q h1 h2 = Inr q' \<and> tailq q' h1 bs \<and> tailq q' h2 as \<and> changed_only {h1, h2} (set (as @ bs)) q q'"
proof -
  note D = tailq_D [of q h1 as "[]", simplified, OF assms(1)] and D2 = tailq_D [of q h2 bs "[]", simplified, OF assms(2)]
  note f = chain_first [OF D(1)] chain_first [OF D2(1)]
  have l: "set as \<subseteq> q_live q" "set bs \<subseteq> q_live q" using chain_live [OF D(1)] chain_live [OF D2(1)] by auto
  let ?q1 = "set_last (put q (First_Field h1) (start_of bs)) h1 (last_link q h2)"
  let ?q2 = "set_last (put ?q1 (First_Field h2) (start_of as)) h2 (last_link q h1)"
  let ?q3 = "if bs = [] then set_last ?q2 h1 (First_Field h1) else put_back_of bs (First_Field h1) ?q2"
  let ?q = "if as = [] then set_last ?q3 h2 (First_Field h2) else put_back_of as (First_Field h2) ?q3"
  have "TAILQ_SWAP q h1 h2 = Inr ?q"
    using assms(3) l f by (cases as; cases bs) (simp_all add: TAILQ_SWAP_def Let_def TAILQ_FIRST_def)
  moreover have "chain True ?q h1 bs"
    using assms(3,4) l by (intro chain_rehead [OF D2(1)]) (cases as; cases bs; auto)+
  moreover have "chain True ?q h2 as"
    using assms(3,4) l by (intro chain_rehead [OF D(1)]) (cases as; cases bs; auto)+
  moreover have "last_link ?q h1 = end_field (First_Field h1) bs" "last_link ?q h2 = end_field (First_Field h2) as"
    using assms(3) D(3) D2(3) by (cases as; cases bs; simp)+
  moreover have "changed_only {h1, h2} (set (as @ bs)) q ?q"
    using assms(3) l by (cases as; cases bs) (auto simp: changed_only_def)
  ultimately show ?thesis by (auto simp: tail_chain_def)
qed

section \<open>The ends and the neighbours\<close>

text \<open>The field before the last link of \<open>as\<close>, found through the pretended head.\<close>

lemma second_field_end:
  assumes "tailq q h (xs @ ys)" "xs \<noteq> []"
  shows "ebind (second_field q (end_field (First_Field h) xs)) (load_link q) = Inr (Ptr (last xs))"
proof -
  from assms(2) obtain zs b where x: "xs = zs @ [b]" by (cases xs rule: rev_cases) auto
  note D = tailq_D [of q h zs "b # ys", simplified, OF assms(1) [unfolded x, simplified]]
  have "b \<in> q_live q" using chain_live [OF D(1)] by simp
  moreover have "link_val q (end_field (First_Field h) zs) = Ptr b" using D(1) by (auto simp: chain_def dest: path_end)
  ultimately show ?thesis using D(2) chain_back [OF D(1)] by (simp add: x second_field_def)
qed

lemma tailq_last:
  assumes "tailq q h as"
  shows "TAILQ_LAST q h = Inr (if as = [] then NULL else Ptr (last as))" "TAILQ_LAST_FAST q h = TAILQ_LAST q h"
proof -
  have l: "last_link q h = end_field (First_Field h) as" using assms by (simp add: tail_chain_def)
  show "TAILQ_LAST q h = Inr (if as = [] then NULL else Ptr (last as))"
  proof (cases "as = []")
    case True
    with l assms tailq_first [OF assms] show ?thesis by (simp add: TAILQ_LAST_def second_field_def TAILQ_FIRST_def)
  next
    case False
    with second_field_end [of q h as "[]"] assms l show ?thesis by (simp add: TAILQ_LAST_def)
  qed
  then show "TAILQ_LAST_FAST q h = TAILQ_LAST q h"
    using l tailq_first [OF assms] by (simp add: TAILQ_LAST_FAST_def TAILQ_EMPTY_def TAILQ_FIRST_def end_field_def)
qed

lemma tailq_prev:
  assumes "tailq q h (xs @ a # ys)"
  shows "TAILQ_PREV q (Ptr a) = Inr (start_of (rev xs))" "TAILQ_PREV_FAST q (Ptr a) h = TAILQ_PREV q (Ptr a)"
proof -
  note D = tailq_D [OF assms] and b = chain_back [OF tailq_D(1) [OF assms]]
  have a: "a \<in> q_live q" using chain_live [OF D(1)] by simp
  show p: "TAILQ_PREV q (Ptr a) = Inr (start_of (rev xs))"
  proof (cases xs rule: rev_cases)
    case Nil
    have "link_val q (last_link q h) = NULL" "valid q (last_link q h)"
      using assms chain_valid_end [of "xs @ a # ys" q h] path_end [of True "link_val q" "back_link q" "First_Field h" "xs @ a # ys" NULL]
      by (auto simp: tail_chain_def chain_def)
    with Nil a b show ?thesis by (simp add: TAILQ_PREV_def second_field_def)
  next
    case (snoc zs c)
    with second_field_end [OF assms] a b show ?thesis by (simp add: TAILQ_PREV_def)
  qed
  then show "TAILQ_PREV_FAST q (Ptr a) h = TAILQ_PREV q (Ptr a)"
    using a b by (cases xs rule: rev_cases) (simp_all add: TAILQ_PREV_FAST_def)
qed

lemma tailq_next: "tailq q h (xs @ a # ys) \<Longrightarrow> TAILQ_NEXT q (Ptr a) = Inr (start_of ys)"
  using chain_next [of True q h xs a ys] chain_live [of True q h "xs @ a # ys" a] by (simp add: tail_chain_def TAILQ_NEXT_def)

section \<open>The checks\<close>

lemma tailq_checks:
  assumes "tailq q h as"
  shows "QMD_TAILQ_CHECK_HEAD q h = Inr True" "QMD_TAILQ_CHECK_TAIL q h = Inr True"
    "a \<in> set as \<Longrightarrow> QMD_TAILQ_CHECK_NEXT q (Ptr a) = Inr True" "a \<in> set as \<Longrightarrow> QMD_TAILQ_CHECK_PREV q (Ptr a) = Inr True"
proof -
  have c: "chain True q h as" and e: "last_link q h = end_field (First_Field h) as" "valid q (last_link q h)"
    using assms chain_valid_end [of as q h] by (auto simp: tail_chain_def chain_def)
  note l = chain_live [OF c]
  show "QMD_TAILQ_CHECK_HEAD q h = Inr True"
  proof (cases as)
    case (Cons b bs)
    with c l chain_back [of q h "[]" b bs] chain_first [OF c] show ?thesis
      by (simp add: QMD_TAILQ_CHECK_HEAD_def TAILQ_EMPTY_def TAILQ_FIRST_def)
  qed (use chain_first [OF c] in \<open>simp add: QMD_TAILQ_CHECK_HEAD_def TAILQ_EMPTY_def\<close>)
  show "QMD_TAILQ_CHECK_TAIL q h = Inr True"
    using c e path_end [of True "link_val q" "back_link q" "First_Field h" as NULL] by (simp add: QMD_TAILQ_CHECK_TAIL_def chain_def)
  assume "a \<in> set as"
  then obtain xs ys where s: "as = xs @ a # ys" by (meson split_list)
  show "QMD_TAILQ_CHECK_NEXT q (Ptr a) = Inr True"
  proof (cases ys)
    case (Cons b zs)
    with c s l chain_next [of True q h xs a ys] chain_back [of q h "xs @ [a]" b zs] show ?thesis
      by (simp add: QMD_TAILQ_CHECK_NEXT_def TAILQ_NEXT_def)
  qed (use c s l chain_next [of True q h xs a ys] in \<open>simp add: QMD_TAILQ_CHECK_NEXT_def TAILQ_NEXT_def\<close>)
  have "link_val q (end_field (First_Field h) xs) = Ptr a" "valid q (end_field (First_Field h) xs)"
    using c s chain_valid_end [of xs q h] by (auto simp: chain_def dest: path_end)
  then show "QMD_TAILQ_CHECK_PREV q (Ptr a) = Inr True"
    using chain_back [of q h xs a ys] c s l by (simp add: QMD_TAILQ_CHECK_PREV_def)
qed

section \<open>The loops\<close>

text \<open>A body that keeps the queue meets every element once, forward or in reverse.\<close>

lemma tailq_foreach:
  assumes "tailq (mem s) h as" "\<And>s s' a. tailq (mem s) h as \<Longrightarrow> a \<in> set as \<Longrightarrow> body s (Ptr a) = Inr s' \<Longrightarrow> tailq (mem s') h as"
  shows "TAILQ_FOREACH mem body s h = Some (visit body s as)" "TAILQ_FOREACH_REVERSE mem body s h = Some (visit body s (rev as))"
proof -
  have "foreach (\<lambda>s. TAILQ_NEXT (mem s)) body s (start_of as) = Some (visit body s as)"
    by (rule queue_foreach_visits [where I = "\<lambda>s. tailq (mem s) h as" and xs = "[]"]) (use assms tailq_next in auto)
  then show "TAILQ_FOREACH mem body s h = Some (visit body s as)" by (simp add: TAILQ_FOREACH_def tailq_first [OF assms(1)])
  have "TAILQ_PREV (mem s) (Ptr a) = Inr (start_of bs)" if "tailq (mem s) h as" "rev as = xs @ a # bs" for s a bs xs
    using tailq_prev(1) [of "mem s" h "rev bs" a "rev xs"] that rev_swap [of as "xs @ a # bs"] by simp
  then have "foreach (\<lambda>s. TAILQ_PREV (mem s)) body s (start_of (rev as)) = Some (visit body s (rev as))"
    by (intro queue_foreach_visits [where I = "\<lambda>s. tailq (mem s) h as" and xs = "[]" and as = "rev as"]) (use assms in auto)
  moreover have "TAILQ_LAST (mem s) h = Inr (start_of (rev as))"
    using tailq_last(1) [OF assms(1)] by (cases as rule: rev_cases) simp_all
  ultimately show "TAILQ_FOREACH_REVERSE mem body s h = Some (visit body s (rev as))"
    by (simp add: TAILQ_FOREACH_REVERSE_def start_at_def)
qed

text \<open>The safe loop may remove the element it visits: removing every element empties the queue.\<close>

lemma tailq_foreach_remove:
  assumes "tailq q h as"
  shows "\<exists>q'. TAILQ_FOREACH_SAFE id (\<lambda>q p. TAILQ_REMOVE q h p) q h = Some (Inr q') \<and> tailq q' h []"
proof -
  let ?body = "\<lambda>q p. TAILQ_REMOVE q h p"
  have "foreach_safe (\<lambda>s. TAILQ_NEXT (id s)) ?body q (start_of as) = Some (visit ?body q as)"
  proof (rule queue_foreach_safe_visits [where I = "\<lambda>q bs. tailq q h bs" and xs = "[]" and as = as])
    fix s s' a bs assume t: "tailq s h (a # bs)"
    then show "TAILQ_NEXT (id s) (Ptr a) = Inr (start_of bs)" using tailq_next [of s h "[]"] by simp
    assume "TAILQ_REMOVE s h (Ptr a) = Inr s'"
    with tailq_remove [of s h "[]" a bs] t show "tailq s' h bs" by simp
  qed (use assms in auto)
  moreover have "\<exists>q'. visit ?body q as = Inr q' \<and> tailq q' h []"
    using assms
  proof (induction as arbitrary: q)
    case (Cons a as)
    with tailq_remove [of q h "[]" a as] show ?case by auto
  qed simp
  ultimately show ?thesis using tailq_first [OF assms] by (simp add: TAILQ_FOREACH_SAFE_def)
qed

end
