(* ===== verification/Queue_List.thy ===== *)
theory Queue_List
  imports Queue_Mem
begin

text \<open>
  The doubly linked lists (\<open>LIST\<close>) of \<open>server/queue.h\<close>: a head with one pointer, elements that know the
  address of the link that points to them, so that an element can be removed or another one
  inserted before it without knowing the list. The checks made in a kernel with \<open>INVARIANTS\<close> are
  definitions of their own; in this program they are compiled to nothing.
\<close>

section \<open>The macros\<close>

definition LIST_FIRST :: "'v qmem \<Rightarrow> nat \<Rightarrow> ptr" where
  "LIST_FIRST q head = link_val q (First_Field head)"

definition LIST_EMPTY :: "'v qmem \<Rightarrow> nat \<Rightarrow> bool" where
  "LIST_EMPTY q head \<longleftrightarrow> link_val q (First_Field head) = NULL"

definition LIST_NEXT :: "'v qmem \<Rightarrow> ptr \<Rightarrow> fault + ptr" where
  "LIST_NEXT q elm = load_link q (Next_Field elm)"

definition LIST_INIT :: "'v qmem \<Rightarrow> nat \<Rightarrow> 'v qmem" where
  "LIST_INIT q head = put q (First_Field head) NULL"

text \<open>The loop of \<open>LIST_CONCAT\<close> that looks for the last element.\<close>

partial_function (option) list_last :: "'v qmem \<Rightarrow> ptr \<Rightarrow> (fault + ptr) option" where
  "list_last q curelm =
     (case LIST_NEXT q curelm of Inl e \<Rightarrow> Some (Inl e)
      | Inr n \<Rightarrow> if n \<noteq> NULL then list_last q n else Some (Inr curelm))"

definition LIST_CONCAT :: "'v qmem \<Rightarrow> nat \<Rightarrow> nat \<Rightarrow> (fault + 'v qmem) option" where
  "LIST_CONCAT q head1 head2 =
     (let curelm = LIST_FIRST q head1 in
      if curelm = NULL then
        (let q1 = put q (First_Field head1) (LIST_FIRST q head2) in
         Some (if LIST_FIRST q1 head1 \<noteq> NULL then
                 ebind (set_prev q1 (LIST_FIRST q1 head2) (First_Field head1)) (\<lambda>q2. Inr (LIST_INIT q2 head2))
               else Inr q1))
      else if LIST_FIRST q head2 \<noteq> NULL then
        map_option (\<lambda>r. ebind r (\<lambda>curelm.
            ebind (store_link q (Next_Field curelm) (LIST_FIRST q head2)) (\<lambda>q1.
            ebind (set_prev q1 (LIST_FIRST q1 head2) (Next_Field curelm)) (\<lambda>q2. Inr (LIST_INIT q2 head2)))))
          (list_last q curelm)
      else Some (Inr q))"

definition LIST_INSERT_AFTER :: "'v qmem \<Rightarrow> ptr \<Rightarrow> ptr \<Rightarrow> fault + 'v qmem" where
  "LIST_INSERT_AFTER q listelm elm =
     ebind (LIST_NEXT q listelm) (\<lambda>n.
     ebind (store_link q (Next_Field elm) n) (\<lambda>q1.
     ebind (if n \<noteq> NULL then ebind (LIST_NEXT q1 listelm) (\<lambda>n'. set_prev q1 n' (Next_Field elm)) else Inr q1) (\<lambda>q2.
     ebind (store_link q2 (Next_Field listelm) elm) (\<lambda>q3.
       set_prev q3 elm (Next_Field listelm)))))"

definition LIST_INSERT_BEFORE :: "'v qmem \<Rightarrow> ptr \<Rightarrow> ptr \<Rightarrow> fault + 'v qmem" where
  "LIST_INSERT_BEFORE q listelm elm =
     ebind (get_prev q listelm) (\<lambda>l.
     ebind (set_prev q elm l) (\<lambda>q1.
     ebind (store_link q1 (Next_Field elm) listelm) (\<lambda>q2.
     ebind (get_prev q2 listelm) (\<lambda>l'.
     ebind (store_link q2 l' elm) (\<lambda>q3.
       set_prev q3 listelm (Next_Field elm))))))"

definition LIST_INSERT_HEAD :: "'v qmem \<Rightarrow> nat \<Rightarrow> ptr \<Rightarrow> fault + 'v qmem" where
  "LIST_INSERT_HEAD q head elm =
     (let n = LIST_FIRST q head in
      ebind (store_link q (Next_Field elm) n) (\<lambda>q1.
      ebind (if n \<noteq> NULL then set_prev q1 (LIST_FIRST q1 head) (Next_Field elm) else Inr q1) (\<lambda>q2.
        set_prev (put q2 (First_Field head) elm) elm (First_Field head))))"

definition LIST_PREV :: "'v qmem \<Rightarrow> ptr \<Rightarrow> nat \<Rightarrow> fault + ptr" where
  "LIST_PREV q elm head = ebind (get_prev q elm) (\<lambda>l. if l = First_Field head then Inr NULL else container l)"

definition LIST_REMOVE :: "'v qmem \<Rightarrow> ptr \<Rightarrow> fault + 'v qmem" where
  "LIST_REMOVE q elm =
     ebind (LIST_NEXT q elm) (\<lambda>n.
     ebind (if n \<noteq> NULL then ebind (get_prev q elm) (\<lambda>l. set_prev q n l) else Inr q) (\<lambda>q1.
     ebind (get_prev q1 elm) (\<lambda>l'.
     ebind (LIST_NEXT q1 elm) (\<lambda>n'.
       store_link q1 l' n'))))"

definition LIST_SWAP :: "'v qmem \<Rightarrow> nat \<Rightarrow> nat \<Rightarrow> fault + 'v qmem" where
  "LIST_SWAP q head1 head2 =
     (let swap_tmp = LIST_FIRST q head1;
          q1 = put q (First_Field head1) (LIST_FIRST q head2);
          q2 = put q1 (First_Field head2) swap_tmp
      in ebind (let t = LIST_FIRST q2 head1 in if t \<noteq> NULL then set_prev q2 t (First_Field head1) else Inr q2) (\<lambda>q3.
           let t = LIST_FIRST q3 head2 in if t \<noteq> NULL then set_prev q3 t (First_Field head2) else Inr q3))"

text \<open>The loops; \<open>mem\<close> is the memory in the state of the loop.\<close>

definition LIST_FOREACH where
  "LIST_FOREACH mem body s head = foreach (\<lambda>s. LIST_NEXT (mem s)) body s (LIST_FIRST (mem s) head)"

definition LIST_FOREACH_FROM where
  "LIST_FOREACH_FROM mem body s head var =
     foreach (\<lambda>s. LIST_NEXT (mem s)) body s (if var \<noteq> NULL then var else LIST_FIRST (mem s) head)"

definition LIST_FOREACH_SAFE where
  "LIST_FOREACH_SAFE mem body s head = foreach_safe (\<lambda>s. LIST_NEXT (mem s)) body s (LIST_FIRST (mem s) head)"

definition LIST_FOREACH_FROM_SAFE where
  "LIST_FOREACH_FROM_SAFE mem body s head var =
     foreach_safe (\<lambda>s. LIST_NEXT (mem s)) body s (if var \<noteq> NULL then var else LIST_FIRST (mem s) head)"

text \<open>The checks; \<open>False\<close> is a \<open>panic\<close>.\<close>

definition QMD_LIST_CHECK_HEAD :: "'v qmem \<Rightarrow> nat \<Rightarrow> fault + bool" where
  "QMD_LIST_CHECK_HEAD q head =
     (if LIST_FIRST q head \<noteq> NULL then ebind (get_prev q (LIST_FIRST q head)) (\<lambda>l. Inr (l = First_Field head)) else Inr True)"

definition QMD_LIST_CHECK_NEXT :: "'v qmem \<Rightarrow> ptr \<Rightarrow> fault + bool" where
  "QMD_LIST_CHECK_NEXT q elm =
     ebind (LIST_NEXT q elm) (\<lambda>n. if n \<noteq> NULL then ebind (get_prev q n) (\<lambda>l. Inr (l = Next_Field elm)) else Inr True)"

definition QMD_LIST_CHECK_PREV :: "'v qmem \<Rightarrow> ptr \<Rightarrow> fault + bool" where
  "QMD_LIST_CHECK_PREV q elm = ebind (get_prev q elm) (\<lambda>l. ebind (load_link q l) (\<lambda>p. Inr (p = elm)))"

section \<open>What they do to the list\<close>

abbreviation blist :: "'v qmem \<Rightarrow> nat \<Rightarrow> nat list \<Rightarrow> bool" where
  "blist \<equiv> chain True"

lemma blist_first: "blist q h as \<Longrightarrow> LIST_FIRST q h = start_of as"
  by (simp add: LIST_FIRST_def chain_first)

lemma blist_valid: "blist q h (xs @ ys) \<Longrightarrow> valid q (end_field (First_Field h) xs)"
  by (auto simp: chain_def intro: chain_valid_end)

lemma blist_init: "blist (LIST_INIT q h) h [] \<and> changed_only {h} {} q (LIST_INIT q h)"
  by (simp add: LIST_INIT_def chain_def changed_only_def)

lemma blist_insert_head:
  assumes "blist q h as" "a \<in> q_live q" "a \<notin> set as"
  shows "\<exists>q'. LIST_INSERT_HEAD q h (Ptr a) = Inr q' \<and> blist q' h (a # as) \<and> changed_only {h} (set (a # as)) q q'"
proof -
  let ?n = "Next_Field (Ptr a)"
  let ?q = "put_back (put (put_back_of as ?n (put q ?n (start_of as))) (First_Field h) (Ptr a)) a (First_Field h)"
  have l: "set as \<subseteq> q_live q" using chain_live [OF assms(1)] by auto
  have "LIST_INSERT_HEAD q h (Ptr a) = Inr ?q"
    using chain_first [OF assms(1)] l assms(2) by (cases as) (simp_all add: LIST_INSERT_HEAD_def LIST_FIRST_def)
  moreover have "blist ?q h ([] @ a # as)"
    using l assms by (intro chain_insert [of True q]) (cases as; auto)+
  moreover have "changed_only {h} (set (a # as)) q ?q" using assms(2) l by (cases as) (auto simp: changed_only_def)
  ultimately show ?thesis by auto
qed

lemma blist_insert_after:
  assumes "blist q h (xs @ b # ys)" "a \<in> q_live q" "a \<notin> set (xs @ b # ys)"
  shows "\<exists>q'. LIST_INSERT_AFTER q (Ptr b) (Ptr a) = Inr q' \<and> blist q' h (xs @ b # a # ys) \<and>
    changed_only {h} (set (a # xs @ b # ys)) q q'"
proof -
  let ?n = "Next_Field (Ptr a)"
  let ?q = "put_back (put (put_back_of ys ?n (put q ?n (start_of ys))) (Next_Field (Ptr b)) (Ptr a)) a (Next_Field (Ptr b))"
  have l: "b \<in> q_live q" "set ys \<subseteq> q_live q" using chain_live [OF assms(1)] by auto
  have "LIST_INSERT_AFTER q (Ptr b) (Ptr a) = Inr ?q"
    using chain_next [OF assms(1)] l assms(2,3) by (cases ys) (simp_all add: LIST_INSERT_AFTER_def LIST_NEXT_def)
  moreover have "blist ?q h ((xs @ [b]) @ a # ys)"
    using l assms by (intro chain_insert [of True q]) (cases ys; auto)+
  moreover have "changed_only {h} (set (a # xs @ b # ys)) q ?q" using l assms(2) by (cases ys) (auto simp: changed_only_def)
  ultimately show ?thesis by auto
qed

lemma blist_insert_before:
  assumes "blist q h (xs @ b # ys)" "a \<in> q_live q" "a \<notin> set (xs @ b # ys)"
  shows "\<exists>q'. LIST_INSERT_BEFORE q (Ptr b) (Ptr a) = Inr q' \<and> blist q' h (xs @ a # b # ys) \<and>
    changed_only {h} (set (a # xs @ b # ys)) q q'"
proof -
  let ?e = "end_field (First_Field h) xs"
  let ?q = "put_back (put (put (put_back q a ?e) (Next_Field (Ptr a)) (Ptr b)) ?e (Ptr a)) b (Next_Field (Ptr a))"
  have l: "b \<in> q_live q" "a \<noteq> b" using chain_live [OF assms(1)] assms(3) by auto
  have e: "?e \<noteq> Next_Field (Ptr a)" "valid q ?e" using assms(3) blist_valid [OF assms(1)] by (auto simp: end_field_cases)
  have "LIST_INSERT_BEFORE q (Ptr b) (Ptr a) = Inr ?q"
    using chain_back [OF assms(1)] l e assms(2) by (simp add: LIST_INSERT_BEFORE_def)
  moreover have "blist ?q h (xs @ a # b # ys)"
    using l e assms by (intro chain_insert [of True q h xs "b # ys" a]) auto
  moreover have "changed_only {h} (set (a # xs @ b # ys)) q ?q" using l e assms(2) by (auto simp: changed_only_def end_field_cases)
  ultimately show ?thesis by blast
qed

lemma blist_remove:
  assumes "blist q h (xs @ a # ys)"
  shows "\<exists>q'. LIST_REMOVE q (Ptr a) = Inr q' \<and> blist q' h (xs @ ys) \<and> changed_only {h} (set (xs @ a # ys)) q q'"
proof -
  note v = blist_valid [OF assms]
  let ?e = "end_field (First_Field h) xs"
  let ?q = "put (put_back_of ys ?e q) ?e (start_of ys)"
  have l: "a \<in> q_live q" "set ys \<subseteq> q_live q" "a \<notin> set ys" using chain_live [OF assms] chain_distinct [OF assms] by auto
  have "LIST_REMOVE q (Ptr a) = Inr ?q"
    using chain_next [OF assms] chain_back [OF assms] v l by (cases ys) (simp_all add: LIST_REMOVE_def LIST_NEXT_def)
  moreover have "blist ?q h (xs @ ys)"
    using v l assms by (intro chain_remove [of True q h xs a ys]) (cases ys; auto)+
  moreover have "changed_only {h} (set (xs @ a # ys)) q ?q" using v l by (cases ys) (auto simp: changed_only_def end_field_cases)
  ultimately show ?thesis by blast
qed

lemma blist_prev:
  assumes "blist q h (xs @ a # ys)"
  shows "LIST_PREV q (Ptr a) h = Inr (start_of (rev xs))"
  using chain_back [OF assms] chain_live [OF assms, of a] by (cases xs rule: rev_cases) (simp_all add: LIST_PREV_def)

lemma blist_next: "blist q h (xs @ a # ys) \<Longrightarrow> LIST_NEXT q (Ptr a) = Inr (start_of ys)"
  using chain_next [of True q h xs a ys] chain_live [of True q h "xs @ a # ys" a] by (simp add: LIST_NEXT_def)

lemma list_last_finds: "blist q h (xs @ ys @ [b]) \<Longrightarrow> list_last q (start_of (ys @ [b])) = Some (Inr (Ptr b))"
proof (induction ys arbitrary: xs)
  case Nil
  then show ?case using blist_next [of q h xs b "[]"] by (simp add: list_last.simps)
next
  case (Cons c ys)
  then have "LIST_NEXT q (Ptr c) = Inr (start_of (ys @ [b]))" using blist_next [of q h xs c "ys @ [b]"] by simp
  moreover have "start_of (ys @ [b]) \<noteq> NULL" by simp
  ultimately show ?case using Cons.IH [of "xs @ [c]"] Cons.prems by (simp add: list_last.simps [of q "Ptr c"])
qed

lemma blist_concat:
  assumes "blist q h1 as" "blist q h2 bs" "h1 \<noteq> h2" "set as \<inter> set bs = {}"
  shows "\<exists>q'. LIST_CONCAT q h1 h2 = Some (Inr q') \<and> blist q' h1 (as @ bs) \<and> blist q' h2 [] \<and> changed_only {h1, h2} (set (as @ bs)) q q'"
proof (cases bs)
  case Nil
  have "LIST_CONCAT q h1 h2 = Some (Inr (if as = [] then put q (First_Field h1) NULL else q))"
    using Nil chain_first [OF assms(1)] chain_first [OF assms(2)] by (simp add: LIST_CONCAT_def Let_def LIST_FIRST_def)
  with Nil assms show ?thesis by (auto simp: changed_only_def chain_def)
next
  case (Cons b bs')
  have l: "b \<in> q_live q" using chain_live [OF assms(2)] Cons by simp
  let ?e = "end_field (First_Field h1) as"
  let ?q = "LIST_INIT (put_back (put q ?e (start_of bs)) b ?e) h2"
  have e: "?e \<noteq> First_Field h2" "valid q ?e" using assms(3) blist_valid [of q h1 as "[]"] assms(1) by (auto simp: end_field_cases)
  note f = chain_first [OF assms(1)] chain_first [OF assms(2)]
  have "LIST_CONCAT q h1 h2 = Some (Inr ?q)"
  proof (cases as rule: rev_cases)
    case Nil
    with f e l Cons assms(3) show ?thesis by (simp add: LIST_CONCAT_def Let_def LIST_FIRST_def)
  next
    case (snoc ys c)
    with list_last_finds [of q h1 "[]" ys c] assms(1) f e l Cons show ?thesis
      by (simp add: LIST_CONCAT_def Let_def LIST_FIRST_def)
  qed
  moreover have "blist ?q h1 (as @ bs)"
    using assms e l Cons by (intro chain_join [of True q h1 as h2 bs]) (auto simp: LIST_INIT_def)
  moreover have "changed_only {h1, h2} (set (as @ bs)) q ?q"
    using e l Cons by (auto simp: changed_only_def LIST_INIT_def end_field_cases)
  ultimately show ?thesis using blist_init by blast
qed

lemma blist_swap:
  assumes "blist q h1 as" "blist q h2 bs" "h1 \<noteq> h2" "set as \<inter> set bs = {}"
  shows "\<exists>q'. LIST_SWAP q h1 h2 = Inr q' \<and> blist q' h1 bs \<and> blist q' h2 as \<and> changed_only {h1, h2} (set (as @ bs)) q q'"
proof -
  note f = chain_first [OF assms(1)] chain_first [OF assms(2)]
  have l: "set as \<subseteq> q_live q" "set bs \<subseteq> q_live q" using chain_live [OF assms(1)] chain_live [OF assms(2)] by auto
  let ?q = "put_back_of as (First_Field h2) (put_back_of bs (First_Field h1)
    (put (put q (First_Field h1) (start_of bs)) (First_Field h2) (start_of as)))"
  have "LIST_SWAP q h1 h2 = Inr ?q"
    using assms(3) l f by (cases as; cases bs) (simp_all add: LIST_SWAP_def Let_def LIST_FIRST_def)
  moreover have "blist ?q h1 bs"
    using assms(3,4) l by (intro chain_rehead [OF assms(2)]) (cases as; cases bs; auto)+
  moreover have "blist ?q h2 as"
    using assms(3,4) l by (intro chain_rehead [OF assms(1)]) (cases as; cases bs; auto)+
  moreover have "changed_only {h1, h2} (set (as @ bs)) q ?q"
    using assms(3) l by (cases as; cases bs) (auto simp: changed_only_def)
  ultimately show ?thesis by blast
qed

lemma blist_checks:
  assumes "blist q h as"
  shows "QMD_LIST_CHECK_HEAD q h = Inr True" "a \<in> set as \<Longrightarrow> QMD_LIST_CHECK_NEXT q (Ptr a) = Inr True"
    "a \<in> set as \<Longrightarrow> QMD_LIST_CHECK_PREV q (Ptr a) = Inr True"
proof -
  note l = chain_live [OF assms]
  show "QMD_LIST_CHECK_HEAD q h = Inr True"
    using assms l chain_back [of q h "[]"] blist_first [OF assms] by (cases as) (simp_all add: QMD_LIST_CHECK_HEAD_def)
  assume "a \<in> set as"
  then obtain xs ys where s: "as = xs @ a # ys" by (meson split_list)
  show "QMD_LIST_CHECK_NEXT q (Ptr a) = Inr True"
    using assms s l blist_next [of q h xs a ys] chain_back [of q h "xs @ [a]"]
    by (cases ys) (simp_all add: QMD_LIST_CHECK_NEXT_def)
  have "link_val q (end_field (First_Field h) xs) = Ptr a" "valid q (end_field (First_Field h) xs)"
    using assms s chain_valid_end [of xs q h] by (auto simp: chain_def dest: path_end)
  then show "QMD_LIST_CHECK_PREV q (Ptr a) = Inr True"
    using chain_back [of q h xs a ys] assms s l by (simp add: QMD_LIST_CHECK_PREV_def)
qed

lemma blist_foreach:
  assumes "blist (mem s) h as" "\<And>s s' a. blist (mem s) h as \<Longrightarrow> a \<in> set as \<Longrightarrow> body s (Ptr a) = Inr s' \<Longrightarrow> blist (mem s') h as"
  shows "LIST_FOREACH mem body s h = Some (visit body s as)"
proof -
  have "foreach (\<lambda>s. LIST_NEXT (mem s)) body s (start_of as) = Some (visit body s as)"
    by (rule queue_foreach_visits [where I = "\<lambda>s. blist (mem s) h as" and xs = "[]"]) (use assms blist_next in auto)
  then show ?thesis by (simp add: LIST_FOREACH_def blist_first [OF assms(1)])
qed

end
