(* ===== verification/Queue_Props.thy ===== *)
theory Queue_Props
  imports Stailq Tailq Queue_List
begin

text \<open>
  What the queue families of \<open>server/queue.h\<close> have in common, stated as contracts: an ordered queue
  of elements that can be inserted at the head, inserted after another one and removed
  (\<open>linked_queue\<close>), and one that can also be extended at the tail (\<open>tail_queue\<close>). The first is
  interpreted on \<open>STAILQ\<close>, \<open>LIST\<close> and \<open>TAILQ\<close>, the second on \<open>STAILQ\<close> and \<open>TAILQ\<close>. The properties
  of the families follow.
\<close>

section \<open>Clients\<close>

text \<open>Inserting one element after the other, and taking the first one out until there is none.\<close>

fun insert_all :: "('q \<Rightarrow> ptr \<Rightarrow> 'f + 'q) \<Rightarrow> 'q \<Rightarrow> nat list \<Rightarrow> 'f + 'q" where
  "insert_all ins q [] = Inr q"
| "insert_all ins q (a # as) = ebind (ins q (Ptr a)) (\<lambda>q'. insert_all ins q' as)"

fun drain :: "('q \<Rightarrow> ptr) \<Rightarrow> ('q \<Rightarrow> ptr \<Rightarrow> ('f + 'q) option) \<Rightarrow> nat \<Rightarrow> 'q \<Rightarrow> ('f + ptr list \<times> 'q) option" where
  "drain first remove 0 q = None"
| "drain first remove (Suc n) q =
     (if first q = NULL then Some (Inr ([], q))
      else case remove q (first q) of None \<Rightarrow> None
      | Some (Inl e) \<Rightarrow> Some (Inl e)
      | Some (Inr q') \<Rightarrow> map_option (\<lambda>r. ebind r (\<lambda>(ps, q''). Inr (first q # ps, q''))) (drain first remove n q'))"

section \<open>The contracts\<close>

locale linked_queue =
  fixes repr :: "'q \<Rightarrow> nat list \<Rightarrow> bool"
    and live :: "'q \<Rightarrow> nat set"
    and first :: "'q \<Rightarrow> ptr"
    and insert_head :: "'q \<Rightarrow> ptr \<Rightarrow> 'f + 'q"
    and insert_after :: "'q \<Rightarrow> ptr \<Rightarrow> ptr \<Rightarrow> 'f + 'q"
    and remove :: "'q \<Rightarrow> ptr \<Rightarrow> ('f + 'q) option"
  assumes first_law: "repr q as \<Longrightarrow> first q = start_of as"
    and insert_head_law: "repr q as \<Longrightarrow> a \<in> live q \<Longrightarrow> a \<notin> set as \<Longrightarrow>
      \<exists>q'. insert_head q (Ptr a) = Inr q' \<and> repr q' (a # as) \<and> live q' = live q"
    and insert_after_law: "repr q (xs @ b # ys) \<Longrightarrow> a \<in> live q \<Longrightarrow> a \<notin> set (xs @ b # ys) \<Longrightarrow>
      \<exists>q'. insert_after q (Ptr b) (Ptr a) = Inr q' \<and> repr q' (xs @ b # a # ys) \<and> live q' = live q"
    and remove_law: "repr q (xs @ a # ys) \<Longrightarrow> \<exists>q'. remove q (Ptr a) = Some (Inr q') \<and> repr q' (xs @ ys) \<and> live q' = live q"
begin

lemma drain_takes_all: "repr q as \<Longrightarrow> \<exists>q'. drain first remove (Suc (length as)) q = Some (Inr (map Ptr as, q')) \<and> repr q' []"
proof (induction as arbitrary: q)
  case Nil
  then show ?case using first_law [OF Nil] by auto
next
  case (Cons a as)
  obtain q1 where q1: "remove q (Ptr a) = Some (Inr q1)" "repr q1 as" using remove_law [of q "[]" a as] Cons.prems by auto
  from Cons.IH [OF q1(2)] q1(1) first_law [OF Cons.prems] show ?case by auto
qed

lemma insert_heads:
  "repr q bs \<Longrightarrow> distinct (as @ bs) \<Longrightarrow> set as \<subseteq> live q \<Longrightarrow> \<exists>q'. insert_all insert_head q as = Inr q' \<and> repr q' (rev as @ bs)"
proof (induction as arbitrary: q bs)
  case (Cons a as)
  then obtain q1 where q1: "insert_head q (Ptr a) = Inr q1" "repr q1 (a # bs)" "live q1 = live q"
    using insert_head_law [of q bs a] by auto
  with Cons.IH [OF q1(2)] Cons.prems show ?case by auto
qed simp

text \<open>A stack: last in, first out.\<close>

lemma lifo:
  assumes "repr q []" "distinct as" "set as \<subseteq> live q"
  shows "\<exists>q1 q2. insert_all insert_head q as = Inr q1 \<and> drain first remove (Suc (length as)) q1 = Some (Inr (map Ptr (rev as), q2)) \<and>
    repr q2 []"
  using insert_heads [OF assms(1), of as] assms(2,3) drain_takes_all [of _ "rev as"] by fastforce

end

locale tail_queue = linked_queue +
  fixes insert_tail :: "'a \<Rightarrow> ptr \<Rightarrow> 'b + 'a"
    and last_elem :: "'a \<Rightarrow> 'b + ptr"
  assumes insert_tail_law: "repr q as \<Longrightarrow> a \<in> live q \<Longrightarrow> a \<notin> set as \<Longrightarrow>
      \<exists>q'. insert_tail q (Ptr a) = Inr q' \<and> repr q' (as @ [a]) \<and> live q' = live q"
    and last_law: "repr q as \<Longrightarrow> last_elem q = Inr (start_of (rev as))"
begin

lemma insert_tails:
  "repr q bs \<Longrightarrow> distinct (bs @ as) \<Longrightarrow> set as \<subseteq> live q \<Longrightarrow> \<exists>q'. insert_all insert_tail q as = Inr q' \<and> repr q' (bs @ as)"
proof (induction as arbitrary: q bs)
  case (Cons a as)
  then obtain q1 where q1: "insert_tail q (Ptr a) = Inr q1" "repr q1 (bs @ [a])" "live q1 = live q"
    using insert_tail_law [of q bs a] by auto
  with Cons.IH [OF q1(2)] Cons.prems show ?case by auto
qed simp

text \<open>First in, first out.\<close>

lemma fifo:
  assumes "repr q []" "distinct as" "set as \<subseteq> live q"
  shows "\<exists>q1 q2. insert_all insert_tail q as = Inr q1 \<and> last_elem q1 = Inr (start_of (rev as)) \<and>
    drain first remove (Suc (length as)) q1 = Some (Inr (map Ptr as, q2)) \<and> repr q2 []"
  using insert_tails [OF assms(1), of as] assms(2,3) drain_takes_all [of _ as] last_law by fastforce

end

lemma forget_frame:
  "\<exists>q'. r = f q' \<and> P q' \<and> changed_only H A q q' \<Longrightarrow> \<exists>q'. r = f q' \<and> P q' \<and> q_live q' = q_live q"
  by (auto simp: changed_only_def)

lemmas stailq_laws = stailq_insert_head [THEN forget_frame] stailq_insert_after [THEN forget_frame] stailq_remove [THEN forget_frame]
  stailq_insert_tail [THEN forget_frame]

lemmas tailq_laws = tailq_insert_head [THEN forget_frame] tailq_insert_after [THEN forget_frame] tailq_insert_tail [THEN forget_frame]

lemmas blist_laws = blist_insert_head [THEN forget_frame] blist_insert_after [THEN forget_frame]

interpretation stq: tail_queue "\<lambda>q. stailq q h" q_live "\<lambda>q. STAILQ_FIRST q h" "\<lambda>q. STAILQ_INSERT_HEAD q h"
  "\<lambda>q. STAILQ_INSERT_AFTER q h" "\<lambda>q. STAILQ_REMOVE q h" "\<lambda>q. STAILQ_INSERT_TAIL q h" "\<lambda>q. STAILQ_LAST q h" for h
proof (unfold_locales, goal_cases)
  case (6 q as)
  then show ?case using stailq_last [OF 6] by (cases as rule: rev_cases) simp_all
qed (rule stailq_first stailq_laws; assumption)+

interpretation tq: tail_queue "\<lambda>q. tailq q h" q_live "\<lambda>q. TAILQ_FIRST q h" "\<lambda>q. TAILQ_INSERT_HEAD q h"
  "\<lambda>q. TAILQ_INSERT_AFTER q h" "\<lambda>q p. Some (TAILQ_REMOVE q h p)" "\<lambda>q. TAILQ_INSERT_TAIL q h" "\<lambda>q. TAILQ_LAST q h" for h
proof (unfold_locales, goal_cases)
  case (4 q xs a ys)
  then show ?case using tailq_remove [OF 4, THEN forget_frame] by auto
next
  case (6 q as)
  then show ?case using tailq_last(1) [OF 6] by (cases as rule: rev_cases) simp_all
qed (rule tailq_first tailq_laws; assumption)+

interpretation bl: linked_queue "\<lambda>q. blist q h" q_live "\<lambda>q. LIST_FIRST q h" "\<lambda>q. LIST_INSERT_HEAD q h"
  LIST_INSERT_AFTER "\<lambda>q p. Some (LIST_REMOVE q p)" for h
proof (unfold_locales, goal_cases)
  case (4 q xs a ys)
  then show ?case using blist_remove [OF 4, THEN forget_frame] by auto
qed (rule blist_first blist_laws; assumption)+

section \<open>Properties\<close>

text \<open>Memory with one head and five elements, all links invalid.\<close>

definition ex_qmem :: "string qmem" where
  "ex_qmem = \<lparr>q_heads = (\<lambda>_. \<lparr>qh_first = Ptr 99, qh_last = Next_Field NULL\<rparr>),
     q_nodes = (\<lambda>a. if a < 5 then Some \<lparr>qe_next = Ptr 99, qe_prev = Next_Field NULL, qe_val = ''x''\<rparr> else None)\<rparr>"

lemma ex_qmem_live: "q_live ex_qmem = {..<5}"
  by (auto simp: q_live_def ex_qmem_def split: if_splits)

text \<open>A tail queue of four of them.\<close>

lemma ex_tailq: "\<exists>q :: string qmem. tailq q 0 [0, 1, 2, 3] \<and> tailq q 1 [] \<and> q_live q = {..<5}"
proof -
  let ?q = "TAILQ_INIT (TAILQ_INIT ex_qmem 1) 0"
  have q: "tailq ?q 0 []" "tailq ?q 1 []" "q_live ?q = {..<5}"
    using tailq_init [of ex_qmem 1] tailq_init [of "TAILQ_INIT ex_qmem 1" 0]
    by (auto simp: ex_qmem_live changed_only_def intro: tail_chain_frame [of "{0}" "{}" "TAILQ_INIT ex_qmem 1"])
  have step: "\<exists>q' :: string qmem. tailq q' 0 (as @ [a]) \<and> tailq q' 1 [] \<and> q_live q' = {..<5}"
    if "\<exists>q :: string qmem. tailq q 0 as \<and> tailq q 1 [] \<and> q_live q = {..<5}" "a < 5" "a \<notin> set as" for as a
  proof -
    from that(1) obtain q :: "string qmem" where q: "tailq q 0 as" "tailq q 1 []" "q_live q = {..<5}" by blast
    with tailq_insert_tail [OF q(1), of a] that(2,3) obtain q' where
      "tailq q' 0 (as @ [a])" "changed_only {0} (set (a # as)) q q'" by auto
    with q tail_chain_frame [OF this(2), of 1 "[]"] show ?thesis by (auto simp: changed_only_def)
  qed
  show ?thesis
    using step [of "[0, 1, 2]" 3] step [of "[0, 1]" 2] step [of "[0]" 1] step [of "[]" 0] q by (auto simp del: One_nat_def)
qed

text \<open>
  C31: The doubly linked tail queue behaves as a list: on memory that holds the queue, inserting at the
  head, at the tail, after or before any element, and removing any element never touches
  invalid memory, leaves the memory holding the list so changed with all forward, backward and
  tail links right, and changes neither the contents of an element nor another queue.
\<close>

theorem tailq_refines_list:
  assumes "tailq q h (xs @ b # ys)" "a \<in> q_live q" "a \<notin> set (xs @ b # ys)" "h' \<noteq> h" "tailq q h' zs"
    "set zs \<inter> set (a # xs @ b # ys) = {}"
  shows "(\<exists>q'. TAILQ_INSERT_HEAD q h (Ptr a) = Inr q' \<and> tailq q' h (a # xs @ b # ys) \<and> tailq q' h' zs \<and> q_vals q' = q_vals q) \<and>
    (\<exists>q'. TAILQ_INSERT_TAIL q h (Ptr a) = Inr q' \<and> tailq q' h (xs @ b # ys @ [a]) \<and> tailq q' h' zs \<and> q_vals q' = q_vals q) \<and>
    (\<exists>q'. TAILQ_INSERT_AFTER q h (Ptr b) (Ptr a) = Inr q' \<and> tailq q' h (xs @ b # a # ys) \<and> tailq q' h' zs \<and> q_vals q' = q_vals q) \<and>
    (\<exists>q'. TAILQ_INSERT_BEFORE q (Ptr b) (Ptr a) = Inr q' \<and> tailq q' h (xs @ a # b # ys) \<and> tailq q' h' zs \<and> q_vals q' = q_vals q) \<and>
    (\<exists>q'. TAILQ_REMOVE q h (Ptr b) = Inr q' \<and> tailq q' h (xs @ ys) \<and> tailq q' h' zs \<and> q_vals q' = q_vals q)"
proof -
  have other: "tailq q' h' zs \<and> q_vals q' = q_vals q" if "changed_only {h} A q q'" "A \<subseteq> set (a # xs @ b # ys)" for q' A
    using tail_chain_frame [OF that(1), of h' zs True] assms(4-6) that by (auto simp: changed_only_def)
  have "tailq q' h (xs @ b # ys @ [a])" if "tailq q' h ((xs @ b # ys) @ [a])" for q' using that by simp
  with tailq_insert_head [OF assms(1-3)] tailq_insert_tail [OF assms(1-3)] tailq_insert_after [OF assms(1-3)]
    tailq_insert_before [OF assms(1-3)] tailq_remove [OF assms(1)] other show ?thesis
    by (intro conjI; fastforce)
qed


theorem tailq_refines_list_witness:
  "\<exists>q q' :: string qmem. tailq q 0 [0, 1, 2, 3] \<and> TAILQ_INSERT_BEFORE q (Ptr 2) (Ptr 4) = Inr q' \<and> tailq q' 0 [0, 1, 4, 2, 3]"
proof -
  obtain q :: "string qmem" where q: "tailq q 0 ([0, 1] @ 2 # [3])" "tailq q 1 []" "q_live q = {..<5}" using ex_tailq by auto
  have "(4 :: nat) \<in> q_live q" "(4 :: nat) \<notin> set ([0, 1] @ 2 # [3])" by (simp_all add: q(3))
  from tailq_refines_list [OF q(1) this _ q(2)] q(1) show ?thesis by auto
qed

text \<open>
  C32: The doubly linked list behaves as a list: inserting at the head, after or before any element
  and removing any element, given only that element, never touches invalid memory and does to
  the list what the name says, without changing the contents of an element or another list.
\<close>

theorem blist_refines_list:
  assumes "blist q h (xs @ b # ys)" "a \<in> q_live q" "a \<notin> set (xs @ b # ys)" "h' \<noteq> h" "blist q h' zs"
    "set zs \<inter> set (a # xs @ b # ys) = {}"
  shows "(\<exists>q'. LIST_INSERT_HEAD q h (Ptr a) = Inr q' \<and> blist q' h (a # xs @ b # ys) \<and> blist q' h' zs \<and> q_vals q' = q_vals q) \<and>
    (\<exists>q'. LIST_INSERT_AFTER q (Ptr b) (Ptr a) = Inr q' \<and> blist q' h (xs @ b # a # ys) \<and> blist q' h' zs \<and> q_vals q' = q_vals q) \<and>
    (\<exists>q'. LIST_INSERT_BEFORE q (Ptr b) (Ptr a) = Inr q' \<and> blist q' h (xs @ a # b # ys) \<and> blist q' h' zs \<and> q_vals q' = q_vals q) \<and>
    (\<exists>q'. LIST_REMOVE q (Ptr b) = Inr q' \<and> blist q' h (xs @ ys) \<and> blist q' h' zs \<and> q_vals q' = q_vals q)"
proof -
  have other: "blist q' h' zs \<and> q_vals q' = q_vals q" if "changed_only {h} A q q'" "A \<subseteq> set (a # xs @ b # ys)" for q' A
    using chain_frame [OF that(1), of h' zs True] assms(4-6) that by (auto simp: changed_only_def)
  with blist_insert_head [OF assms(1-3)] blist_insert_after [OF assms(1-3)] blist_insert_before [OF assms(1-3)]
    blist_remove [OF assms(1)] show ?thesis
    by (intro conjI; fastforce)
qed

theorem blist_refines_list_witness:
  "\<exists>q q' :: string qmem. blist q 0 [0, 1, 2, 3] \<and> LIST_REMOVE q (Ptr 2) = Inr q' \<and> blist q' 0 [0, 1, 3]"
proof -
  obtain q :: "string qmem" where q: "blist q 0 ([0, 1] @ 2 # [3])" "blist q 1 []" "q_live q = {..<5}"
    using ex_tailq by (auto simp: tail_chain_def)
  have "(4 :: nat) \<in> q_live q" "(4 :: nat) \<notin> set ([0, 1] @ 2 # [3])" by (simp_all add: q(3))
  from blist_refines_list [OF q(1) this _ q(2)] q(1) show ?thesis by auto
qed

text \<open>
  C33: Both kinds of tail queue are first in, first out: starting from any memory, after initialising
  the head and inserting any distinct allocated elements at the tail, the last one inserted is
  the last of the queue, and taking out the first one until the queue is empty gives them back in
  the order of insertion.
\<close>

theorem tail_queues_are_fifo:
  assumes "distinct as" "set as \<subseteq> q_live q"
  shows "(\<exists>q1 q2. insert_all (\<lambda>q. STAILQ_INSERT_TAIL q h) (STAILQ_INIT q h) as = Inr q1 \<and> STAILQ_LAST q1 h = Inr (start_of (rev as)) \<and>
      drain (\<lambda>q. STAILQ_FIRST q h) (\<lambda>q. STAILQ_REMOVE q h) (Suc (length as)) q1 = Some (Inr (map Ptr as, q2)) \<and> STAILQ_EMPTY q2 h) \<and>
    (\<exists>q1 q2. insert_all (\<lambda>q. TAILQ_INSERT_TAIL q h) (TAILQ_INIT q h) as = Inr q1 \<and> TAILQ_LAST q1 h = Inr (start_of (rev as)) \<and>
      drain (\<lambda>q. TAILQ_FIRST q h) (\<lambda>q p. Some (TAILQ_REMOVE q h p)) (Suc (length as)) q1 = Some (Inr (map Ptr as, q2)) \<and>
      TAILQ_EMPTY q2 h)"
proof -
  have "set as \<subseteq> q_live (STAILQ_INIT q h)" "set as \<subseteq> q_live (TAILQ_INIT q h)"
    using assms(2) by (simp_all add: STAILQ_INIT_def TAILQ_INIT_def)
  with stq.fifo [of "STAILQ_INIT q h" h as] tq.fifo [of "TAILQ_INIT q h" h as] assms(1) stailq_init tailq_init
    stailq_first [of _ h "[]"] tailq_first [of _ h "[]"] show ?thesis
    by (fastforce simp: STAILQ_EMPTY_def STAILQ_FIRST_def TAILQ_EMPTY_def TAILQ_FIRST_def)
qed

theorem tail_queues_are_fifo_witness:
  "\<exists>q1 q2. insert_all (\<lambda>q. TAILQ_INSERT_TAIL q 0) (TAILQ_INIT ex_qmem 0) [3, 1, 4] = Inr q1 \<and>
     drain (\<lambda>q. TAILQ_FIRST q 0) (\<lambda>q p. Some (TAILQ_REMOVE q 0 p)) 4 q1 = Some (Inr ([Ptr 3, Ptr 1, Ptr 4], q2))"
proof -
  have "distinct [3, 1, 4 :: nat]" "set [3, 1, 4] \<subseteq> q_live ex_qmem" by (simp_all add: ex_qmem_live)
  from tail_queues_are_fifo [OF this, of 0, THEN conjunct2]
  obtain q1 q2 where q: "insert_all (\<lambda>q. TAILQ_INSERT_TAIL q 0) (TAILQ_INIT ex_qmem 0) [3, 1, 4] = Inr q1"
    "drain (\<lambda>q. TAILQ_FIRST q 0) (\<lambda>q p. Some (TAILQ_REMOVE q 0 p)) (Suc (length [3, 1, 4 :: nat])) q1 =
       Some (Inr (map Ptr [3, 1, 4], q2))"
    by blast
  have "Suc (length [3, 1, 4 :: nat]) = 4" "map Ptr [3, 1, 4] = [Ptr 3, Ptr 1, Ptr 4]" by simp_all
  with q show ?thesis by (simp only:) blast
qed

text \<open>
  The two ways of finding the last element and the predecessor of an element agree, although
  \<open>TAILQ_LAST\<close> and \<open>TAILQ_PREV\<close> read a link as if it were a head; so the loop in reverse meets the
  elements of the forward loop in the opposite order.
\<close>

theorem tailq_reverse_is_forward_reversed:
  assumes "tailq (mem s) h as" "\<forall>s s' p. tailq (mem s) h as \<longrightarrow> body s p = Inr s' \<longrightarrow> tailq (mem s') h as"
  shows "TAILQ_LAST_FAST (mem s) h = TAILQ_LAST (mem s) h \<and>
    (\<forall>a \<in> set as. TAILQ_PREV_FAST (mem s) (Ptr a) h = TAILQ_PREV (mem s) (Ptr a)) \<and>
    TAILQ_FOREACH mem body s h = Some (visit body s as) \<and> TAILQ_FOREACH_REVERSE mem body s h = Some (visit body s (rev as))"
proof -
  have "TAILQ_PREV_FAST (mem s) (Ptr a) h = TAILQ_PREV (mem s) (Ptr a)" if "a \<in> set as" for a
    using tailq_prev(2) assms(1) that by (metis split_list)
  with tailq_last(2) [OF assms(1)] tailq_foreach [where mem = mem and body = body, OF assms(1)] assms(2) show ?thesis by blast
qed

theorem tailq_reverse_is_forward_reversed_witness:
  "\<exists>q :: string qmem. tailq q 0 [0, 1, 2, 3] \<and>
     TAILQ_FOREACH_REVERSE snd (\<lambda>(ps, q) p. Inr (ps @ [p], q)) ([], q) 0 = Some (Inr ([Ptr 3, Ptr 2, Ptr 1, Ptr 0], q))"
proof -
  obtain q :: "string qmem" where q: "tailq q 0 [0, 1, 2, 3]" using ex_tailq by blast
  let ?body = "\<lambda>(ps, q) p. Inr (ps @ [p], q) :: fault + ptr list \<times> string qmem"
  have t: "tailq (snd ([] :: ptr list, q)) 0 [0, 1, 2, 3]" using q by simp
  have "\<forall>s s' p. tailq (snd s) 0 [0, 1, 2, 3] \<longrightarrow> ?body s p = Inr s' \<longrightarrow> tailq (snd s') 0 [0, 1, 2, 3]" by auto
  from tailq_reverse_is_forward_reversed [where mem = snd and body = ?body, OF t this] q show ?thesis by auto
qed

text \<open>
  The consistency checks a kernel with \<open>INVARIANTS\<close> makes before every operation on a list or tail
  queue never fail on memory that holds one.
\<close>

theorem queue_checks_never_panic:
  assumes "tailq q h as" "a \<in> set as"
  shows "QMD_TAILQ_CHECK_HEAD q h = Inr True \<and> QMD_TAILQ_CHECK_TAIL q h = Inr True \<and> QMD_TAILQ_CHECK_NEXT q (Ptr a) = Inr True \<and>
    QMD_TAILQ_CHECK_PREV q (Ptr a) = Inr True \<and> QMD_LIST_CHECK_HEAD q h = Inr True \<and> QMD_LIST_CHECK_NEXT q (Ptr a) = Inr True \<and>
    QMD_LIST_CHECK_PREV q (Ptr a) = Inr True"
proof -
  have "blist q h as" using assms(1) by (simp add: tail_chain_def)
  with tailq_checks [OF assms(1)] blist_checks assms(2) show ?thesis by blast
qed

theorem queue_checks_never_panic_witness:
  "\<exists>q :: string qmem. tailq q 0 [0, 1, 2, 3] \<and> QMD_TAILQ_CHECK_PREV q (Ptr 2) = Inr True"
proof -
  obtain q :: "string qmem" where q: "tailq q 0 [0, 1, 2, 3]" using ex_tailq by blast
  from queue_checks_never_panic [OF q, of 2] q show ?thesis by auto
qed

end
