(* ===== verification/Server_Plain.thy ===== *)
theory Server_Plain
  imports Server_Concurrent Itimer
begin

text \<open>
  The server built without \<open>USE_AESD_CHAR_DEVICE\<close>: \<open>OUTPUT_FILE\<close> is an ordinary file, no line is a
  control line, and the timer of \<open>server/itimer_thread.c\<close>, armed before the accept loop, appends a
  time stamp every ten seconds. What an ordinary file and the buffering of \<open>stdio\<close> do is the
  hypothesis \<open>plain_file\<close>.

  Each firing of the timer is a further thread that uses the same mutex; its \<open>fclose\<close>, which is what
  writes the buffered line to the file, comes after its unlock. The clients are served all the same,
  in any interleaving with any number of firings, and every record reaches the file whole; but a time
  stamp can come between a client's line and the client's reading it back, as the last theorem shows.
\<close>

text \<open>A write that fits the buffer of a new stream stays there until the stream is closed.\<close>

definition plain_file :: "bytes out_file \<Rightarrow> bool" where
  "plain_file api \<longleftrightarrow> (\<exists>k. (\<forall>l. length l < 4096 \<longrightarrow> k l = 0) \<and>
       (\<forall>l d. of_write api l d = Inr (length l, drop (k l) l, d @ take (k l) l))) \<and>
     (\<forall>l d. of_flush api l d = Inr (0, d @ l)) \<and> (\<forall>p d. of_contents api p d = Some (drop (unat p) d))"

lemma plain_fileD:
  assumes "plain_file api"
  shows "of_append api l d = Inr (length l, 0, d @ l)" "length l < 4096 \<Longrightarrow> of_write api l d = Inr (length l, l, d)"
    "of_flush api l d = Inr (0, d @ l)" "of_contents api p d = Some (drop (unat p) d)"
proof -
  from assms obtain k where k: "\<forall>l. length l < 4096 \<longrightarrow> k l = 0"
    "\<And>l d. of_write api l d = Inr (length l, drop (k l) l, d @ take (k l) l)" "\<And>l d. of_flush api l d = Inr (0, d @ l)"
    by (auto simp: plain_file_def)
  then show "of_append api l d = Inr (length l, 0, d @ l)" by (simp add: of_append_def)
  show "length l < 4096 \<Longrightarrow> of_write api l d = Inr (length l, l, d)" using k(1,2) by simp
  show "of_flush api l d = Inr (0, d @ l)" "of_contents api p d = Some (drop (unat p) d)" using k(3) assms by (simp_all add: plain_file_def)
qed

section \<open>Clients\<close>

text \<open>A client of this build that sends a line of at most \<open>m\<close> bytes and takes \<open>n\<close> bytes back.\<close>

definition file_client :: "nat \<Rightarrow> nat \<Rightarrow> thread_env \<Rightarrow> bytes \<Rightarrow> bool" where
  "file_client n m env l \<longleftrightarrow> \<not> use_char_device env \<and> all_calls_succeed env \<and> client_line env l \<and> length l \<le> m \<and>
     n \<le> length (client_sends env)"

lemma file_client_served:
  assumes "plain_file api" "file_client n m env l" "length (d @ l) \<le> n" "n < 2 ^ 63"
  shows "\<exists>s. sock_thread_func env api args d = Some (Inr s) \<and> t_dev s = d @ l \<and> t_sent s = d @ l"
proof -
  from assms(2) have e: "all_calls_succeed env" "client_line env l" "\<not> (use_char_device env \<and> is_ctrl_line l)"
    "n \<le> length (client_sends env)" by (simp_all add: file_client_def)
  from plain_fileD [OF assms(1)] have f: "of_append api l d = Inr (length l, 0, d @ l)" "of_contents api 0 (d @ l) = Some (d @ l)"
    by simp_all
  from thread_appends_and_echoes [OF e(1-3) f, of args] e(4) assms(3,4) show ?thesis by auto
qed

lemma length_concat_part:
  assumes "distinct ws" "set ws \<subseteq> {..<length xs}"
  shows "length (concat (map ((!) xs) ws)) \<le> length (concat xs)"
proof -
  have "length (concat (map ((!) xs) ws)) = (\<Sum>w\<in>set ws. length (xs ! w))"
    using assms(1) by (simp add: length_concat sum.distinct_set_conv_list comp_def)
  also have "\<dots> \<le> (\<Sum>w<length xs. length (xs ! w))" using assms(2) by (intro sum_mono2) auto
  also have "\<dots> = length (concat xs)" by (simp add: length_concat sum_list_sum_nth atLeast0LessThan)
  finally show ?thesis .
qed

section \<open>The timer as a thread\<close>

datatype timer_point = Timer_Open | Timer_Lock | Timer_Format | Timer_Unlock bytes | Timer_Close bytes | Timer_Done

text \<open>
  The steps of \<open>timer_thread\<close>. \<open>append_to_file\<close> puts the text into the buffer of the stream, \<open>fclose\<close>
  writes what is in it to the file.
\<close>

definition timer_text :: "timer_env \<Rightarrow> fault + bytes" where
  "timer_text env =
     (let rc = length (strftime_text env);
          rc1 = (if rc > STRFTIME_BUF_SIZE - 1 then STRFTIME_BUF_SIZE - 1 else rc);
          buf = (strftime_buf env)[rc1 - 1 := newline, rc1 := nul]
      in if rc1 \<ge> length buf then Inl Out_Of_Bounds else ebind (strlen buf) (\<lambda>n. Inr (take n buf)))"

fun timer_step :: "timer_env \<Rightarrow> 'd out_file \<Rightarrow> timer_point \<Rightarrow> 'd timer_out \<Rightarrow> fault + (timer_point \<times> 'd timer_out)" where
  "timer_step env api Timer_Open s =
     Inr (if tm_fopen_ok env then (Timer_Lock, s\<lparr>tm_file_open := True\<rparr>) else (Timer_Done, s))"
| "timer_step env api Timer_Lock s =
     Inr (if tm_lock env \<noteq> 0 then (Timer_Close [], s) else (Timer_Format, s\<lparr>tm_held := True\<rparr>))"
| "timer_step env api Timer_Format s =
     (if length (strftime_text env) = 0 then Inr (Timer_Unlock [], s)
      else ebind (timer_text env) (\<lambda>bs. ebind (of_write api bs (tm_dev s)) (\<lambda>(_, rest, d). Inr (Timer_Unlock rest, s\<lparr>tm_dev := d\<rparr>))))"
| "timer_step env api (Timer_Unlock bs) s = Inr (Timer_Close bs, s\<lparr>tm_held := (tm_unlock env \<noteq> 0)\<rparr>)"
| "timer_step env api (Timer_Close bs) s =
     (if bs = [] then Inr (Timer_Done, s\<lparr>tm_file_open := False\<rparr>)
      else ebind (of_flush api bs (tm_dev s)) (\<lambda>(_, d). Inr (Timer_Done, s\<lparr>tm_dev := d, tm_file_open := False\<rparr>)))"
| "timer_step env api Timer_Done s = Inr (Timer_Done, s)"

fun timer_steps :: "nat \<Rightarrow> timer_env \<Rightarrow> 'd out_file \<Rightarrow> timer_point \<Rightarrow> 'd timer_out \<Rightarrow> fault + (timer_point \<times> 'd timer_out)" where
  "timer_steps 0 env api pt s = Inr (pt, s)"
| "timer_steps (Suc n) env api pt s = ebind (timer_step env api pt s) (\<lambda>(pt', s'). timer_steps n env api pt' s')"

text \<open>The time stamp line, as \<open>timer_thread_appends_line\<close> has it.\<close>

definition timer_runs :: "timer_env \<Rightarrow> bool" where
  "timer_runs env \<longleftrightarrow> tm_fopen_ok env \<and> tm_lock env = 0 \<and> tm_unlock env = 0 \<and> length (tm_stack env) = 200 \<and>
     strftime_text env \<noteq> [] \<and> length (strftime_text env) < 200 \<and> nul \<notin> set (strftime_text env)"

definition stamp :: "timer_env \<Rightarrow> bytes" where
  "stamp env = butlast (strftime_text env) @ [newline]"

lemma timer_text_stamp: "timer_runs env \<Longrightarrow> timer_text env = Inr (stamp env)"
  using timer_buffer [of "strftime_text env" "tm_stack env"]
  by (simp add: timer_runs_def timer_text_def strftime_buf_def stamp_def Let_def)

lemma length_stamp: "timer_runs env \<Longrightarrow> length (stamp env) < 4096"
  by (simp add: timer_runs_def stamp_def)

lemma stamp_not_Nil [simp]: "stamp env \<noteq> []"
  by (simp add: stamp_def)

text \<open>The steps of the timer alone are \<open>timer_thread\<close>.\<close>

lemma timer_steps_are_timer_thread:
  assumes "timer_runs env"
  shows "timer_steps 5 env api Timer_Open \<lparr>tm_dev = d, tm_held = False, tm_file_open = False\<rparr> =
    ebind (timer_thread env api d) (\<lambda>s. Inr (Timer_Done, s))"
proof -
  have "timer_thread env api d = ebind (timer_text env) (\<lambda>bs. ebind (of_append api bs d) (\<lambda>(_, _, d').
      Inr \<lparr>tm_dev = d', tm_held = False, tm_file_open = False\<rparr>))"
    using assms by (auto simp: timer_thread_def timer_text_def timer_runs_def Let_def ebind_def split: sum.split)
  moreover have "timer_steps 5 env api pt s = timer_steps (Suc (Suc (Suc (Suc (Suc 0))))) env api pt s" for pt s
    by (simp add: numeral_eq_Suc)
  moreover note timer_text_stamp [OF assms] assms
  ultimately show ?thesis
    by (auto simp: timer_runs_def ebind_def of_append_def split: sum.split prod.split)
qed

section \<open>Clients and timer together\<close>

record 'd plain_sys =
  ps_conc :: "'d conc"
  ps_timers :: "(timer_point \<times> 'd timer_out) list"    \<comment> \<open>the firings of the timer, each a thread\<close>

text \<open>Firing \<open>k\<close> of the timer is the thread numbered \<open>length cs + k\<close>.\<close>

definition timer_owner :: "nat \<Rightarrow> 'd timer_out \<Rightarrow> 'd timer_out \<Rightarrow> nat option \<Rightarrow> nat option" where
  "timer_owner i s s' ow = (if tm_held s' = tm_held s then ow else if tm_held s' then Some i else None)"

inductive plain_step ::
  "'d out_file \<Rightarrow> (thread_env \<times> aesd_thread_args) list \<Rightarrow> timer_env list \<Rightarrow> 'd plain_sys \<Rightarrow> 'd plain_sys \<Rightarrow> bool"
  for api cs tenvs where
  client_moves: "conc_step api cs (ps_conc s) c' \<Longrightarrow> plain_step api cs tenvs s (s\<lparr>ps_conc := c'\<rparr>)"
| timer_moves: "k < length (ps_timers s) \<Longrightarrow> ps_timers s ! k = (pt, t) \<Longrightarrow> pt \<noteq> Timer_Done \<Longrightarrow>
    (pt = Timer_Lock \<and> tm_lock (tenvs ! k) = 0 \<longrightarrow> c_owner (ps_conc s) = None) \<Longrightarrow>
    timer_step (tenvs ! k) api pt (t\<lparr>tm_dev := c_dev (ps_conc s)\<rparr>) = Inr (pt', t') \<Longrightarrow>
    plain_step api cs tenvs s
      \<lparr>ps_conc = (ps_conc s)\<lparr>c_dev := tm_dev t', c_owner := timer_owner (length cs + k) t t' (c_owner (ps_conc s))\<rparr>,
       ps_timers = (ps_timers s)[k := (pt', t')]\<rparr>"

definition timer_start :: "'d \<Rightarrow> timer_point \<times> 'd timer_out" where
  "timer_start d = (Timer_Open, \<lparr>tm_dev = d, tm_held = False, tm_file_open = False\<rparr>)"

definition plain_start :: "(thread_env \<times> aesd_thread_args) list \<Rightarrow> timer_env list \<Rightarrow> 'd \<Rightarrow> 'd plain_sys" where
  "plain_start cs tenvs d = \<lparr>ps_conc = conc_start cs d, ps_timers = map (\<lambda>_. timer_start d) tenvs\<rparr>"

text \<open>One client and the timer, step by step.\<close>

lemma client_goes:
  assumes "thread_step env api pc (s\<lparr>t_dev := d\<rparr>) = Some (Inr (pc', s'))" "pc \<noteq> Returned"
    "takes_mutex env pc \<longrightarrow> ow = None"
    "(plain_step api [(env, args)] [tenv])\<^sup>*\<^sup>* s0 \<lparr>ps_conc = \<lparr>c_threads = [(pc, s)], c_dev = d, c_owner = ow, c_order = os\<rparr>,
       ps_timers = [(pt, t)]\<rparr>"
  shows "\<exists>os'. (plain_step api [(env, args)] [tenv])\<^sup>*\<^sup>* s0
    \<lparr>ps_conc = \<lparr>c_threads = [(pc', s')], c_dev = t_dev s', c_owner = next_owner 0 s s' ow, c_order = os'\<rparr>,
     ps_timers = [(pt, t)]\<rparr>"
proof -
  let ?c = "\<lparr>c_threads = [(pc, s)], c_dev = d, c_owner = ow, c_order = os\<rparr>"
  have "conc_step api [(env, args)] ?c
      \<lparr>c_threads = [(pc', s')], c_dev = t_dev s', c_owner = next_owner 0 s s' ow,
       c_order = (if takes_mutex env pc then os @ [(0, d)] else os)\<rparr>"
    using thread_moves [of 0 ?c pc s "[(env, args)]" api pc' s'] assms(1-3) by (cases "takes_mutex env pc") simp_all
  from client_moves [where s = "\<lparr>ps_conc = ?c, ps_timers = [(pt, t)]\<rparr>", simplified, OF this, of "[tenv]"] assms(4)
  show ?thesis by (blast intro: rtranclp.rtrancl_into_rtrancl)
qed

lemma step_after_lock:
  assumes "thread_step env api pc s = Some (Inr (pc', s'))" "\<not> before_lock pc"
  shows "\<not> before_lock pc'" "\<not> takes_mutex env pc"
  using assms by (cases pc; auto simp: Let_def ebind_eq_Inr split: sum.splits option.splits prod.splits if_splits)+

lemma client_finishes:
  assumes "thread_steps k env api pc (s\<lparr>t_dev := d\<rparr>) = Some (Inr (pc', s'))" "\<not> before_lock pc"
    "(plain_step api [(env, args)] [tenv])\<^sup>*\<^sup>* s0 \<lparr>ps_conc = \<lparr>c_threads = [(pc, s)], c_dev = d, c_owner = ow, c_order = os\<rparr>,
       ps_timers = [(pt, t)]\<rparr>"
  shows "\<exists>ow' os' s''. (plain_step api [(env, args)] [tenv])\<^sup>*\<^sup>* s0
    \<lparr>ps_conc = \<lparr>c_threads = [(pc', s'')], c_dev = t_dev s', c_owner = ow', c_order = os'\<rparr>, ps_timers = [(pt, t)]\<rparr> \<and>
    t_sent s'' = t_sent s'"
  using assms
proof (induction k arbitrary: pc s d ow os)
  case 0
  then show ?case by (intro exI [of _ ow] exI [of _ os] exI [of _ s]) auto
next
  case (Suc k)
  show ?case
  proof (cases "pc = Returned")
    case True
    with Suc.prems show ?thesis by (intro exI [of _ ow] exI [of _ os] exI [of _ s]) auto
  next
    case False
    from Suc.prems(1) obtain pc1 s1 where st: "thread_step env api pc (s\<lparr>t_dev := d\<rparr>) = Some (Inr (pc1, s1))"
      "thread_steps k env api pc1 s1 = Some (Inr (pc', s'))"
      by (auto split: option.splits sum.splits)
    note al = step_after_lock [OF st(1) Suc.prems(2)]
    from client_goes [OF st(1) False _ Suc.prems(3)] al(2) obtain os1 where
      "(plain_step api [(env, args)] [tenv])\<^sup>*\<^sup>* s0
        \<lparr>ps_conc = \<lparr>c_threads = [(pc1, s1)], c_dev = t_dev s1, c_owner = next_owner 0 s s1 ow, c_order = os1\<rparr>,
         ps_timers = [(pt, t)]\<rparr>" by blast
    from Suc.IH [OF _ al(1) this] st(2) show ?thesis by (simp add: same_dev)
  qed
qed

lemma timer_goes:
  assumes "timer_step tenv api pt (t\<lparr>tm_dev := d\<rparr>) = Inr (pt', t')" "pt \<noteq> Timer_Done" "pt = Timer_Lock \<longrightarrow> ow = None"
    "(plain_step api [c] [tenv])\<^sup>*\<^sup>* s0 \<lparr>ps_conc = \<lparr>c_threads = ts, c_dev = d, c_owner = ow, c_order = os\<rparr>, ps_timers = [(pt, t)]\<rparr>"
  shows "(plain_step api [c] [tenv])\<^sup>*\<^sup>* s0
    \<lparr>ps_conc = \<lparr>c_threads = ts, c_dev = tm_dev t', c_owner = timer_owner 1 t t' ow, c_order = os\<rparr>,
     ps_timers = [(pt', t')]\<rparr>"
proof -
  let ?s = "\<lparr>ps_conc = \<lparr>c_threads = ts, c_dev = d, c_owner = ow, c_order = os\<rparr>, ps_timers = [(pt, t)]\<rparr>"
  have "plain_step api [c] [tenv] ?s
    \<lparr>ps_conc = \<lparr>c_threads = ts, c_dev = tm_dev t', c_owner = timer_owner 1 t t' ow, c_order = os\<rparr>,
     ps_timers = [(pt', t')]\<rparr>"
    using timer_moves [of 0 ?s pt t "[tenv]" api pt' t' "[c]"] assms(1-3) by simp
  with assms(4) show ?thesis by (rule rtranclp.rtrancl_into_rtrancl)
qed

text \<open>
  The interleaving: the timer stops between unlock and \<open>fclose\<close>, the client locks and appends its
  line, the timer's line arrives, the client is about to read the file.
\<close>

definition client_appended :: "aesd_thread_args \<Rightarrow> 'd \<Rightarrow> 'd thread_state" where
  "client_appended args d = \<lparr>t_args = args\<lparr>last_error := 0\<rparr>, t_dev = d, t_sent = [], t_file = Some 0,
     t_streams = [Closed_Stream], line_live = True,
     sock_open = True, mtx_held = True\<rparr>"

lemma stamp_between:
  assumes "plain_file api" "file_client n m env l" "timer_runs tenv"
  shows "\<exists>sk os t. (plain_step api [(env, args)] [tenv])\<^sup>*\<^sup>* (plain_start [(env, args)] [tenv] d)
    \<lparr>ps_conc = \<lparr>c_threads = [(Open_Read False sk, client_appended args (d @ l))], c_dev = d @ l @ stamp tenv,
       c_owner = Some 0, c_order = os\<rparr>, ps_timers = [(Timer_Done, t)]\<rparr>"
proof -
  from assms(2) have fc: "\<not> use_char_device env" "all_calls_succeed env" "client_line env l"
    by (simp_all add: file_client_def)
  then have e: "fopen_a_ok env" "lock_ret env = 0" "fclose_a_ret env = 0" by (simp_all add: all_calls_succeed_def)
  from assms(3) have t: "tm_fopen_ok tenv" "tm_lock tenv = 0" "tm_unlock tenv = 0" "strftime_text tenv \<noteq> []"
    by (simp_all add: timer_runs_def)
  obtain buf where b: "readline_from_socket (malloc_ok env) (realloc_ok env) (uninit env) (client env) =
      Inr (Some (buf, length l))" "length l \<le> length buf" "take (length l) buf = l"
    using client_line_read [OF fc(2,3)] by blast
  let ?sk = "\<lparr>write_cmd = 0, write_cmd_offset = 0\<rparr>" and ?r = "(plain_step api [(env, args)] [tenv])\<^sup>*\<^sup>* (plain_start [(env, args)] [tenv] d)"
  have ctl: "check_ctrl_cmd env buf (length l) = Inr (False, buf, ?sk)" using fc(1) by (simp add: check_ctrl_cmd_def)
  note pf = plain_fileD [OF assms(1)]
  obtain kl where kl: "\<And>d. of_write api l d = Inr (length l, drop kl l, d @ take kl l)" using assms(1) by (auto simp: plain_file_def)
  let ?s = "client_appended args (d @ l)"
  let ?t0 = "\<lparr>tm_dev = d, tm_held = False, tm_file_open = False\<rparr>" and ?T = "thread_start args d"
  let ?S = "\<lambda>pc s d ow os pt t. \<lparr>ps_conc = \<lparr>c_threads = [(pc, s)], c_dev = d, c_owner = ow, c_order = os\<rparr>, ps_timers = [(pt, t)]\<rparr>"
  have "?r (?S Read_Line ?T d None [] Timer_Open ?t0)" by (simp add: plain_start_def conc_start_def timer_start_def)
  from timer_goes [OF _ _ _ this] have "?r (?S Read_Line ?T d None [] Timer_Lock (?t0\<lparr>tm_file_open := True\<rparr>))"
    by (simp add: t timer_owner_def)
  from timer_goes [OF _ _ _ this]
  have "?r (?S Read_Line ?T d (Some 1) [] Timer_Format (?t0\<lparr>tm_file_open := True, tm_held := True\<rparr>))"
    by (simp add: t timer_owner_def)
  from timer_goes [OF _ _ _ this]
  have "?r (?S Read_Line ?T d (Some 1) [] (Timer_Unlock (stamp tenv)) (?t0\<lparr>tm_file_open := True, tm_held := True\<rparr>))"
    by (simp add: t timer_text_stamp [OF assms(3)] pf(2) [OF length_stamp [OF assms(3)]] timer_owner_def)
  from timer_goes [OF _ _ _ this]
  have "?r (?S Read_Line ?T d None [] (Timer_Close (stamp tenv)) (?t0\<lparr>tm_file_open := True\<rparr>))"
    by (simp add: t timer_owner_def)
  from client_goes [OF _ _ _ this] obtain os where
    "?r (?S (Open_Append ?sk buf (length l)) (?T\<lparr>line_live := True\<rparr>) d None os (Timer_Close (stamp tenv)) (?t0\<lparr>tm_file_open := True\<rparr>))"
    by (auto simp: b ctl next_owner_def thread_start_def)
  from client_goes [OF _ _ _ this] obtain os where
    "?r (?S (Lock_Mutex False ?sk buf (length l)) (open_stream (Append_Stream []) (?T\<lparr>line_live := True\<rparr>)) d None os
       (Timer_Close (stamp tenv)) (?t0\<lparr>tm_file_open := True\<rparr>))"
    by (auto simp: e next_owner_def thread_start_def open_stream_def)
  from client_goes [OF _ _ _ this] obtain os where
    "?r (?S (Append_Line ?sk buf (length l)) ((set_error 0 (open_stream (Append_Stream []) (?T\<lparr>line_live := True\<rparr>)))\<lparr>mtx_held := True\<rparr>) d
       (Some 0) os (Timer_Close (stamp tenv)) (?t0\<lparr>tm_file_open := True\<rparr>))"
    by (auto simp: e next_owner_def thread_start_def set_error_def open_stream_def)
  from client_goes [OF _ _ _ this] obtain os where
    "?r (?S (Close_Append ?sk) (?s\<lparr>t_dev := d @ take kl l, t_streams := [Append_Stream (drop kl l)]\<rparr>) (d @ take kl l) (Some 0) os
       (Timer_Close (stamp tenv)) (?t0\<lparr>tm_file_open := True\<rparr>))"
    using b(2,3) by (auto simp: kl append_to_file_spec appends_def open_stream_def next_owner_def thread_start_def set_error_def client_appended_def)
  from client_goes [OF _ _ _ this] obtain os where
    "?r (?S (Open_Read False ?sk) ?s (d @ l) (Some 0) os (Timer_Close (stamp tenv)) (?t0\<lparr>tm_file_open := True\<rparr>))"
    by (cases "drop kl l = []") (auto simp: pf(3) close_file_def fclose_append [where fs = "[]"] e(3) next_owner_def client_appended_def)
  from timer_goes [OF _ _ _ this] have
    "?r (?S (Open_Read False ?sk) ?s (d @ l @ stamp tenv) (Some 0) os Timer_Done (?t0\<lparr>tm_dev := d @ l @ stamp tenv\<rparr>))"
    by (simp add: pf(3) timer_owner_def)
  then show ?thesis by blast
qed

section \<open>What each thread contributes\<close>

text \<open>The state of a client thread at each point of the code, for a client that sends \<open>l\<close>.\<close>

fun client_at :: "bytes \<Rightarrow> code_point \<Rightarrow> 'd thread_state \<Rightarrow> bool" where
  "client_at l Read_Line s \<longleftrightarrow> t_streams s = [] \<and> t_sent s = [] \<and> \<not> mtx_held s"
| "client_at l (Open_Append sk line n) s \<longleftrightarrow>
     t_streams s = [] \<and> n = length l \<and> n \<le> length line \<and> take n line = l \<and> t_sent s = [] \<and> \<not> mtx_held s"
| "client_at l (Lock_Mutex c sk line n) s \<longleftrightarrow> \<not> c \<and> t_file s = Some 0 \<and> t_streams s = [Append_Stream []] \<and>
     n = length l \<and> n \<le> length line \<and> take n line = l \<and> t_sent s = [] \<and> \<not> mtx_held s"
| "client_at l (Append_Line sk line n) s \<longleftrightarrow> t_file s = Some 0 \<and> t_streams s = [Append_Stream []] \<and>
     n = length l \<and> n \<le> length line \<and> take n line = l \<and> t_sent s = [] \<and> mtx_held s"
| "client_at l (Close_Append sk) s \<longleftrightarrow> t_file s = Some 0 \<and> t_streams s = [Append_Stream l] \<and> t_sent s = [] \<and> mtx_held s"
| "client_at l (Open_Read c sk) s \<longleftrightarrow> \<not> c \<and> t_streams s = [Closed_Stream] \<and> t_sent s = [] \<and> mtx_held s"
| "client_at l (Seek_File sk) s \<longleftrightarrow> False"
| "client_at l (Send_Back pos) s \<longleftrightarrow>
     pos = 0 \<and> t_file s = Some 1 \<and> t_streams s = [Closed_Stream, Read_Stream] \<and> t_sent s = [] \<and> mtx_held s"
| "client_at l Unlock_Mutex s \<longleftrightarrow> t_file s = Some 1 \<and> t_streams s = [Closed_Stream, Read_Stream] \<and> mtx_held s"
| "client_at l Close_File s \<longleftrightarrow> t_file s = Some 1 \<and> t_streams s = [Closed_Stream, Read_Stream] \<and> \<not> mtx_held s"
| "client_at l Free_Line s \<longleftrightarrow> \<not> mtx_held s"
| "client_at l Close_Socket s \<longleftrightarrow> \<not> mtx_held s"
| "client_at l Returned s \<longleftrightarrow> \<not> mtx_held s"

text \<open>The line is in the file; the file has been sent back.\<close>

definition line_written :: "code_point \<Rightarrow> bool" where
  "line_written pc \<longleftrightarrow> steps_left pc \<le> 7"

definition echoed :: "code_point \<Rightarrow> bool" where
  "echoed pc \<longleftrightarrow> steps_left pc \<le> 4"

lemma client_at_held: "client_at l pc s \<Longrightarrow> mtx_held s \<longleftrightarrow> in_critical pc"
  by (cases pc) auto

lemma echoing_critical: "line_written pc \<Longrightarrow> \<not> echoed pc \<Longrightarrow> in_critical pc"
  by (cases pc) (auto simp: line_written_def echoed_def)

text \<open>
  Outside a wait for the mutex, a thread that has not returned can take a step; it adds its line to the
  file when it closes the stream it appended to, and what it sends back is the file as it is then.
\<close>

lemma client_advances:
  assumes "plain_file api" "file_client n m env l" "m < 4096" "client_at l pc s" "pc \<noteq> Returned" "length d \<le> n" "n < 2 ^ 63"
  shows "\<exists>pc' s'. thread_step env api pc (s\<lparr>t_dev := d\<rparr>) = Some (Inr (pc', s')) \<and> client_at l pc' s' \<and>
    t_dev s' = (if at_close pc then d @ l else d) \<and> (line_written pc' \<longleftrightarrow> line_written pc \<or> at_close pc) \<and>
    (echoed pc' \<longrightarrow> echoed pc \<or> line_written pc) \<and>
    t_sent s' = (if echoed pc' \<and> \<not> echoed pc then d else t_sent s) \<and>
    (mtx_held s' \<and> \<not> mtx_held s \<longrightarrow> takes_mutex env pc)"
proof -
  from assms(2) have e: "\<not> use_char_device env" "all_calls_succeed env" "client_line env l" "length l \<le> m"
    "n \<le> length (client_sends env)" by (simp_all add: file_client_def)
  then have c: "fopen_a_ok env" "lock_ret env = 0" "fclose_a_ret env = 0" "fopen_r_ok env" "errno_send env = 0" "unlock_ret env = 0"
    "fclose_ret env = 0" "accepting (client_sends env)" by (simp_all add: all_calls_succeed_def)
  obtain buf where b: "readline_from_socket (malloc_ok env) (realloc_ok env) (uninit env) (client env) =
      Inr (Some (buf, length l))" "length l \<le> length buf" "take (length l) buf = l"
    using client_line_read [OF e(2,3)] by blast
  have ctl: "check_ctrl_cmd env buf (length l) = Inr (False, buf, \<lparr>write_cmd = 0, write_cmd_offset = 0\<rparr>)"
    using e(1) by (simp add: check_ctrl_cmd_def)
  have snd: "send_file (client_sends env) d 0 = Some (Inr (True, d))"
    using send_file_complete [OF c(8), of d 0] assms(6,7) e(5) by simp
  have w: "of_write api l d = Inr (length l, l, d)" using plain_fileD(2) [OF assms(1)] e(4) assms(3) by simp
  note pf = plain_fileD(3,4) [OF assms(1)]
  show ?thesis
  proof (cases pc)
    case (Close_Append sk)
    with assms(4) show ?thesis
      by (cases "l = []") (auto simp: close_file_def fclose_append [where fs = "[]"] pf c line_written_def echoed_def)
  next
    case Close_File
    with assms(4) show ?thesis
      by (auto simp: close_file_def fclose_def cur_stream_def c line_written_def echoed_def)
  qed (use assms(4,5) in \<open>auto simp: b ctl c w snd pf append_to_file_spec appends_def line_written_def echoed_def Let_def\<close>)
qed

text \<open>The same for a firing of the timer.\<close>

fun timer_at :: "bytes \<Rightarrow> timer_point \<Rightarrow> 'd timer_out \<Rightarrow> bool" where
  "timer_at st Timer_Format t \<longleftrightarrow> tm_held t"
| "timer_at st (Timer_Unlock bs) t \<longleftrightarrow> tm_held t \<and> bs = st"
| "timer_at st (Timer_Close bs) t \<longleftrightarrow> \<not> tm_held t \<and> bs = st"
| "timer_at st _ t \<longleftrightarrow> \<not> tm_held t"

lemma timer_advances:
  assumes "plain_file api" "timer_runs env" "timer_at (stamp env) pt t" "pt \<noteq> Timer_Done"
  shows "\<exists>pt' t'. timer_step env api pt (t\<lparr>tm_dev := d\<rparr>) = Inr (pt', t') \<and> timer_at (stamp env) pt' t' \<and>
    tm_dev t' = (if pt' = Timer_Done then d @ stamp env else d) \<and> (tm_held t' \<and> \<not> tm_held t \<longrightarrow> pt = Timer_Lock)"
proof -
  from assms(2) have "tm_fopen_ok env" "tm_lock env = 0" "tm_unlock env = 0" "strftime_text env \<noteq> []"
    by (simp_all add: timer_runs_def)
  moreover note timer_text_stamp [OF assms(2)] plain_fileD(2) [OF assms(1) length_stamp [OF assms(2)]] plain_fileD(3) [OF assms(1)]
  ultimately show ?thesis using assms(3,4) by (cases pt) auto
qed

section \<open>The invariant of clients and timer\<close>

text \<open>
  \<open>W\<close> is the order in which the records reached the file: \<open>w\<close> is a client, or the firing \<open>w - N\<close> of the
  timer. What client \<open>i\<close> has been sent is the file up to its own line, with the time stamps directly after.
\<close>

definition echo_ok :: "nat \<Rightarrow> (nat \<Rightarrow> bytes) \<Rightarrow> bytes \<Rightarrow> nat list \<Rightarrow> nat \<Rightarrow> bool \<Rightarrow> bytes \<Rightarrow> bool" where
  "echo_ok N rec d W i done sent \<longleftrightarrow> (\<exists>vs ts ws. W = vs @ [i] @ ts @ ws \<and> set ts \<subseteq> {N..} \<and>
     (if done then sent = d @ concat (map rec (vs @ [i] @ ts)) else ws = []))"

lemma echo_ok_own: "echo_ok N rec d (W @ [i]) i False sent"
  unfolding echo_ok_def by (intro exI [of _ W] exI [of _ "[]"]) simp

lemma echo_ok_sent: "echo_ok N rec d W i False sent \<Longrightarrow> echo_ok N rec d W i True (d @ concat (map rec W))"
proof -
  assume "echo_ok N rec d W i False sent"
  then obtain vs ts where "W = vs @ [i] @ ts" "set ts \<subseteq> {N..}" by (auto simp: echo_ok_def)
  then show ?thesis unfolding echo_ok_def by (intro exI [of _ vs] exI [of _ ts] exI [of _ "[]"]) simp
qed

lemma echo_ok_more:
  assumes "echo_ok N rec d W i done sent" "done \<or> N \<le> j"
  shows "echo_ok N rec d (W @ [j]) i done sent"
proof -
  from assms(1) obtain vs ts ws where w: "W = vs @ [i] @ ts @ ws" "set ts \<subseteq> {N..}"
    "if done then sent = d @ concat (map rec (vs @ [i] @ ts)) else ws = []" by (auto simp: echo_ok_def)
  show ?thesis
  proof (cases "done")
    case True
    with w show ?thesis unfolding echo_ok_def by (intro exI [of _ vs] exI [of _ ts] exI [of _ "ws @ [j]"]) simp
  next
    case False
    with w assms(2) show ?thesis unfolding echo_ok_def by (intro exI [of _ vs] exI [of _ "ts @ [j]"] exI [of _ "[]"]) simp
  qed
qed

definition records :: "bytes list \<Rightarrow> timer_env list \<Rightarrow> nat \<Rightarrow> bytes" where
  "records ls tenvs w = (ls @ map stamp tenvs) ! w"

definition plain_inv :: "bytes list \<Rightarrow> timer_env list \<Rightarrow> bytes \<Rightarrow> nat list \<Rightarrow> bytes plain_sys \<Rightarrow> bool" where
  "plain_inv ls tenvs d0 W s \<longleftrightarrow>
     (let N = length ls; ths = c_threads (ps_conc s); tms = ps_timers s; ow = c_owner (ps_conc s) in
      length ths = N \<and> length tms = length tenvs \<and>
      (\<forall>i < N. client_at (ls ! i) (fst (ths ! i)) (snd (ths ! i))) \<and>
      (\<forall>k < length tenvs. timer_at (stamp (tenvs ! k)) (fst (tms ! k)) (snd (tms ! k))) \<and>
      (\<forall>i < N. mtx_held (snd (ths ! i)) \<longleftrightarrow> ow = Some i) \<and>
      (\<forall>k < length tenvs. tm_held (snd (tms ! k)) \<longleftrightarrow> ow = Some (N + k)) \<and>
      (\<forall>w. ow = Some w \<longrightarrow> w < N + length tenvs) \<and>
      distinct W \<and> set W = {i. i < N \<and> line_written (fst (ths ! i))} \<union> {N + k |k. k < length tenvs \<and> fst (tms ! k) = Timer_Done} \<and>
      c_dev (ps_conc s) = d0 @ concat (map (records ls tenvs) W) \<and>
      (\<forall>i < N. line_written (fst (ths ! i)) \<longrightarrow>
         echo_ok N (records ls tenvs) d0 W i (echoed (fst (ths ! i))) (t_sent (snd (ths ! i)))))"

lemma plain_invD:
  assumes "plain_inv ls tenvs d0 W s"
  shows "length (c_threads (ps_conc s)) = length ls" "length (ps_timers s) = length tenvs"
    "i < length ls \<Longrightarrow> c_threads (ps_conc s) ! i = (pc, x) \<Longrightarrow> client_at (ls ! i) pc x"
    "k < length tenvs \<Longrightarrow> ps_timers s ! k = (pt, t) \<Longrightarrow> timer_at (stamp (tenvs ! k)) pt t"
    "i < length ls \<Longrightarrow> c_threads (ps_conc s) ! i = (pc, x) \<Longrightarrow> mtx_held x \<longleftrightarrow> c_owner (ps_conc s) = Some i"
    "k < length tenvs \<Longrightarrow> ps_timers s ! k = (pt, t) \<Longrightarrow> tm_held t \<longleftrightarrow> c_owner (ps_conc s) = Some (length ls + k)"
    "c_owner (ps_conc s) = Some w \<Longrightarrow> w < length ls + length tenvs"
    "distinct W" "c_dev (ps_conc s) = d0 @ concat (map (records ls tenvs) W)"
    "set W = {i. i < length ls \<and> line_written (fst (c_threads (ps_conc s) ! i))} \<union>
       {length ls + k |k. k < length tenvs \<and> fst (ps_timers s ! k) = Timer_Done}"
    "i < length ls \<Longrightarrow> c_threads (ps_conc s) ! i = (pc, x) \<Longrightarrow> line_written pc \<Longrightarrow>
       echo_ok (length ls) (records ls tenvs) d0 W i (echoed pc) (t_sent x)"
proof -
  note inv = assms [unfolded plain_inv_def Let_def, THEN conjunct1]
    assms [unfolded plain_inv_def Let_def, THEN conjunct2, THEN conjunct1]
    assms [unfolded plain_inv_def Let_def, THEN conjunct2, THEN conjunct2]
  note c = inv(3) [THEN conjunct1, rule_format, of i]
    and t = inv(3) [THEN conjunct2, THEN conjunct1, rule_format, of k]
    and rest = inv(3) [THEN conjunct2, THEN conjunct2]
  note h = rest [THEN conjunct1, rule_format, of i] and th = rest [THEN conjunct2, THEN conjunct1, rule_format, of k]
    and rest = rest [THEN conjunct2, THEN conjunct2]
  show "length (c_threads (ps_conc s)) = length ls" "length (ps_timers s) = length tenvs" by (rule inv)+
  show "i < length ls \<Longrightarrow> c_threads (ps_conc s) ! i = (pc, x) \<Longrightarrow> client_at (ls ! i) pc x" using c by simp
  show "k < length tenvs \<Longrightarrow> ps_timers s ! k = (pt, t) \<Longrightarrow> timer_at (stamp (tenvs ! k)) pt t" using t by simp
  show "i < length ls \<Longrightarrow> c_threads (ps_conc s) ! i = (pc, x) \<Longrightarrow> mtx_held x \<longleftrightarrow> c_owner (ps_conc s) = Some i" using h by simp
  show "k < length tenvs \<Longrightarrow> ps_timers s ! k = (pt, t) \<Longrightarrow> tm_held t \<longleftrightarrow> c_owner (ps_conc s) = Some (length ls + k)" using th by simp
  show "c_owner (ps_conc s) = Some w \<Longrightarrow> w < length ls + length tenvs" "distinct W"
    "c_dev (ps_conc s) = d0 @ concat (map (records ls tenvs) W)"
    "set W = {i. i < length ls \<and> line_written (fst (c_threads (ps_conc s) ! i))} \<union>
       {length ls + k |k. k < length tenvs \<and> fst (ps_timers s ! k) = Timer_Done}" using rest by blast+
  show "i < length ls \<Longrightarrow> c_threads (ps_conc s) ! i = (pc, x) \<Longrightarrow> line_written pc \<Longrightarrow>
       echo_ok (length ls) (records ls tenvs) d0 W i (echoed pc) (t_sent x)"
    using rest [THEN conjunct2, THEN conjunct2, THEN conjunct2, THEN conjunct2, rule_format, of i] by simp
qed

text \<open>The parts of the assumptions on a run.\<close>

definition plain_run :: "bytes out_file \<Rightarrow> nat \<Rightarrow> nat \<Rightarrow> (thread_env \<times> aesd_thread_args) list \<Rightarrow> bytes list \<Rightarrow> timer_env list \<Rightarrow> bytes \<Rightarrow> bool" where
  "plain_run api n m cs ls tenvs d0 \<longleftrightarrow> plain_file api \<and> list_all2 (\<lambda>c l. file_client n m (fst c) l) cs ls \<and> m < 4096 \<and>
     (\<forall>t \<in> set tenvs. timer_runs t) \<and> length (d0 @ concat ls @ concat (map stamp tenvs)) \<le> n \<and> n < 2 ^ 63"

lemma plain_runD:
  assumes "plain_run api n m cs ls tenvs d0"
  shows "plain_file api" "length cs = length ls" "i < length ls \<Longrightarrow> file_client n m (fst (cs ! i)) (ls ! i)" "m < 4096"
    "k < length tenvs \<Longrightarrow> timer_runs (tenvs ! k)" "n < 2 ^ 63"
  using assms by (auto simp: plain_run_def list_all2_conv_all_nth)

lemma plain_inv_short:
  assumes "plain_run api n m cs ls tenvs d0" "plain_inv ls tenvs d0 W s"
  shows "length (c_dev (ps_conc s)) \<le> n"
proof -
  let ?xs = "ls @ map stamp tenvs"
  have "set W \<subseteq> {..<length ?xs}" using plain_invD(10) [OF assms(2)] by auto
  from length_concat_part [OF plain_invD(8) [OF assms(2)] this]
  have "length (concat (map (records ls tenvs) W)) \<le> length (concat ?xs)" by (simp add: records_def [abs_def])
  with assms(1) show ?thesis by (simp add: plain_invD(9) [OF assms(2)] plain_run_def)
qed

lemma plain_inv_start:
  assumes "length cs = length ls"
  shows "plain_inv ls tenvs d0 [] (plain_start cs tenvs d0)"
  using assms
  by (auto simp: plain_inv_def plain_start_def conc_start_def timer_start_def thread_start_def Let_def line_written_def split: prod.split)

lemma next_owner_held:
  assumes "mtx_held s \<longleftrightarrow> ow = Some i" "mtx_held s' \<and> \<not> mtx_held s \<longrightarrow> ow = None"
  shows "mtx_held s' \<longleftrightarrow> next_owner i s s' ow = Some i" "j \<noteq> i \<Longrightarrow> next_owner i s s' ow = Some j \<longleftrightarrow> ow = Some j"
  using assms by (auto simp: next_owner_def)

lemma timer_owner_held:
  assumes "tm_held t \<longleftrightarrow> ow = Some i" "tm_held t' \<and> \<not> tm_held t \<longrightarrow> ow = None"
  shows "tm_held t' \<longleftrightarrow> timer_owner i t t' ow = Some i" "j \<noteq> i \<Longrightarrow> timer_owner i t t' ow = Some j \<longleftrightarrow> ow = Some j"
  using assms by (auto simp: timer_owner_def)

lemma plain_inv_client:
  assumes run: "plain_run api n m cs ls tenvs d0" and inv: "plain_inv ls tenvs d0 W s" and step: "conc_step api cs (ps_conc s) c'"
  shows "\<exists>W'. plain_inv ls tenvs d0 W' (s\<lparr>ps_conc := c'\<rparr>)"
  using step
proof (cases rule: conc_step.cases)
  case (thread_moves i pc x pc' x')
  note r = plain_runD [OF run] and v = plain_invD [OF inv]
  let ?N = "length ls" and ?c = "ps_conc s" and ?rec = "records ls tenvs"
  have i: "i < ?N" using thread_moves(2) v(1) by simp
  have adv: "client_at (ls ! i) pc' x'" "t_dev x' = (if at_close pc then c_dev ?c @ ls ! i else c_dev ?c)"
    "line_written pc' \<longleftrightarrow> line_written pc \<or> at_close pc" "echoed pc' \<longrightarrow> echoed pc \<or> line_written pc"
    "t_sent x' = (if echoed pc' \<and> \<not> echoed pc then c_dev ?c else t_sent x)"
    "mtx_held x' \<and> \<not> mtx_held x \<longrightarrow> takes_mutex (fst (cs ! i)) pc"
    using client_advances [OF r(1) r(3) [OF i] r(4) v(3) [OF i thread_moves(3)] thread_moves(4)
        plain_inv_short [OF run inv] r(6)] thread_moves(6) by auto
  have own: "mtx_held x' \<longleftrightarrow> c_owner c' = Some i" "\<And>j. j \<noteq> i \<Longrightarrow> c_owner c' = Some j \<longleftrightarrow> c_owner ?c = Some j"
    using next_owner_held [OF v(5) [OF i thread_moves(3)]] adv(6) thread_moves(5) by (auto simp: thread_moves(1))
  define W' where "W' = (if at_close pc then W @ [i] else W)"
  have nw: "at_close pc \<Longrightarrow> \<not> line_written pc \<and> \<not> echoed pc' \<and> in_critical pc" using adv(3,4)
    by (cases pc) (auto simp: line_written_def echoed_def)
  have echo: "echo_ok ?N ?rec d0 W' j (echoed pcj) (t_sent xj)"
    if j: "j < ?N" "(c_threads ?c)[i := (pc', x')] ! j = (pcj, xj)" "line_written pcj" for j pcj xj
  proof (cases "j = i")
    case True
    then have p: "pcj = pc'" "xj = x'" using j(2) i v(1) by simp_all
    show ?thesis
    proof (cases "at_close pc")
      case True
      with nw p \<open>j = i\<close> echo_ok_own show ?thesis by (simp add: W'_def)
    next
      case False
      with adv(3) p j(3) have "echo_ok ?N ?rec d0 W i (echoed pc) (t_sent x)" using v(11) [OF i thread_moves(3)] by simp
      with False adv(5) p True echo_ok_sent [of ?N ?rec d0 W i "t_sent x"] show ?thesis
        using thread_step_left [OF thread_moves(6,4)] by (cases "echoed pc"; cases "echoed pc'") (auto simp: W'_def v(9) echoed_def)
    qed
  next
    case False
    then have t: "c_threads ?c ! j = (pcj, xj)" using j(2) by simp
    note e = v(11) [OF j(1) t j(3)]
    have "at_close pc \<Longrightarrow> echoed pcj"
      using nw echoing_critical [OF j(3)] client_at_held [OF v(3) [OF j(1) t]] v(5) [OF j(1) t] False
        client_at_held [OF v(3) [OF i thread_moves(3)]] v(5) [OF i thread_moves(3)] by auto
    with e echo_ok_more [OF e, of i] show ?thesis by (cases "at_close pc") (simp_all add: W'_def)
  qed
  have "distinct W'" using v(8,10) nw i thread_moves(3) by (auto simp: W'_def)
  moreover have "set W' = {j. j < ?N \<and> line_written (fst ((c_threads ?c)[i := (pc', x')] ! j))} \<union>
      {?N + k |k. k < length tenvs \<and> fst (ps_timers s ! k) = Timer_Done}"
    using v(1,10) i adv(3) thread_moves(3) by (auto simp: W'_def nth_list_update split: if_splits)
  moreover have "t_dev x' = d0 @ concat (map ?rec W')" using adv(2) i by (simp add: W'_def v(9) records_def nth_append)
  moreover have ths: "c_threads c' = (c_threads ?c)[i := (pc', x')]" "c_dev c' = t_dev x'" by (simp_all add: thread_moves(1))
  moreover have "client_at (ls ! j) (fst (c_threads c' ! j)) (snd (c_threads c' ! j)) \<and>
      (mtx_held (snd (c_threads c' ! j)) \<longleftrightarrow> c_owner c' = Some j)" if "j < ?N" for j
  proof (cases "j = i")
    case True
    with own(1) adv(1) i v(1) show ?thesis by (simp add: ths)
  next
    case False
    obtain pcj xj where t: "c_threads ?c ! j = (pcj, xj)" by (cases "c_threads ?c ! j")
    with v(3,5) [OF that t] own(2) [OF False] False show ?thesis by (simp add: ths)
  qed
  moreover have "timer_at (stamp (tenvs ! k)) (fst (ps_timers s ! k)) (snd (ps_timers s ! k)) \<and>
      (tm_held (snd (ps_timers s ! k)) \<longleftrightarrow> c_owner c' = Some (?N + k))" if "k < length tenvs" for k
  proof -
    obtain pt t where t: "ps_timers s ! k = (pt, t)" by (cases "ps_timers s ! k")
    with v(4,6) [OF that t] own(2) [of "?N + k"] i show ?thesis by simp
  qed
  moreover have "w < ?N + length tenvs" if "c_owner c' = Some w" for w using that own(2) [of w] v(7) [of w] i by (cases "w = i") auto
  moreover have "echo_ok ?N ?rec d0 W' j (echoed (fst (c_threads c' ! j))) (t_sent (snd (c_threads c' ! j)))"
    if "j < ?N" "line_written (fst (c_threads c' ! j))" for j using echo [OF that(1)] that(2) by (cases "c_threads c' ! j") (simp add: ths)
  ultimately have "plain_inv ls tenvs d0 W' (s\<lparr>ps_conc := c'\<rparr>)"
    unfolding plain_inv_def Let_def using v(1,2) by simp
  then show ?thesis by blast
qed

lemma plain_inv_timer:
  assumes run: "plain_run api n m cs ls tenvs d0" and inv: "plain_inv ls tenvs d0 W s"
    and k: "k < length (ps_timers s)" "ps_timers s ! k = (pt, t)" "pt \<noteq> Timer_Done"
    and free: "pt = Timer_Lock \<and> tm_lock (tenvs ! k) = 0 \<longrightarrow> c_owner (ps_conc s) = None"
    and step: "timer_step (tenvs ! k) api pt (t\<lparr>tm_dev := c_dev (ps_conc s)\<rparr>) = Inr (pt', t')"
  shows "\<exists>W'. plain_inv ls tenvs d0 W' \<lparr>ps_conc = (ps_conc s)\<lparr>c_dev := tm_dev t',
      c_owner := timer_owner (length ls + k) t t' (c_owner (ps_conc s))\<rparr>, ps_timers = (ps_timers s)[k := (pt', t')]\<rparr>"
proof -
  note r = plain_runD [OF run] and v = plain_invD [OF inv]
  let ?N = "length ls" and ?c = "ps_conc s" and ?rec = "records ls tenvs" and ?tms = "(ps_timers s)[k := (pt', t')]"
    and ?ow = "timer_owner (length ls + k) t t' (c_owner (ps_conc s))"
  have kl: "k < length tenvs" using k(1) v(2) by simp
  have adv: "timer_at (stamp (tenvs ! k)) pt' t'" "tm_dev t' = (if pt' = Timer_Done then c_dev ?c @ stamp (tenvs ! k) else c_dev ?c)"
    "tm_held t' \<and> \<not> tm_held t \<longrightarrow> pt = Timer_Lock"
    using timer_advances [OF r(1) r(5) [OF kl] v(4) [OF kl k(2)] k(3), of "c_dev ?c"] step by auto
  have "tm_lock (tenvs ! k) = 0" using r(5) [OF kl] by (simp add: timer_runs_def)
  with free adv(3) have own: "tm_held t' \<longleftrightarrow> ?ow = Some (?N + k)" "\<And>j. j \<noteq> ?N + k \<Longrightarrow> ?ow = Some j \<longleftrightarrow> c_owner ?c = Some j"
    using timer_owner_held [OF v(6) [OF kl k(2)]] by auto
  define W' where "W' = (if pt' = Timer_Done then W @ [?N + k] else W)"
  have "distinct W'" using v(8,10) k(2,3) by (auto simp: W'_def)
  moreover have "set W' = {i. i < ?N \<and> line_written (fst (c_threads ?c ! i))} \<union> {?N + k |k. k < length tenvs \<and> fst (?tms ! k) = Timer_Done}"
    using v(2,10) kl k(2,3) by (auto simp: W'_def nth_list_update split: if_splits) (metis fst_conv)+
  moreover have "tm_dev t' = d0 @ concat (map ?rec W')" using adv(2) kl by (simp add: W'_def v(9) records_def nth_append)
  moreover have "client_at (ls ! i) (fst (c_threads ?c ! i)) (snd (c_threads ?c ! i)) \<and>
      (mtx_held (snd (c_threads ?c ! i)) \<longleftrightarrow> ?ow = Some i)" if "i < ?N" for i
    using v(3,5) [OF that, of "fst (c_threads ?c ! i)" "snd (c_threads ?c ! i)"] own(2) [of i] that by simp
  moreover have "timer_at (stamp (tenvs ! j)) (fst (?tms ! j)) (snd (?tms ! j)) \<and> (tm_held (snd (?tms ! j)) \<longleftrightarrow> ?ow = Some (?N + j))"
    if "j < length tenvs" for j
    using v(4,6) [OF that, of "fst (ps_timers s ! j)" "snd (ps_timers s ! j)"] own(1) own(2) [of "?N + j"] adv(1) k(1)
    by (cases "j = k") simp_all
  moreover have "w < ?N + length tenvs" if "?ow = Some w" for w using that own(2) [of w] v(7) [of w] kl by (cases "w = ?N + k") auto
  moreover have "echo_ok ?N ?rec d0 W' i (echoed (fst (c_threads ?c ! i))) (t_sent (snd (c_threads ?c ! i)))"
    if "i < ?N" "line_written (fst (c_threads ?c ! i))" for i
    using v(11) [OF that(1) _ that(2), of "snd (c_threads ?c ! i)"] echo_ok_more [of ?N ?rec d0 W i _ _ "?N + k"] by (simp add: W'_def)
  ultimately have "plain_inv ls tenvs d0 W' \<lparr>ps_conc = ?c\<lparr>c_dev := tm_dev t', c_owner := ?ow\<rparr>, ps_timers = ?tms\<rparr>"
    unfolding plain_inv_def Let_def using v(1,2) by simp
  then show ?thesis by blast
qed

lemma plain_inv_reach:
  assumes "plain_run api n m cs ls tenvs d0" "(plain_step api cs tenvs)\<^sup>*\<^sup>* (plain_start cs tenvs d0) s"
  shows "\<exists>W. plain_inv ls tenvs d0 W s"
  using assms(2)
proof (induction rule: rtranclp_induct)
  case base
  then show ?case using plain_inv_start [OF plain_runD(2) [OF assms(1)]] by blast
next
  case (step s s')
  then obtain W where W: "plain_inv ls tenvs d0 W s" by blast
  from step.hyps(2) show ?case
  proof (cases rule: plain_step.cases)
    case (client_moves c')
    with plain_inv_client [OF assms(1) W] show ?thesis by blast
  next
    case (timer_moves k pt t pt' t')
    with plain_inv_timer [OF assms(1) W timer_moves(2-6)] plain_runD(2) [OF assms(1)] show ?thesis by simp
  qed
qed

text \<open>The thread that holds the mutex can go on; if none does, every thread that has not ended can.\<close>

lemma client_can_step:
  assumes "plain_run api n m cs ls tenvs d0" "plain_inv ls tenvs d0 W s" "i < length ls" "c_threads (ps_conc s) ! i = (pc, x)" "pc \<noteq> Returned"
    "takes_mutex (fst (cs ! i)) pc \<longrightarrow> c_owner (ps_conc s) = None"
  shows "\<exists>s'. plain_step api cs tenvs s s'"
proof -
  note r = plain_runD [OF assms(1)] and v = plain_invD [OF assms(2)]
  obtain pc' x' where "thread_step (fst (cs ! i)) api pc (x\<lparr>t_dev := c_dev (ps_conc s)\<rparr>) = Some (Inr (pc', x'))"
    using client_advances [OF r(1) r(3) [OF assms(3)] r(4) v(3) [OF assms(3,4)] assms(5) plain_inv_short [OF assms(1,2)] r(6)] by blast
  from thread_moves [OF _ assms(4-6) this] assms(3) v(1) show ?thesis by (auto intro: client_moves)
qed

lemma timer_can_step:
  assumes "plain_run api n m cs ls tenvs d0" "plain_inv ls tenvs d0 W s" "k < length tenvs" "ps_timers s ! k = (pt, t)" "pt \<noteq> Timer_Done"
    "pt = Timer_Lock \<longrightarrow> c_owner (ps_conc s) = None"
  shows "\<exists>s'. plain_step api cs tenvs s s'"
proof -
  note r = plain_runD [OF assms(1)] and v = plain_invD [OF assms(2)]
  obtain pt' t' where "timer_step (tenvs ! k) api pt (t\<lparr>tm_dev := c_dev (ps_conc s)\<rparr>) = Inr (pt', t')"
    using timer_advances [OF r(1) r(5) [OF assms(3)] v(4) [OF assms(3,4)] assms(5)] by blast
  from timer_moves [OF _ assms(4,5) _ this] assms(3,6) v(2) show ?thesis by auto
qed

lemma plain_not_stuck:
  assumes "plain_run api n m cs ls tenvs d0" "plain_inv ls tenvs d0 W s" "\<nexists>s'. plain_step api cs tenvs s s'"
  shows "i < length ls \<Longrightarrow> fst (c_threads (ps_conc s) ! i) = Returned" "k < length tenvs \<Longrightarrow> fst (ps_timers s ! k) = Timer_Done"
proof -
  note v = plain_invD [OF assms(2)]
  have free: "c_owner (ps_conc s) = None"
  proof (rule ccontr)
    assume "c_owner (ps_conc s) \<noteq> None"
    then obtain w where w: "c_owner (ps_conc s) = Some w" by blast
    show False
    proof (cases "w < length ls")
      case True
      obtain pc x where t: "c_threads (ps_conc s) ! w = (pc, x)" by (cases "c_threads (ps_conc s) ! w")
      have "in_critical pc" using client_at_held [OF v(3) [OF True t]] v(5) [OF True t] w by simp
      then have "pc \<noteq> Returned" "\<not> takes_mutex (fst (cs ! w)) pc" by (cases pc; simp)+
      with client_can_step [OF assms(1,2) True t] assms(3) show False by blast
    next
      case False
      then obtain k where k: "w = length ls + k" "k < length tenvs" using v(7) [OF w] by (metis le_Suc_ex not_less nat_add_left_cancel_less)
      obtain pt t where t: "ps_timers s ! k = (pt, t)" by (cases "ps_timers s ! k")
      have "tm_held t" using v(6) [OF k(2) t] w k(1) by simp
      then have "pt \<noteq> Timer_Done" "pt \<noteq> Timer_Lock" using v(4) [OF k(2) t] by (cases pt; simp)+
      with timer_can_step [OF assms(1,2) k(2) t] assms(3) show False by blast
    qed
  qed
  show "i < length ls \<Longrightarrow> fst (c_threads (ps_conc s) ! i) = Returned"
    using client_can_step [OF assms(1,2), of i] assms(3) free by (metis prod.collapse)
  show "k < length tenvs \<Longrightarrow> fst (ps_timers s ! k) = Timer_Done"
    using timer_can_step [OF assms(1,2), of k] assms(3) free by (metis prod.collapse)
qed

text \<open>Every step brings a thread nearer to its end.\<close>

fun timer_left :: "timer_point \<Rightarrow> nat" where
  "timer_left Timer_Open = 5"
| "timer_left Timer_Lock = 4"
| "timer_left Timer_Format = 3"
| "timer_left (Timer_Unlock _) = 2"
| "timer_left (Timer_Close _) = 1"
| "timer_left Timer_Done = 0"

definition plain_left :: "'d plain_sys \<Rightarrow> nat" where
  "plain_left s = remaining (ps_conc s) + sum_list (map (timer_left \<circ> fst) (ps_timers s))"

lemma timer_step_left: "timer_step env api pt t = Inr (pt', t') \<Longrightarrow> pt \<noteq> Timer_Done \<Longrightarrow> timer_left pt' < timer_left pt"
  by (cases pt) (auto simp: ebind_eq_Inr split: if_splits)

lemma plain_left_step:
  assumes "plain_step api cs tenvs s s'"
  shows "plain_left s' < plain_left s"
  using assms
proof (cases rule: plain_step.cases)
  case (client_moves c')
  with remaining_step show ?thesis by (fastforce simp: plain_left_def)
next
  case (timer_moves k pt t pt' t')
  let ?xs = "map (timer_left \<circ> fst) (ps_timers s)"
  have "?xs ! k = timer_left pt" "k < length ?xs" using timer_moves by simp_all
  moreover have "map (timer_left \<circ> fst) (ps_timers s') = ?xs[k := timer_left pt']"
    using timer_moves(1) by (simp add: map_update)
  moreover have "?xs ! k \<le> sum_list ?xs" using timer_moves(2) by (intro member_le_sum_list) auto
  moreover have "remaining (ps_conc s') = remaining (ps_conc s)" by (simp add: timer_moves(1) remaining_def)
  ultimately show ?thesis
    using timer_step_left [OF timer_moves(6,4)] by (simp add: plain_left_def sum_list_update del: map_map nth_map)
qed

lemma plain_run_left: "(plain_step api cs tenvs ^^ j) s0 s \<Longrightarrow> j + plain_left s \<le> plain_left s0"
proof (induction j arbitrary: s)
  case (Suc j)
  then obtain s1 where "(plain_step api cs tenvs ^^ j) s0 s1" "plain_step api cs tenvs s1 s" by auto
  with Suc.IH plain_left_step show ?case by fastforce
qed simp

lemma plain_left_start: "plain_left (plain_start cs tenvs d) = 12 * length cs + 5 * length tenvs"
  by (simp add: plain_left_def plain_start_def timer_start_def comp_def sum_list_triv)

section \<open>Properties\<close>

text \<open>
  C35: The build without the character device, with its timer going off any number of times at any moments:
  every schedule of the client threads and the firings ends, after at most 12 steps of each client and 5 of
  each firing, and only when all clients are served and all time stamps written. The file then holds what it
  held before and each client's line and each time stamp, whole and exactly once, in some order; every
  client received the file up to and including its own line, followed at most by time stamps (lines
  shorter than the buffer of a stream, so that one write carries them).
\<close>

theorem plain_build_serves_clients:
  assumes "plain_file api" "list_all2 (\<lambda>c l. file_client n m (fst c) l) cs ls" "m < 4096" "\<forall>t \<in> set tenvs. timer_runs t"
    "length (d @ concat ls @ concat (map stamp tenvs)) \<le> n" "n < 2 ^ 63"
    and steps: "(plain_step api cs tenvs ^^ j) (plain_start cs tenvs d) s"
  shows "j \<le> 12 * length cs + 5 * length tenvs \<and> ((\<exists>s'. plain_step api cs tenvs s s') \<or>
    all_returned (ps_conc s) \<and> (\<forall>k < length tenvs. fst (ps_timers s ! k) = Timer_Done) \<and>
    (\<exists>W. distinct W \<and> set W = {..<length cs + length tenvs} \<and>
      c_dev (ps_conc s) = d @ concat (map ((!) (ls @ map stamp tenvs)) W) \<and>
      (\<forall>i < length cs. \<exists>vs ts ws. W = vs @ [i] @ ts @ ws \<and> set ts \<subseteq> {length cs..} \<and>
         sent_to (ps_conc s) i = d @ concat (map ((!) (ls @ map stamp tenvs)) (vs @ [i] @ ts)))))"
proof -
  have run: "plain_run api n m cs ls tenvs d" using assms by (simp add: plain_run_def)
  note r = plain_runD(2) [OF run]
  have "j + plain_left s \<le> 12 * length cs + 5 * length tenvs" using plain_run_left [OF steps] by (simp add: plain_left_start)
  moreover obtain W where inv: "plain_inv ls tenvs d W s" using plain_inv_reach [OF run relpowp_imp_rtranclp [OF steps]] by blast
  note v = plain_invD [OF inv]
  have rec: "records ls tenvs = (!) (ls @ map stamp tenvs)" by (simp add: fun_eq_iff records_def)
  have "all_returned (ps_conc s) \<and> (\<forall>k < length tenvs. fst (ps_timers s ! k) = Timer_Done) \<and>
    (\<exists>W. distinct W \<and> set W = {..<length cs + length tenvs} \<and>
      c_dev (ps_conc s) = d @ concat (map ((!) (ls @ map stamp tenvs)) W) \<and>
      (\<forall>i < length cs. \<exists>vs ts ws. W = vs @ [i] @ ts @ ws \<and> set ts \<subseteq> {length cs..} \<and>
         sent_to (ps_conc s) i = d @ concat (map ((!) (ls @ map stamp tenvs)) (vs @ [i] @ ts))))"
    if stop: "\<nexists>s'. plain_step api cs tenvs s s'"
  proof -
    note e = plain_not_stuck [OF run inv stop]
    have "set W = {..<length cs + length tenvs}"
    proof (intro set_eqI iffI)
      fix w assume w: "w \<in> {..<length cs + length tenvs}"
      show "w \<in> set W"
      proof (cases "w < length ls")
        case False
        then have "w = length ls + (w - length ls)" "w - length ls < length tenvs" using w r by auto
        with e(2) show ?thesis unfolding v(10) by blast
      qed (use e(1) v(10) in \<open>auto simp: line_written_def\<close>)
    qed (use v(10) r in auto)
    moreover have "\<exists>vs ts ws. W = vs @ [i] @ ts @ ws \<and> set ts \<subseteq> {length cs..} \<and>
         sent_to (ps_conc s) i = d @ concat (map ((!) (ls @ map stamp tenvs)) (vs @ [i] @ ts))" if "i < length cs" for i
      using v(11) [of i Returned "snd (c_threads (ps_conc s) ! i)"] e(1) [of i] that r
      by (auto simp: prod_eq_iff line_written_def echoed_def echo_ok_def sent_to_def rec)
    moreover have "all_returned (ps_conc s)" using e(1) v(1) by (metis all_returned_def in_set_conv_nth)
    ultimately show ?thesis using e(2) v(8,9) by (auto simp: rec)
  qed
  ultimately show ?thesis by (meson add_leD1)
qed

definition ex_fenv :: thread_env where
  "ex_fenv = ex_tenv\<lparr>use_char_device := False\<rparr>"

lemma ex_fenv_client: "file_client 99 2 ex_fenv (''y'' @ [newline])"
  using ex_tenv_ok ex_tenv_line
  by (auto simp: file_client_def ex_fenv_def all_calls_succeed_def client_line_def) (simp_all add: ex_tenv_def)

lemma ex_store_plain: "plain_file ex_store"
  by (auto simp: plain_file_def ex_store_def intro!: exI [of _ "\<lambda>_. 0"])

definition ex_timer :: timer_env where
  "ex_timer = \<lparr>tm_fopen_ok = True, tm_lock = 0, strftime_text = ''12:00'', tm_stack = replicate 200 nul, tm_unlock = 0\<rparr>"

lemma ex_timer_runs: "timer_runs ex_timer" "stamp ex_timer = ''12:0'' @ [newline]"
  by (simp_all add: ex_timer_def timer_runs_def stamp_def)

lemma plain_completes: "\<exists>j s'. (plain_step api cs tenvs ^^ j) s s' \<and> (\<nexists>s''. plain_step api cs tenvs s' s'')"
proof (induction "plain_left s" arbitrary: s rule: less_induct)
  case less
  show ?case
  proof (cases "\<exists>s1. plain_step api cs tenvs s s1")
    case True
    then obtain s1 where s1: "plain_step api cs tenvs s s1" by blast
    from less [OF plain_left_step [OF s1]] obtain j s' where "(plain_step api cs tenvs ^^ j) s1 s'" "\<nexists>s''. plain_step api cs tenvs s' s''"
      by blast
    with relpowp_Suc_I2 [where P = "plain_step api cs tenvs", OF s1] show ?thesis by blast
  next
    case False
    then show ?thesis by (intro exI [of _ "0::nat"] exI [of _ s]) simp
  qed
qed

theorem plain_build_serves_clients_witness:
  "\<exists>j s W. (plain_step ex_store (replicate 2 (ex_fenv, ex_args)) [ex_timer] ^^ j)
       (plain_start (replicate 2 (ex_fenv, ex_args)) [ex_timer] ''x'') s \<and> j \<le> 29 \<and>
     distinct W \<and> set W = {..<3} \<and>
     c_dev (ps_conc s) = ''x'' @ concat (map ((!) [''y'' @ [newline], ''y'' @ [newline], ''12:0'' @ [newline]]) W)"
proof -
  let ?cs = "replicate 2 (ex_fenv, ex_args)" and ?ls = "replicate 2 (''y'' @ [newline])"
  obtain j s where s: "(plain_step ex_store ?cs [ex_timer] ^^ j) (plain_start ?cs [ex_timer] ''x'') s"
    "\<nexists>s'. plain_step ex_store ?cs [ex_timer] s s'" using plain_completes by blast
  have "list_all2 (\<lambda>c l. file_client 99 2 (fst c) l) ?cs ?ls" using ex_fenv_client by (simp add: list_all2_conv_all_nth)
  moreover have "length (''x'' @ concat ?ls @ concat (map stamp [ex_timer])) \<le> 99"
    by (simp add: ex_timer_runs numeral_2_eq_2)
  ultimately have "j \<le> 12 * length ?cs + 5 * length [ex_timer]" "\<exists>W. distinct W \<and> set W = {..<length ?cs + length [ex_timer]} \<and>
      c_dev (ps_conc s) = ''x'' @ concat (map ((!) (?ls @ map stamp [ex_timer])) W)"
    using plain_build_serves_clients [OF ex_store_plain _ _ _ _ _ s(1), of 99 2 ?ls] s(2) ex_timer_runs(1) by auto
  then obtain W where W: "j \<le> 29" "distinct W" "set W = {..<3}" "c_dev (ps_conc s) = ''x'' @ concat (map ((!) (?ls @ map stamp [ex_timer])) W)"
    by (auto simp: numeral_3_eq_3)
  have "?ls @ map stamp [ex_timer] = [''y'' @ [newline], ''y'' @ [newline], ''12:0'' @ [newline]]"
    by (simp add: ex_timer_runs numeral_2_eq_2)
  with W s(1) show ?thesis by metis
qed

text \<open>
  C36: The timer is not excluded: it unlocks the mutex before \<open>fclose\<close> writes its line to the file, so the
  time stamp can reach the file between a client's line and the client's reading it back. The
  run ends with the client having received the old contents, its own line and then the time
  stamp, which no order of the two threads one after the other explains: those give it the
  time stamp before its line, or not at all.
\<close>

theorem timer_writes_outside_lock:
  assumes "plain_file api" "file_client n m env l" "timer_runs tenv" "length (d @ l @ stamp tenv) \<le> n" "n < 2 ^ 63"
  shows "(\<exists>s. (plain_step api [(env, args)] [tenv])\<^sup>*\<^sup>* (plain_start [(env, args)] [tenv] d) s \<and> all_returned (ps_conc s) \<and>
      map fst (ps_timers s) = [Timer_Done] \<and> sent_to (ps_conc s) 0 = d @ l @ stamp tenv) \<and>
    (\<exists>s1. sock_thread_func env api args d = Some (Inr s1) \<and> t_sent s1 = d @ l) \<and>
    (\<exists>s2. sock_thread_func env api args (d @ stamp tenv) = Some (Inr s2) \<and> t_sent s2 = d @ stamp tenv @ l)"
proof (intro conjI)
  show "\<exists>s1. sock_thread_func env api args d = Some (Inr s1) \<and> t_sent s1 = d @ l"
    using file_client_served [OF assms(1,2) _ assms(5), of d args] assms(4) by auto
  show "\<exists>s2. sock_thread_func env api args (d @ stamp tenv) = Some (Inr s2) \<and> t_sent s2 = d @ stamp tenv @ l"
    using file_client_served [OF assms(1,2) _ assms(5), of "d @ stamp tenv" args] assms(4) by auto
  from assms(2) have fc: "all_calls_succeed env" "n \<le> length (client_sends env)" by (simp_all add: file_client_def)
  have pf: "of_contents api 0 y = Some y" for y using plain_fileD(4) [OF assms(1)] by simp
  let ?s = "(client_appended args (d @ l))\<lparr>t_dev := d @ l @ stamp tenv\<rparr>"
    and ?r = "(plain_step api [(env, args)] [tenv])\<^sup>*\<^sup>* (plain_start [(env, args)] [tenv] d)"
  obtain sk os t where run: "?r \<lparr>ps_conc = \<lparr>c_threads = [(Open_Read False sk, client_appended args (d @ l))],
      c_dev = d @ l @ stamp tenv, c_owner = Some 0, c_order = os\<rparr>, ps_timers = [(Timer_Done, t)]\<rparr>"
    using stamp_between [OF assms(1-3)] by blast
  have "\<exists>s'. echo_file env api False sk ?s = Some (Inr s') \<and> released s' \<and> \<not> mtx_held s' \<and>
      t_dev s' = t_dev ?s \<and>
      t_sent s' = t_sent ?s @ (d @ l @ stamp tenv) \<and> last_error (t_args s') = 0"
    by (rule echo_file_ok [OF fc(1), where pos = 0]) (use assms(4,5) fc(2) in \<open>simp_all add: pf client_appended_def\<close>)
  then obtain s' where s': "echo_file env api False sk ?s = Some (Inr s')"
    "t_sent s' = d @ l @ stamp tenv" by (auto simp: client_appended_def)
  have "thread_steps 7 env api (Open_Read False sk) ?s = Some (Inr (Returned, s'))"
    using finish_Open_Read [of env api False sk ?s] s'(1) by (simp add: finish_def)
  from client_finishes [OF this _ run] s'(2)
  show "\<exists>s. ?r s \<and> all_returned (ps_conc s) \<and> map fst (ps_timers s) = [Timer_Done] \<and> sent_to (ps_conc s) 0 = d @ l @ stamp tenv"
    by (auto simp: all_returned_def sent_to_def)
qed

theorem timer_writes_outside_lock_witness:
  "\<exists>s. (plain_step ex_store [(ex_fenv, ex_args)] [ex_timer])\<^sup>*\<^sup>* (plain_start [(ex_fenv, ex_args)] [ex_timer] []) s \<and>
    sent_to (ps_conc s) 0 = ''y'' @ [newline] @ ''12:0'' @ [newline]"
  using timer_writes_outside_lock [OF ex_store_plain ex_fenv_client ex_timer_runs(1), of "[]" ex_args] by (auto simp: ex_timer_runs(2))

end
