(* ===== verification/Slist_More.thy ===== *)
theory Slist_More
  imports Slist
begin

text \<open>
  The rest of the \<open>SLIST\<close> family of \<open>server/queue.h\<close>: the loops, insertion after an element,
  concatenation, exchange, and removal through the address of the link that points to the
  element. An address of a link is a value of \<open>link_loc\<close>: the head's field or the field of a
  node. Two lists share one heap; the macros on them take the two heads.

  The macros are shown to do on the represented lists what their names say, and removal
  through the address of the link to be the same as \<open>SLIST_REMOVE\<close>.
\<close>

section \<open>The macros\<close>

definition SLIST_INSERT_AFTER :: "args_heap \<Rightarrow> ptr \<Rightarrow> ptr \<Rightarrow> fault + args_heap" where
  "SLIST_INSERT_AFTER h slistelm elm =
     ebind (SLIST_NEXT h slistelm) (\<lambda>n. ebind (set_next h elm n) (\<lambda>h1. set_next h1 slistelm elm))"

definition SLIST_SWAP :: "thread_args_head \<Rightarrow> thread_args_head \<Rightarrow> thread_args_head \<times> thread_args_head" where
  "SLIST_SWAP head1 head2 =
     (let swap_first = slh_first head1;
          head1' = head1\<lparr>slh_first := slh_first head2\<rparr>
      in (head1', head2\<lparr>slh_first := swap_first\<rparr>))"

text \<open>The loop of \<open>SLIST_CONCAT\<close> that looks for the last element.\<close>

partial_function (option) slist_last :: "args_heap \<Rightarrow> ptr \<Rightarrow> (fault + ptr) option" where
  "slist_last h curelm =
     (case SLIST_NEXT h curelm of Inl e \<Rightarrow> Some (Inl e)
      | Inr n \<Rightarrow> if n \<noteq> NULL then slist_last h n else Some (Inr curelm))"

definition SLIST_CONCAT ::
  "args_heap \<Rightarrow> thread_args_head \<Rightarrow> thread_args_head \<Rightarrow>
     (fault + args_heap \<times> thread_args_head \<times> thread_args_head) option" where
  "SLIST_CONCAT h head1 head2 =
     (if slh_first head1 = NULL then
        Some (Inr (h, \<lparr>slh_first = slh_first head2\<rparr>, if slh_first head2 \<noteq> NULL then \<lparr>slh_first = NULL\<rparr> else head2))
      else if slh_first head2 \<noteq> NULL then
        map_option (\<lambda>r. ebind r (\<lambda>curelm. ebind (set_next h curelm (slh_first head2)) (\<lambda>h'.
            Inr (h', head1, \<lparr>slh_first = NULL\<rparr>))))
          (slist_last h (slh_first head1))
      else Some (Inr (h, head1, head2)))"

text \<open>
  The loops, with a body that maps a state and the element visited to a new state. \<open>SLIST_FOREACH\<close>
  follows the link after the body, \<open>SLIST_FOREACH_SAFE\<close> reads it before.
\<close>

partial_function (option) foreach_loop ::
  "('s \<Rightarrow> args_heap) \<Rightarrow> ('s \<Rightarrow> ptr \<Rightarrow> fault + 's) \<Rightarrow> 's \<Rightarrow> ptr \<Rightarrow> (fault + 's) option" where
  "foreach_loop hp body s var =
     (if var = NULL then Some (Inr s)
      else case body s var of Inl e \<Rightarrow> Some (Inl e)
      | Inr s' \<Rightarrow> (case SLIST_NEXT (hp s') var of Inl e \<Rightarrow> Some (Inl e) | Inr n \<Rightarrow> foreach_loop hp body s' n))"

partial_function (option) foreach_safe_loop ::
  "('s \<Rightarrow> args_heap) \<Rightarrow> ('s \<Rightarrow> ptr \<Rightarrow> fault + 's) \<Rightarrow> 's \<Rightarrow> ptr \<Rightarrow> (fault + 's) option" where
  "foreach_safe_loop hp body s var =
     (if var = NULL then Some (Inr s)
      else case SLIST_NEXT (hp s) var of Inl e \<Rightarrow> Some (Inl e)
      | Inr tvar \<Rightarrow> (case body s var of Inl e \<Rightarrow> Some (Inl e) | Inr s' \<Rightarrow> foreach_safe_loop hp body s' tvar))"

definition SLIST_FOREACH ::
  "('s \<Rightarrow> args_heap) \<Rightarrow> ('s \<Rightarrow> ptr \<Rightarrow> fault + 's) \<Rightarrow> 's \<Rightarrow> thread_args_head \<Rightarrow> (fault + 's) option" where
  "SLIST_FOREACH hp body s head = foreach_loop hp body s (slh_first head)"

definition SLIST_FOREACH_FROM ::
  "('s \<Rightarrow> args_heap) \<Rightarrow> ('s \<Rightarrow> ptr \<Rightarrow> fault + 's) \<Rightarrow> 's \<Rightarrow> thread_args_head \<Rightarrow> ptr \<Rightarrow> (fault + 's) option" where
  "SLIST_FOREACH_FROM hp body s head var = foreach_loop hp body s (if var \<noteq> NULL then var else slh_first head)"

definition SLIST_FOREACH_SAFE ::
  "('s \<Rightarrow> args_heap) \<Rightarrow> ('s \<Rightarrow> ptr \<Rightarrow> fault + 's) \<Rightarrow> 's \<Rightarrow> thread_args_head \<Rightarrow> (fault + 's) option" where
  "SLIST_FOREACH_SAFE hp body s head = foreach_safe_loop hp body s (slh_first head)"

definition SLIST_FOREACH_FROM_SAFE ::
  "('s \<Rightarrow> args_heap) \<Rightarrow> ('s \<Rightarrow> ptr \<Rightarrow> fault + 's) \<Rightarrow> 's \<Rightarrow> thread_args_head \<Rightarrow> ptr \<Rightarrow> (fault + 's) option" where
  "SLIST_FOREACH_FROM_SAFE hp body s head var = foreach_safe_loop hp body s (if var \<noteq> NULL then var else slh_first head)"

datatype link_loc = Head_Link | Next_Of ptr

definition read_link :: "thread_list \<Rightarrow> link_loc \<Rightarrow> fault + ptr" where
  "read_link s l = (case l of Head_Link \<Rightarrow> Inr (SLIST_FIRST s) | Next_Of p \<Rightarrow> SLIST_NEXT (heap s) p)"

definition write_link :: "thread_list \<Rightarrow> link_loc \<Rightarrow> ptr \<Rightarrow> fault + thread_list" where
  "write_link s l q = (case l of Head_Link \<Rightarrow> Inr (s\<lparr>list_head := \<lparr>slh_first = q\<rparr>\<rparr>)
     | Next_Of p \<Rightarrow> ebind (set_next (heap s) p q) (\<lambda>h. Inr (s\<lparr>heap := h\<rparr>)))"

text \<open>\<open>SLIST_FOREACH_PREVPTR\<close> whose body breaks at the element for which \<open>stop\<close> holds.\<close>

partial_function (option) foreach_prevptr ::
  "thread_list \<Rightarrow> (ptr \<Rightarrow> bool) \<Rightarrow> link_loc \<Rightarrow> (fault + link_loc) option" where
  "foreach_prevptr s stop varp =
     (case read_link s varp of Inl e \<Rightarrow> Some (Inl e)
      | Inr var \<Rightarrow> if var = NULL \<or> stop var then Some (Inr varp) else foreach_prevptr s stop (Next_Of var))"

definition SLIST_FOREACH_PREVPTR :: "thread_list \<Rightarrow> (ptr \<Rightarrow> bool) \<Rightarrow> (fault + link_loc) option" where
  "SLIST_FOREACH_PREVPTR s stop = foreach_prevptr s stop Head_Link"

definition SLIST_REMOVE_PREVPTR :: "thread_list \<Rightarrow> link_loc \<Rightarrow> ptr \<Rightarrow> fault + thread_list" where
  "SLIST_REMOVE_PREVPTR s prevp elm = ebind (SLIST_NEXT (heap s) elm) (\<lambda>q. write_link s prevp q)"

section \<open>What they do to the lists\<close>

lemma links_insert_after:
  assumes "links h p (as @ c # bs)" "x \<notin> set (as @ c # bs)" "h x = Some nx"
  shows "\<exists>h'. SLIST_INSERT_AFTER h (Ptr c) (Ptr x) = Inr h' \<and> links h' p (as @ c # x # bs)"
proof -
  from links_live [OF assms(1), of c] obtain nc where c: "h c = Some nc" by auto
  let ?h1 = "h(x \<mapsto> nx\<lparr>sle_next := sle_next nc\<rparr>)"
  define h2 where "h2 = ?h1(c \<mapsto> nc\<lparr>sle_next := Ptr x\<rparr>)"
  have "c \<noteq> x" using assms(2) by auto
  then have run: "SLIST_INSERT_AFTER h (Ptr c) (Ptr x) = Inr h2"
    using c assms(3) by (simp add: SLIST_INSERT_AFTER_def SLIST_NEXT_def node_at_def set_next_def h2_def)
  have h2: "h2 c = Some (nc\<lparr>sle_next := Ptr x\<rparr>)" "h2 x = Some (nx\<lparr>sle_next := sle_next nc\<rparr>)"
    "\<And>y. y \<noteq> c \<Longrightarrow> y \<noteq> x \<Longrightarrow> h2 y = h y"
    using \<open>c \<noteq> x\<close> by (simp_all add: h2_def)
  have "links h2 p (as @ c # x # bs)"
    using assms(1,2)
  proof (induction as arbitrary: p)
    case Nil
    then have "links h (sle_next nc) bs" "c \<notin> set bs" using c links_distinct [OF Nil.prems(1)] by auto
    moreover have "h2 a = h a" if "a \<in> set bs" for a using h2(3) [of a] that Nil.prems(2) \<open>c \<notin> set bs\<close> by auto
    ultimately have "links h2 (sle_next nc) bs" using links_frame [of h _ bs h2] by blast
    with Nil h2(1,2) show ?case by simp
  next
    case (Cons a as)
    then have "a \<noteq> c" "a \<noteq> x" using links_distinct [OF Cons.prems(1)] by auto
    with Cons h2(3) show ?case by (auto split: option.splits)
  qed
  with run show ?thesis by blast
qed

lemma slist_last_spec:
  assumes "links h p (as @ [b])" "as @ [b] = a # cs"
  shows "slist_last h (Ptr a) = Some (Inr (Ptr b))"
  using assms
proof (induction as arbitrary: p a cs)
  case Nil
  then show ?case using links_next [of h p "[]" b "[]"] by (simp add: slist_last.simps)
next
  case (Cons x as)
  obtain c ds where cd: "as @ [b] = c # ds" by (cases "as @ [b]") auto
  with Cons.prems have l: "x = a" "cs = c # ds" by auto
  with Cons.prems(1) cd have "links h p ([] @ a # c # ds)" by simp
  from links_next [OF this] links_suffix [of h p "[a]" c ds] this cd
  have n: "SLIST_NEXT h (Ptr a) = Inr (Ptr c)" and "links h (Ptr c) (as @ [b])" by simp_all
  from Cons.IH [OF this(2) cd] n show ?case by (simp add: slist_last.simps [of h "Ptr a"])
qed

lemma links_concat:
  assumes "links h p (as @ [b])" "links h q cs" "set (as @ [b]) \<inter> set cs = {}" "h b = Some nb"
  shows "links (h(b \<mapsto> nb\<lparr>sle_next := q\<rparr>)) p (as @ b # cs)"
  using assms(1,3)
proof (induction as arbitrary: p)
  case Nil
  with assms(2,4) show ?case by (auto intro: links_frame)
next
  case (Cons a as)
  then have "a \<noteq> b" using links_distinct [OF Cons.prems(1)] by auto
  with Cons show ?case by (auto split: option.splits)
qed

lemma concat_appends:
  assumes "links h (slh_first head1) as" "links h (slh_first head2) bs" "set as \<inter> set bs = {}"
  shows "\<exists>h' head1' head2'. SLIST_CONCAT h head1 head2 = Some (Inr (h', head1', head2')) \<and>
    links h' (slh_first head1') (as @ bs) \<and> links h' (slh_first head2') []"
proof (cases as rule: rev_cases)
  case Nil
  with assms show ?thesis by (auto simp: SLIST_CONCAT_def)
next
  case (snoc as' b)
  obtain a cs where "as' @ [b] = a # cs" by (cases "as' @ [b]") auto
  with snoc have a: "as = a # cs" by simp
  then have f: "slh_first head1 = Ptr a" using assms(1) by simp
  show ?thesis
  proof (cases "slh_first head2 = NULL")
    case True
    with assms f show ?thesis by (auto simp: SLIST_CONCAT_def)
  next
    case False
    have l: "links h (slh_first head1) (as' @ [b])" using assms(1) snoc by simp
    from links_live [OF l, of b] obtain nb where nb: "h b = Some nb" by auto
    have "slist_last h (Ptr a) = Some (Inr (Ptr b))" using slist_last_spec [OF l] a snoc by simp
    with f False nb have "SLIST_CONCAT h head1 head2 =
        Some (Inr (h(b \<mapsto> nb\<lparr>sle_next := slh_first head2\<rparr>), head1, \<lparr>slh_first = NULL\<rparr>))"
      by (simp add: SLIST_CONCAT_def set_next_def)
    with links_concat [OF l assms(2) _ nb] assms(3) snoc show ?thesis by simp
  qed
qed

text \<open>A body that keeps the links of the nodes sees every element once, in order.\<close>

fun visit_all :: "('s \<Rightarrow> ptr \<Rightarrow> fault + 's) \<Rightarrow> 's \<Rightarrow> nat list \<Rightarrow> fault + 's" where
  "visit_all body s [] = Inr s"
| "visit_all body s (a # as) = ebind (body s (Ptr a)) (\<lambda>s'. visit_all body s' as)"

lemma foreach_visits:
  assumes "links (hp s) p as"
    "\<And>s s' a b. a \<in> set as \<Longrightarrow> b \<in> set as \<Longrightarrow> body s (Ptr a) = Inr s' \<Longrightarrow> hp s' b = hp s b"
  shows "foreach_loop hp body s p = Some (visit_all body s as)"
  using assms
proof (induction as arbitrary: s p)
  case Nil
  then show ?case by (simp add: foreach_loop.simps)
next
  case (Cons a as)
  then have p: "p = Ptr a" by simp
  show ?case
  proof (cases "body s (Ptr a)")
    case (Inl e)
    with p show ?thesis by (simp add: foreach_loop.simps)
  next
    case (Inr s')
    have "hp s' b = hp s b" if "b \<in> set (a # as)" for b using Cons.prems(2) [of a b s s'] that Inr by simp
    then have "links (hp s') p (a # as)" by (rule links_frame [OF Cons.prems(1)])
    then obtain m where m: "hp s' a = Some m" "links (hp s') (sle_next m) as" by (auto split: option.splits)
    have "hp t' c = hp t c" if "b \<in> set as" "c \<in> set as" "body t (Ptr b) = Inr t'" for t t' b c
      using Cons.prems(2) [of b c t t'] that by simp
    from Cons.IH [OF m(2) this] m(1) Inr p show ?thesis
      by (simp add: foreach_loop.simps [of hp body s] SLIST_NEXT_def node_at_def)
  qed
qed

text \<open>
  The body of the safe loop may also unlink and release the element it visits: only the elements
  after it must keep their links.
\<close>

lemma foreach_safe_visits:
  assumes "links (hp s) p as"
    "\<And>s s' xs a ys b. as = xs @ a # ys \<Longrightarrow> b \<in> set ys \<Longrightarrow> body s (Ptr a) = Inr s' \<Longrightarrow> hp s' b = hp s b"
  shows "foreach_safe_loop hp body s p = Some (visit_all body s as)"
  using assms
proof (induction as arbitrary: s p)
  case Nil
  then show ?case by (simp add: foreach_safe_loop.simps)
next
  case (Cons a as)
  from Cons.prems(1) obtain m where m: "p = Ptr a" "hp s a = Some m" "links (hp s) (sle_next m) as"
    by (auto split: option.splits)
  then have n: "SLIST_NEXT (hp s) (Ptr a) = Inr (sle_next m)" by (simp add: SLIST_NEXT_def node_at_def)
  show ?case
  proof (cases "body s (Ptr a)")
    case (Inl e)
    with m n show ?thesis by (simp add: foreach_safe_loop.simps)
  next
    case (Inr s')
    have "links (hp s') (sle_next m) as"
      by (rule links_frame [OF m(3)]) (use Cons.prems(2) [of "[]" a as] Inr in simp)
    moreover have "hp t' b = hp t b" if "as = xs @ x # ys" "b \<in> set ys" "body t (Ptr x) = Inr t'" for t t' xs x ys b
      using Cons.prems(2) [of "a # xs" x ys] that by simp
    ultimately have "foreach_safe_loop hp body s' (sle_next m) = Some (visit_all body s' as)" by (rule Cons.IH)
    with m n Inr show ?thesis by (simp add: foreach_safe_loop.simps [of hp body s])
  qed
qed

section \<open>Removal through the address of the link\<close>

lemma foreach_prevptr_finds:
  assumes "links (heap s) p (c # as)" "b \<in> set as"
  shows "\<exists>d. slist_find_prev (heap s) (Ptr c) (Ptr b) = Some (Inr (Ptr d)) \<and>
    foreach_prevptr s (\<lambda>p. p = Ptr b) (Next_Of (Ptr c)) = Some (Inr (Next_Of (Ptr d))) \<and>
    SLIST_NEXT (heap s) (Ptr d) = Inr (Ptr b)"
  using assms
proof (induction as arbitrary: p c)
  case (Cons a as)
  from Cons.prems(1) have l: "links (heap s) p ([] @ c # a # as)" by simp
  from links_next [OF this] have n: "SLIST_NEXT (heap s) (Ptr c) = Inr (Ptr a)" by simp
  note unfold = slist_find_prev.simps [of "heap s" "Ptr c"] foreach_prevptr.simps [of s _ "Next_Of (Ptr c)"]
  show ?case
  proof (cases "a = b")
    case True
    with n show ?thesis by (simp add: unfold read_link_def)
  next
    case False
    have "links (heap s) (Ptr a) (a # as)" using l links_suffix [of "heap s" p "[c]" a as] by simp
    from Cons.IH [OF this] False Cons.prems(2) n show ?thesis by (simp add: unfold read_link_def)
  qed
qed simp

text \<open>
  Removing an element through the address of the link that points to it, found with
  \<open>SLIST_FOREACH_PREVPTR\<close>, does exactly what the search of \<open>SLIST_REMOVE\<close> does: both leave the same
  heap and the same head, with the list less that element.
\<close>

theorem remove_prevptr_is_remove:
  assumes "list_repr s as" "b \<in> set as"
  shows "\<exists>loc s'. SLIST_FOREACH_PREVPTR s (\<lambda>p. p = Ptr b) = Some (Inr loc) \<and> SLIST_REMOVE_PREVPTR s loc (Ptr b) = Inr s' \<and>
    SLIST_REMOVE s (Ptr b) = Some (Inr s') \<and> list_repr s' (remove1 b as)"
proof -
  from assms obtain a as' where as: "as = a # as'" by (cases as) auto
  have l: "links (heap s) (SLIST_FIRST s) (a # as')" using assms(1) as by (simp add: list_repr_def)
  then have f: "SLIST_FIRST s = Ptr a" by simp
  from slist_remove [OF assms] obtain s' where s': "SLIST_REMOVE s (Ptr b) = Some (Inr s')" "list_repr s' (remove1 b as)" by blast
  note defs = SLIST_FOREACH_PREVPTR_def foreach_prevptr.simps [of s _ Head_Link] SLIST_REMOVE_PREVPTR_def write_link_def
    read_link_def f
  show ?thesis
  proof (cases "a = b")
    case True
    with s' f show ?thesis
      by (intro exI [of _ Head_Link] exI [of _ s']) (auto simp: defs SLIST_REMOVE_def SLIST_REMOVE_HEAD_def)
  next
    case False
    with foreach_prevptr_finds [OF l] assms(2) as obtain d where
      "slist_find_prev (heap s) (Ptr a) (Ptr b) = Some (Inr (Ptr d))"
      "foreach_prevptr s (\<lambda>p. p = Ptr b) (Next_Of (Ptr a)) = Some (Inr (Next_Of (Ptr d)))"
      "SLIST_NEXT (heap s) (Ptr d) = Inr (Ptr b)" by auto
    with False s' f show ?thesis
      by (intro exI [of _ "Next_Of (Ptr d)"] exI [of _ s']) (auto simp: defs SLIST_REMOVE_def SLIST_REMOVE_AFTER_def)
  qed
qed

definition ex_node :: aesd_thread_args where
  "ex_node = \<lparr>thread_id = 1, mutex = Ptr 0, sock_fd = 5, ip_address = [], last_error = 0, finished = False, sle_next = NULL\<rparr>"

definition ex_three :: thread_list where
  "ex_three = \<lparr>list_head = \<lparr>slh_first = Ptr 7\<rparr>,
     heap = [7 \<mapsto> ex_node\<lparr>sle_next := Ptr 8\<rparr>, 8 \<mapsto> ex_node\<lparr>sle_next := Ptr 9\<rparr>, 9 \<mapsto> ex_node]\<rparr>"

theorem remove_prevptr_is_remove_witness:
  "\<exists>loc s'. SLIST_FOREACH_PREVPTR ex_three (\<lambda>p. p = Ptr 8) = Some (Inr loc) \<and> SLIST_REMOVE_PREVPTR ex_three loc (Ptr 8) = Inr s' \<and>
     list_repr s' [7, 9]"
proof -
  have "list_repr ex_three [7, 8, 9]" by (simp add: list_repr_def SLIST_FIRST_def ex_three_def ex_node_def)
  from remove_prevptr_is_remove [OF this, of 8] show ?thesis by auto
qed

end
