(* ===== verification/Driver_Lifecycle.thy ===== *)
theory Driver_Lifecycle
  imports Driver_Props
begin

text \<open>
  The module from load to unload: whatever system calls are made in between, unloading finds
  every block that was allocated, as long as no write failed half-way. The writes that do
  fail half-way are the two leaks of \<open>aesd_write\<close>: the failed reallocation and the failed
  copy of a command's first bytes.
\<close>

section \<open>What a write leaves alone\<close>

text \<open>A write touches the driver's blocks, its buffer and the pending command only.\<close>

definition same_module :: "kernel \<Rightarrow> kernel \<Rightarrow> bool" where
  "same_module k k' \<longleftrightarrow> aesd_major k' = aesd_major k \<and> aesd_minor k' = aesd_minor k \<and> regions k' = regions k \<and>
     buffer (aesd_device k') = buffer (aesd_device k) \<and> (\<forall>a. Ptr a \<noteq> buffer (aesd_device k) \<longrightarrow> kcb k' a = kcb k a)"

lemma same_module_refl [simp]: "same_module k k"
  by (simp add: same_module_def)

lemma same_module_trans: "same_module k k1 \<Longrightarrow> same_module k1 k2 \<Longrightarrow> same_module k k2"
  by (simp add: same_module_def)

lemma same_module_mutex [simp]:
  "same_module (mutex_lock k) k' = same_module k k'" "same_module k (mutex_unlock k') = same_module k k'"
  by (simp_all add: same_module_def mutex_lock_def mutex_unlock_def)

lemma write_alloc_same: "write_alloc env k cnt = Inr k' \<Longrightarrow> same_module k k'"
  by (auto simp: write_alloc_def Let_def ebind_eq_Inr same_module_def split: if_splits)

lemma write_commit_same: "write_commit k = Inr k' \<Longrightarrow> same_module k k'"
  by (cases "buffer (aesd_device k)") (auto simp: write_commit_def Let_def ebind_eq_Inr same_module_def split: if_splits)

lemma write_locked_same: "write_locked env k ubuf cnt fpos = Inr (r, p, k') \<Longrightarrow> same_module k k'"
  by (auto simp: write_locked_def Let_def ebind_eq_Inr split: if_splits dest!: write_alloc_same write_commit_same)
    (auto simp: same_module_def)

lemma aesd_write_same: "aesd_write env k filp ubuf cnt fpos = Inr (r, p, k') \<Longrightarrow> same_module k k'"
  by (auto simp: aesd_write_def ebind_eq_Inr split: if_splits dest!: write_locked_same)

section \<open>Nothing is lost\<close>

text \<open>Every block belongs to the log or to a pending command that is not empty.\<close>

definition tidy :: "kernel \<Rightarrow> bool" where
  "tidy k \<longleftrightarrow> no_leak k \<and> (tmp_buff_size (aesd_device k) = 0 \<longrightarrow> tmp_buff_ptr (aesd_device k) = NULL)"

lemma write_commit_pending:
  "write_commit k = Inr k' \<Longrightarrow> tmp_buff_size (aesd_device k) \<noteq> 0 \<Longrightarrow>
     tmp_buff_size (aesd_device k') = 0 \<longrightarrow> tmp_buff_ptr (aesd_device k') = NULL"
  by (auto simp: write_commit_def Let_def ebind_eq_Inr split: if_splits)

lemma write_alloc_size: "write_alloc env k cnt = Inr k' \<Longrightarrow> tmp_buff_size (aesd_device k') = tmp_buff_size (aesd_device k)"
  by (auto simp: write_alloc_def Let_def ebind_eq_Inr split: if_splits)

lemma aesd_write_pending:
  assumes "driver_inv k" "private_data filp = The_Aesd_Device" "lock_rc env = 0" "write_args_ok env k ubuf cnt"
    "aesd_write env k filp ubuf cnt fpos = Inr (r, p, k')" "0 \<le> r"
  shows "tmp_buff_size (aesd_device k') = 0 \<longrightarrow> tmp_buff_ptr (aesd_device k') = NULL"
proof -
  let ?s = "tmp_buff_size (aesd_device k)"
  have "unat ?s < 2 ^ 40" using drv_invD(5) [OF driver_invD [OF assms(1)]] by (simp add: tmp_ok_def)
  then have "unat (?s + cnt) = unat ?s + unat cnt" using write_size_no_wrap assms(4) by (simp add: write_args_ok_def)
  moreover have "?s \<noteq> 0 \<or> cnt \<noteq> 0" using assms(4) by (simp add: write_args_ok_def)
  ultimately have pos: "?s + cnt \<noteq> 0" by (metis add_is_0 unat_0 unat_eq_zero)
  from assms(2,3,5,6) show ?thesis
    by (auto simp: aesd_write_unfold write_locked_def Let_def ebind_eq_Inr pos
        split: if_splits dest!: write_alloc_size write_commit_pending)
qed

text \<open>The writes that fail half-way.\<close>

definition half_done :: "drv_event \<Rightarrow> bool" where
  "half_done ev = (case ev of Ev_Write _ _ r \<Rightarrow> r = - ENOMEM \<or> r = - EFAULT | _ \<Rightarrow> False)"

lemma aesd_write_tidy:
  assumes "driver_inv k" "private_data filp = The_Aesd_Device" "write_args_ok env k ubuf cnt"
    "aesd_write env k filp ubuf cnt fpos = Inr (r, p, k')" "r \<noteq> - ENOMEM" "r \<noteq> - EFAULT" "tidy k"
  shows "tidy k'"
proof (cases "lock_rc env = 0")
  case False
  with assms show ?thesis by (simp add: aesd_write_def)
next
  case True
  then have ok: "alloc_ret env \<noteq> NULL" "not_copied env = 0"
    using aesd_write_failure [OF assms(1-3), of fpos] assms(4-6) by force+
  obtain k1 where "aesd_write env k filp ubuf cnt fpos = Inr (int (length ubuf), fpos + cnt, k1)" "no_leak k1"
    using aesd_write_success [OF assms(1,2) True assms(3) ok, of fpos] assms(7) unfolding tidy_def by metis
  with aesd_write_pending [OF assms(1,2) True assms(3), of fpos] show ?thesis
    using assms(4) by (simp add: tidy_def)
qed

lemma drv_step_tidy:
  assumes "drv_step ioc fsl s ev s'" "sys_inv s" "tidy (kern s)" "\<not> half_done ev"
  shows "tidy (kern s') \<and> same_module (kern s) (kern s')"
proof (cases "\<exists>fd u r. ev = Ev_Write fd u r")
  case True
  then obtain fd u r where ev: "ev = Ev_Write fd u r" by blast
  from assms(1) [unfolded ev] show ?thesis
  proof (rule write_stepE)
    fix filp env cnt p k'
    assume st: "s' = s\<lparr>kern := k', files := (files s)(fd \<mapsto> filp\<lparr>f_pos := p\<rparr>)\<rparr>" "files s fd = Some filp"
      "write_args_ok env (kern s) u cnt" "aesd_write env (kern s) filp u cnt (f_pos filp) = Inr (r, p, k')"
    moreover from assms(2) st(2) have "driver_inv (kern s)" "private_data filp = The_Aesd_Device"
      by (auto simp: sys_inv_def)
    moreover have "r \<noteq> - ENOMEM" "r \<noteq> - EFAULT" using assms(4) ev by (simp_all add: half_done_def)
    ultimately show ?thesis
      using aesd_write_tidy [OF _ _ st(3,4)] aesd_write_same [OF st(4)] assms(3) by simp
  qed
next
  case False
  then have "written [ev] = []" by (cases ev) auto
  with False drv_step_kernel [OF assms(1,2)] assms(3) show ?thesis by simp
qed

lemma drv_run_tidy:
  assumes "drv_run ioc fsl s evs s'" "fixed_size_llseek_ok fsl" "sys_inv s" "tidy (kern s)" "\<forall>ev \<in> set evs. \<not> half_done ev"
  shows "tidy (kern s') \<and> same_module (kern s) (kern s')"
  using assms
proof (induction rule: drv_run.induct)
  case (run_snoc s evs s' ev s'')
  then have "tidy (kern s')" "same_module (kern s) (kern s')" by simp_all
  moreover have "sys_inv s'" using drv_run_inv run_snoc by blast
  moreover have "\<not> half_done ev" using run_snoc.prems(4) by simp
  ultimately show ?case using drv_step_tidy [OF run_snoc.hyps(2)] same_module_trans by blast
qed simp

section \<open>Properties\<close>

text \<open>
  C12: From load to unload nothing is lost: if the module loads, then after any sequence of system
  calls on any number of files in which no write fails half-way (interrupted ones are
  allowed), unloading succeeds, every block the driver allocated is free again, and circular
  buffers and device numbers are those of before the load.
\<close>

theorem load_use_unload_leaves_nothing:
  assumes "init_env_ok ienv k" "0 \<le> region_rc ienv" "cb_alloc ienv \<noteq> NULL" "cdev_rc ienv = 0" "kmem k = Map.empty"
    "MKDEV (MAJOR (region_dev ienv)) (aesd_minor k) = region_dev ienv" "fixed_size_llseek_ok fsl"
  shows "\<exists>k1. aesd_init_module ienv MAJOR MKDEV k = Inr (0, k1) \<and>
    (\<forall>evs s. drv_run ioc fsl \<lparr>kern = k1, files = Map.empty\<rparr> evs s \<longrightarrow> (\<forall>ev \<in> set evs. \<not> half_done ev) \<longrightarrow>
      (\<exists>k2. aesd_cleanup_module MKDEV (kern s) = Inr k2 \<and> kmem k2 = Map.empty \<and> kcb k2 = kcb k \<and> regions k2 = regions k))"
proof -
  from assms(3) obtain a where a: "cb_alloc ienv = Ptr a" by (cases "cb_alloc ienv") auto
  from init_success [OF assms(2) a assms(4), of MAJOR MKDEV k] obtain k1 where
    k1: "aesd_init_module ienv MAJOR MKDEV k = Inr (0, k1)" "driver_inv k1" "kmem k1 = kmem k"
      "kcb k1 = (kcb k)(a \<mapsto> aesd_circular_buffer_init)" "buffer (aesd_device k1) = Ptr a"
      "tmp_buff_ptr (aesd_device k1) = NULL" "regions k1 = insert (region_dev ienv) (regions k)"
      "aesd_major k1 = MAJOR (region_dev ienv)" "aesd_minor k1 = aesd_minor k" by blast
  have "tidy k1" using k1(3,6) assms(5) by (simp add: tidy_def no_leak_def)
  have "\<exists>k2. aesd_cleanup_module MKDEV (kern s) = Inr k2 \<and> kmem k2 = Map.empty \<and> kcb k2 = kcb k \<and> regions k2 = regions k"
    if run: "drv_run ioc fsl \<lparr>kern = k1, files = Map.empty\<rparr> evs s" and "\<forall>ev \<in> set evs. \<not> half_done ev" for evs s
  proof -
    have i: "sys_inv \<lparr>kern = k1, files = Map.empty\<rparr>" using k1(2) by (simp add: sys_inv_def)
    from drv_run_tidy [OF run assms(7) i] that(2) \<open>tidy k1\<close> have t: "tidy (kern s)" "same_module k1 (kern s)" by simp_all
    have "drv_inv (kern s)" using drv_run_inv [OF run assms(7) i] by (simp add: sys_inv_def driver_invD)
    from cleanup_frees [OF this, of MKDEV] t(1) obtain k2 b where
      k2: "aesd_cleanup_module MKDEV (kern s) = Inr k2" "kmem k2 = Map.empty" "buffer (aesd_device (kern s)) = Ptr b"
        "kcb k2 = (kcb (kern s))(b := None)" "regions k2 = regions (kern s) - {MKDEV (aesd_major (kern s)) (aesd_minor (kern s))}"
      unfolding tidy_def by blast
    have sm: "b = a" "regions (kern s) = regions k1" "aesd_major (kern s) = aesd_major k1" "aesd_minor (kern s) = aesd_minor k1"
      "\<And>c. c \<noteq> a \<Longrightarrow> kcb (kern s) c = kcb k1 c"
      using t(2) k1(5) k2(3) by (auto simp: same_module_def)
    have "kcb k2 = kcb k" using k2(4) sm(1,5) k1(4) assms(1) a by (auto simp: init_env_ok_def fun_eq_iff)
    moreover have "regions k2 = regions k" using k2(5) sm k1(7-9) assms(1,6) by (simp add: init_env_ok_def)
    ultimately show ?thesis using k2(1,2) by blast
  qed
  with k1(1) show ?thesis by blast
qed

text \<open>The module loaded, a file opened and a command written.\<close>

lemma ex_load_and_use:
  obtains k1 s where "aesd_init_module ex_ienv (\<lambda>d. d) (\<lambda>ma mi. ma) ex_unloaded = Inr (0, k1)" "driver_inv k1"
    "drv_run ex_ioc ex_llseek \<lparr>kern = k1, files = Map.empty\<rparr> [Ev_Open 4, Ev_Write 4 (''y'' @ [newline]) 2] s"
    "hist (abs_log (kern s)) = [''y'' @ [newline]]"
proof -
  have "cb_alloc ex_ienv = Ptr 0" by (simp add: ex_ienv_def)
  from init_success [OF _ this, of "\<lambda>d. d" "\<lambda>ma mi. ma" ex_unloaded] obtain k1 where
    k1: "aesd_init_module ex_ienv (\<lambda>d. d) (\<lambda>ma mi. ma) ex_unloaded = Inr (0, k1)" "driver_inv k1" "pend_ok k1"
      "abs_log k1 = \<lparr>hist = [], pend = []\<rparr>" "kmem k1 = Map.empty" "tmp_buff_size (aesd_device k1) = 0"
    by (auto simp: ex_ienv_def ex_unloaded_def)
  have f: "aesd_open \<lparr>i_cdev = The_Aesd_Device\<rparr> new_file = (0, ex_file)" by (simp add: aesd_open_def new_file_def ex_file_def)
  let ?s0 = "\<lparr>kern = k1, files = Map.empty\<rparr>" and ?l = "''y'' @ [newline]"
  let ?s1 = "?s0\<lparr>files := [4 \<mapsto> ex_file]\<rparr>"
  have o: "drv_step ex_ioc ex_llseek ?s0 (Ev_Open 4) ?s1" using step_open [OF _ f, of ?s0 4] by simp
  have a: "write_args_ok ex_env k1 ?l 2" using k1(5,6) by (simp add: write_args_ok_def alloc_ok_def kzalloc_ok_def ex_env_def)
  obtain k2 where k2: "aesd_write ex_env k1 ex_file ?l 2 0 = Inr (int (length ?l), 0 + 2, k2)" "abs_log k2 = log_write (abs_log k1) ?l"
    by (rule aesd_write_success [OF k1(2) _ _ a, where filp = ex_file and fpos = 0]) (use k1(3) in \<open>auto simp: ex_file_def ex_env_def\<close>)
  let ?s2 = "?s1\<lparr>kern := k2, files := (files ?s1)(4 \<mapsto> ex_file\<lparr>f_pos := 2\<rparr>)\<rparr>"
  have "drv_step ex_ioc ex_llseek ?s1 (Ev_Write 4 ?l 2) ?s2"
    by (rule step_write [where env = ex_env and cnt = 2]) (use k2(1) a in \<open>simp_all, simp_all add: ex_file_def\<close>)
  from run_snoc [OF run_snoc [OF run_nil o] this]
  have "drv_run ex_ioc ex_llseek ?s0 [Ev_Open 4, Ev_Write 4 ?l 2] ?s2" by simp
  moreover have "hist (abs_log (kern ?s2)) = [?l]" using k2(2) k1(4) by (simp add: log_write_def)
  ultimately show thesis using k1(1,2) that by blast
qed

theorem load_use_unload_leaves_nothing_witness:
  "\<exists>k1 s. aesd_init_module ex_ienv (\<lambda>d. d) (\<lambda>ma mi. ma) ex_unloaded = Inr (0, k1) \<and>
     drv_run ex_ioc ex_llseek \<lparr>kern = k1, files = Map.empty\<rparr> [Ev_Open 4, Ev_Write 4 (''y'' @ [newline]) 2] s \<and>
     hist (abs_log (kern s)) = [''y'' @ [newline]] \<and>
     (\<exists>k2. aesd_cleanup_module (\<lambda>ma mi. ma) (kern s) = Inr k2 \<and> kmem k2 = Map.empty \<and> kcb k2 = Map.empty \<and> regions k2 = {})"
proof -
  obtain k1 s where u: "aesd_init_module ex_ienv (\<lambda>d. d) (\<lambda>ma mi. ma) ex_unloaded = Inr (0, k1)"
    "drv_run ex_ioc ex_llseek \<lparr>kern = k1, files = Map.empty\<rparr> [Ev_Open 4, Ev_Write 4 (''y'' @ [newline]) 2] s"
    "hist (abs_log (kern s)) = [''y'' @ [newline]]" by (rule ex_load_and_use)
  have "init_env_ok ex_ienv ex_unloaded" by (simp add: init_env_ok_def ex_ienv_def ex_unloaded_def)
  from load_use_unload_leaves_nothing [OF this, where ioc = ex_ioc and MAJOR = "\<lambda>d. d" and MKDEV = "\<lambda>ma mi. ma", OF _ _ _ _ _ ex_llseek_ok]
  have "\<forall>evs s. drv_run ex_ioc ex_llseek \<lparr>kern = k1, files = Map.empty\<rparr> evs s \<longrightarrow> (\<forall>ev \<in> set evs. \<not> half_done ev) \<longrightarrow>
      (\<exists>k2. aesd_cleanup_module (\<lambda>ma mi. ma) (kern s) = Inr k2 \<and> kmem k2 = Map.empty \<and> kcb k2 = kcb ex_unloaded \<and>
        regions k2 = regions ex_unloaded)"
    using u(1) by (auto simp: ex_ienv_def ex_unloaded_def)
  moreover have "\<forall>ev \<in> set [Ev_Open 4, Ev_Write 4 (''y'' @ [newline]) 2]. \<not> half_done ev" by (simp add: half_done_def)
  moreover have "kcb ex_unloaded = Map.empty" "regions ex_unloaded = {}" by (simp_all add: ex_unloaded_def)
  ultimately show ?thesis using u by metis
qed

text \<open>
  C24: The driver's state is well formed at every moment: after a load and any system calls, failed ones
  included, the offsets into the array are below ten, every entry in use owns a block of its
  own which holds its bytes, ends in a newline and has room for the terminator, the pending
  command has a block with room for one byte more than its size, shared with no entry, and the
  mutex is free.
\<close>

theorem driver_state_well_formed:
  assumes "0 \<le> region_rc ienv" "cb_alloc ienv \<noteq> NULL" "cdev_rc ienv = 0" "fixed_size_llseek_ok fsl"
    "aesd_init_module ienv MAJOR MKDEV k = Inr (0, k1)" "drv_run ioc fsl \<lparr>kern = k1, files = Map.empty\<rparr> evs s"
  shows "\<exists>cb. deref_cb (kern s) (buffer (aesd_device (kern s))) = Inr cb \<and> length (entry cb) = 10 \<and>
    in_offs cb < 10 \<and> out_offs cb < 10 \<and> (\<forall>e \<in> set (cb_list cb). entry_ok (kmem (kern s)) e) \<and>
    distinct (map buffptr (cb_list cb)) \<and> tmp_ok (kmem (kern s)) (aesd_device (kern s)) \<and>
    tmp_buff_ptr (aesd_device (kern s)) \<notin> buffptr ` set (cb_list cb) \<and> lock (aesd_device (kern s)) = Mutex_Free"
proof -
  from assms(2) obtain a where "cb_alloc ienv = Ptr a" by (cases "cb_alloc ienv") auto
  from init_success [OF assms(1) this assms(3), of MAJOR MKDEV k] assms(5) have "driver_inv k1" by (metis Inr_inject prod.inject)
  then have "sys_inv \<lparr>kern = k1, files = Map.empty\<rparr>" by (simp add: sys_inv_def)
  from drv_run_inv [OF assms(6,4) this] have d: "drv_inv (kern s)" "lock (aesd_device (kern s)) = Mutex_Free"
    by (simp_all add: sys_inv_def driver_inv_def)
  note inv = drv_invD [OF d(1)]
  have "length (entry (the_cb (kern s))) = 10 \<and> in_offs (the_cb (kern s)) < 10 \<and> out_offs (the_cb (kern s)) < 10"
    using inv(2) by (auto simp: cb_wf_def word_less_nat_alt split: if_splits)
  then show ?thesis using inv d(2) by blast
qed

theorem driver_state_well_formed_witness:
  "\<exists>k1 s cb. drv_run ex_ioc ex_llseek \<lparr>kern = k1, files = Map.empty\<rparr> [Ev_Open 4, Ev_Write 4 (''y'' @ [newline]) 2] s \<and>
     hist (abs_log (kern s)) = [''y'' @ [newline]] \<and>
     deref_cb (kern s) (buffer (aesd_device (kern s))) = Inr cb \<and> in_offs cb < 10 \<and> lock (aesd_device (kern s)) = Mutex_Free"
proof -
  obtain k1 s where u: "aesd_init_module ex_ienv (\<lambda>d. d) (\<lambda>ma mi. ma) ex_unloaded = Inr (0, k1)"
    "drv_run ex_ioc ex_llseek \<lparr>kern = k1, files = Map.empty\<rparr> [Ev_Open 4, Ev_Write 4 (''y'' @ [newline]) 2] s"
    "hist (abs_log (kern s)) = [''y'' @ [newline]]" by (rule ex_load_and_use)
  from driver_state_well_formed [OF _ _ _ ex_llseek_ok u(1,2)] u(2,3) show ?thesis by (auto simp: ex_ienv_def)
qed

text \<open>
  C25: No size in the driver wraps around: after any system calls the pending command is smaller than
  \<open>2 ^ 40\<close> bytes, each command too, and the sum \<open>get_buffer_size\<close> computes in \<open>loff_t\<close> arithmetic is
  the exact length of the log, below \<open>2 ^ 44\<close>.
\<close>

theorem driver_sizes_do_not_wrap:
  assumes "fixed_size_llseek_ok fsl" "sys_inv s0" "drv_run ioc fsl s0 evs s"
  shows "unat (tmp_buff_size (aesd_device (kern s))) < 2 ^ 40 \<and>
    (\<forall>c \<in> set (hist (abs_log (kern s))). length c < 2 ^ 40) \<and>
    sint (get_buffer_size (the_cb (kern s))) = int (length (concat (hist (abs_log (kern s))))) \<and>
    length (concat (hist (abs_log (kern s)))) < 2 ^ 44"
proof -
  have inv: "drv_inv (kern s)" using drv_run_inv [OF assms(3,1,2)] by (simp add: sys_inv_def driver_inv_def)
  have "unat (tmp_buff_size (aesd_device (kern s))) < 2 ^ 40"
    using drv_invD(5) [OF inv] by (simp add: tmp_ok_def)
  moreover have "length c < 2 ^ 40" if "c \<in> set (hist (abs_log (kern s)))" for c
  proof -
    from that obtain e where "c = entry_bytes (kmem (kern s)) e" "e \<in> set (cb_list (the_cb (kern s)))" by (auto simp: abs_log_def)
    with drv_invD(3) [OF inv, of e] show ?thesis by (auto elim!: entry_okE)
  qed
  ultimately show ?thesis
    using sint_buffer_size [OF inv] log_size_bound [OF inv] by (simp add: log_size_def)
qed

theorem driver_sizes_do_not_wrap_witness:
  "\<exists>k1 s. drv_run ex_ioc ex_llseek \<lparr>kern = k1, files = Map.empty\<rparr> [Ev_Open 4, Ev_Write 4 (''y'' @ [newline]) 2] s \<and>
     sint (get_buffer_size (the_cb (kern s))) = 2"
proof -
  obtain k1 s where u: "driver_inv k1"
    "drv_run ex_ioc ex_llseek \<lparr>kern = k1, files = Map.empty\<rparr> [Ev_Open 4, Ev_Write 4 (''y'' @ [newline]) 2] s"
    "hist (abs_log (kern s)) = [''y'' @ [newline]]" by (rule ex_load_and_use)
  have "sys_inv \<lparr>kern = k1, files = Map.empty\<rparr>" using u(1) by (simp add: sys_inv_def)
  from driver_sizes_do_not_wrap [OF ex_llseek_ok this u(2)] u(2,3) show ?thesis by auto
qed

text \<open>
  When copying the first bytes of a command from the user fails, the block just allocated is lost:
  \<open>aesd_write\<close> returns \<open>-EFAULT\<close> and leaves the block behind a pending size of 0, so that
  unloading the module does not free it.
\<close>

theorem failed_copy_leaks:
  assumes "driver_inv k" "private_data filp = The_Aesd_Device" "lock_rc env = 0" "tmp_buff_size (aesd_device k) = 0"
    "alloc_ret env = Ptr a" "alloc_ok env k cnt" "unat cnt < rw_bound" "length ubuf = unat cnt" "not_copied env \<noteq> 0"
  shows "\<exists>k' k''. aesd_write env k filp ubuf cnt fpos = Inr (- EFAULT, fpos, k') \<and>
    tmp_buff_ptr (aesd_device k') = Ptr a \<and> tmp_buff_size (aesd_device k') = 0 \<and>
    aesd_cleanup_module MKDEV k' = Inr k'' \<and> kmem k'' a \<noteq> None"
proof -
  let ?k = "mutex_lock k"
  have l: "drv_inv ?k" "alloc_ok env ?k cnt" using assms(1,6) by (simp_all add: driver_invD)
  from write_efault [OF l(1) assms(5) l(2) assms(7,9,8), of fpos] obtain k1 where
    k1: "write_locked env ?k ubuf cnt fpos = Inr (- EFAULT, fpos, k1)" "drv_inv k1" by blast
  have sz: "tmp_buff_size (aesd_device ?k) = 0" using assms(4) by simp
  have p: "tmp_buff_ptr (aesd_device k1) = Ptr a" "tmp_buff_size (aesd_device k1) = 0"
    using k1(1) sz assms(5,9)
    by (auto simp: write_locked_def write_alloc_def kzalloc_def copy_from_user_def Let_def ebind_eq_Inr split: if_splits)
  let ?k' = "mutex_unlock k1"
  have w: "aesd_write env k filp ubuf cnt fpos = Inr (- EFAULT, fpos, ?k')"
    using k1(1) assms(2,3) by (simp add: aesd_write_unfold)
  note d = drv_invD [OF k1(2)]
  have "a \<in> dom (kmem k1)" using d(5) p by (auto simp: tmp_ok_def block_def split: sum.splits option.splits)
  moreover have "\<not> tmp_freed (aesd_device ?k') a" using p by (simp add: tmp_freed_def)
  moreover have "Ptr a \<notin> buffptr ` set (cb_list (the_cb k1))" using d(6) p by simp
  moreover have "drv_inv ?k'" using driver_inv_unlock [OF k1(2)] by (rule driver_invD)
  ultimately show ?thesis
    using cleanup_spec [of ?k' MKDEV] w p by (force simp: dom_def)
qed

theorem failed_copy_leaks_witness:
  "\<exists>k' k''. aesd_write (ex_env\<lparr>not_copied := 1\<rparr>) ex_loaded ex_file ''a'' 1 0 = Inr (- 14, 0, k') \<and>
     aesd_cleanup_module (\<lambda>ma mi. ma) k' = Inr k'' \<and> kmem k'' 9 \<noteq> None"
proof -
  have "alloc_ok (ex_env\<lparr>not_copied := 1\<rparr>) ex_loaded 1"
    by (simp add: alloc_ok_def kzalloc_ok_def ex_defs)
  from failed_copy_leaks [OF ex_loaded_inv _ _ _ _ this, of ex_file 9 "''a''" 0 "\<lambda>ma mi. ma"] show ?thesis
    by (auto simp: ex_defs)
qed

end
