(* ===== verification/Driver_Concurrent.thy ===== *)
theory Driver_Concurrent
  imports Driver_System
begin

unbundle bit_operations_syntax

text \<open>
  The driver under system calls that run at the same time. Each file operation is cut into the
  steps between which another process can be scheduled (taking the mutex, allocating, copying
  from and to the user, looking at the buffer, releasing the mutex), with its local variables kept
  in between; any number of calls are in progress, one per open file, and interleave in any way.

  Shown: every interleaving has the effect of the operations of \<open>Char_Driver\<close> executed one at a
  time, in the order in which they release the mutex or return without having taken it. So
  \<open>drv_step\<close>, which takes an operation as one step, loses nothing.
\<close>

section \<open>The steps of a call\<close>

datatype drv_call =
    Read_Call u64
  | Write_Call bytes u64
  | Llseek_Call u64 int
  | Ioctl_Call u32

text \<open>What a call returns: its result, the file with its new position, the bytes delivered.\<close>

type_synonym call_result = "int \<times> kfile \<times> bytes"

text \<open>
  Where a call is. \<open>Copy_To_User\<close> has the slot and the offset the search returned, \<open>Seek\<close> the size
  of the buffer, \<open>Check_Cmd\<close> and \<open>Seek_Cmd\<close> the command and offset of the \<open>ioctl\<close>.
\<close>

datatype call_point =
    Enter
  | Find_Entry
  | Copy_To_User nat u64
  | Allocate
  | Copy_From_User
  | Commit
  | Get_Size
  | Seek u64
  | Adjust u32 u32
  | Check_Cmd u32 u32
  | Seek_Cmd u32 u32 u64
  | Unlock call_result
  | Return_To call_result

definition lock_or_return :: "io_env \<Rightarrow> kfile \<Rightarrow> call_point \<Rightarrow> int \<Rightarrow> kernel \<Rightarrow> fault + call_point \<times> kernel" where
  "lock_or_return env filp pt err k =
     ebind (dev_of k filp) (\<lambda>dev.
       if lock_rc env \<noteq> 0 then Inr (Return_To (err, filp, []), k) else Inr (pt, mutex_lock k))"

definition enter_ioctl :: "ioc_macros \<Rightarrow> io_env \<Rightarrow> kfile \<Rightarrow> u32 \<Rightarrow> call_point" where
  "enter_ioctl ioc env filp cmd =
     (if IOC_TYPE ioc cmd \<noteq> AESD_IOC_MAGIC then Return_To (- ENOTTY, filp, [])
      else if IOC_NR ioc cmd > AESDCHAR_IOC_MAXNR then Return_To (- ENOTTY, filp, [])
      else if (IOC_DIR ioc cmd AND IOC_READ ioc \<noteq> 0 \<or> IOC_DIR ioc cmd AND IOC_WRITE ioc \<noteq> 0)
              \<and> \<not> access_ok_ret env then Return_To (- EFAULT, filp, [])
      else if cmd = AESDCHAR_IOCSEEKTO ioc then
        (if not_copied env \<noteq> 0 then Return_To (- EFAULT, filp, [])
         else Adjust (write_cmd (user_seekto env)) (write_cmd_offset (user_seekto env)))
      else Return_To (- ENOTTY, filp, []))"

fun enter_call :: "ioc_macros \<Rightarrow> io_env \<Rightarrow> drv_call \<Rightarrow> kfile \<Rightarrow> kernel \<Rightarrow> fault + call_point \<times> kernel" where
  "enter_call ioc env (Read_Call cnt) filp k = lock_or_return env filp Find_Entry (- ERESTARTSYS) k"
| "enter_call ioc env (Write_Call ubuf cnt) filp k = lock_or_return env filp Allocate (- ERESTARTSYS) k"
| "enter_call ioc env (Llseek_Call off whence) filp k = lock_or_return env filp Get_Size (- ERESTARTSYS) k"
| "enter_call ioc env (Ioctl_Call cmd) filp k = Inr (enter_ioctl ioc env filp cmd, k)"

definition the_buffer :: "kernel \<Rightarrow> fault + aesd_circular_buffer" where
  "the_buffer k = deref_cb k (buffer (aesd_device k))"

fun call_step :: "ioc_macros \<Rightarrow> llseek_fun \<Rightarrow> io_env \<Rightarrow> drv_call \<Rightarrow> kfile \<Rightarrow> call_point \<Rightarrow> kernel \<Rightarrow> fault + call_point \<times> kernel" where
  "call_step ioc fsl env call filp Enter k = enter_call ioc env call filp k"
| "call_step ioc fsl env (Read_Call cnt) filp Find_Entry k =
     ebind (the_buffer k) (\<lambda>cb.
       case aesd_circular_buffer_find_entry_offset_for_fpos cb (f_pos filp) of
         None \<Rightarrow> Inr (Unlock (0, filp\<lparr>f_pos := f_pos filp\<rparr>, []), k)
       | Some (i, entry_offset_byte) \<Rightarrow> Inr (Copy_To_User i entry_offset_byte, k))"
| "call_step ioc fsl env (Read_Call cnt) filp (Copy_To_User i entry_offset_byte) k =
     ebind (the_buffer k) (\<lambda>cb.
       let e = entry cb ! i;
           entry_bytes_to_read = esize e - entry_offset_byte;
           n = (if cnt > entry_bytes_to_read then entry_bytes_to_read else cnt)
       in ebind (load_range (kmem k) (buffptr e) (unat entry_offset_byte) (unat n)) (\<lambda>bs.
            if not_copied env \<noteq> 0 then
              Inr (Unlock (- EFAULT, filp\<lparr>f_pos := f_pos filp\<rparr>, take (unat n - unat (not_copied env)) bs), k)
            else
              ebind (printk_string (kmem k) (buffptr e) (unat entry_offset_byte)) (\<lambda>_.
                Inr (Unlock (sint n, filp\<lparr>f_pos := f_pos filp + n\<rparr>, bs), k))))"
| "call_step ioc fsl env (Write_Call ubuf cnt) filp Allocate k =
     ebind (write_alloc env k cnt) (\<lambda>k1.
       Inr (if tmp_buff_ptr (aesd_device k1) = NULL then Unlock (- ENOMEM, filp\<lparr>f_pos := f_pos filp\<rparr>, [])
            else Copy_From_User, k1))"
| "call_step ioc fsl env (Write_Call ubuf cnt) filp Copy_From_User k =
     (let dev = aesd_device k in
      ebind (copy_from_user (kmem k) (tmp_buff_ptr dev) (unat (tmp_buff_size dev)) (take (unat cnt) ubuf) (not_copied env)) (\<lambda>m.
        Inr (if not_copied env \<noteq> 0 then Unlock (- EFAULT, filp\<lparr>f_pos := f_pos filp\<rparr>, []) else Commit, k\<lparr>kmem := m\<rparr>)))"
| "call_step ioc fsl env (Write_Call ubuf cnt) filp Commit k =
     (let dev = aesd_device k; dev2 = dev\<lparr>tmp_buff_size := tmp_buff_size dev + cnt\<rparr> in
      ebind (store_range (kmem k) (tmp_buff_ptr dev2) (unat (tmp_buff_size dev2)) [nul]) (\<lambda>m3.
      ebind (printk_string m3 (tmp_buff_ptr dev2) 0) (\<lambda>_.
      ebind (write_commit (k\<lparr>kmem := m3, aesd_device := dev2\<rparr>)) (\<lambda>k4.
        Inr (Unlock (sint cnt, filp\<lparr>f_pos := f_pos filp + cnt\<rparr>, []), k4)))))"
| "call_step ioc fsl env (Llseek_Call off whence) filp Get_Size k =
     ebind (the_buffer k) (\<lambda>cb. Inr (Seek (get_buffer_size cb), k))"
| "call_step ioc fsl env (Llseek_Call off whence) filp (Seek buff_size) k =
     (let (retval, filp') = fsl filp off whence buff_size in Inr (Unlock (sint retval, filp', []), k))"
| "call_step ioc fsl env (Ioctl_Call ctl) filp (Adjust cmd cmd_off) k =
     (if cmd \<ge> AESDCHAR_MAX_WRITE_OPERATIONS_SUPPORTED then Inr (Return_To (to_int (- EINVAL), filp, []), k)
      else lock_or_return env filp (Check_Cmd cmd cmd_off) (to_int (- ERESTARTSYS)) k)"
| "call_step ioc fsl env (Ioctl_Call ctl) filp (Check_Cmd cmd cmd_off) k =
     ebind (the_buffer k) (\<lambda>cb.
       Inr (if ucast cmd_off \<ge> esize (entry cb ! unat cmd) then Unlock (to_int (- EINVAL), filp, [])
            else Seek_Cmd cmd cmd_off (get_buffer_size cb), k))"
| "call_step ioc fsl env (Ioctl_Call ctl) filp (Seek_Cmd cmd cmd_off buff_size) k =
     ebind (the_buffer k) (\<lambda>cb.
       let offset = cmd_offset cb cmd + ucast cmd_off;
           (retval, filp') = fsl filp offset SEEK_SET buff_size
       in Inr (Unlock (to_int (if sint retval \<ge> 0 then 0 else sint retval), filp', []), k))"
| "call_step ioc fsl env call filp (Unlock r) k = Inr (Return_To r, mutex_unlock k)"
| "call_step ioc fsl env call filp pt k = Inr (pt, k)"


section \<open>A call run alone\<close>

fun point_left :: "call_point \<Rightarrow> nat" where
  "point_left Enter = 5"
| "point_left (Adjust cmd off) = 4"
| "point_left Allocate = 4"
| "point_left Find_Entry = 3"
| "point_left Get_Size = 3"
| "point_left (Check_Cmd cmd off) = 3"
| "point_left Copy_From_User = 3"
| "point_left (Copy_To_User i off) = 2"
| "point_left Commit = 2"
| "point_left (Seek sz) = 2"
| "point_left (Seek_Cmd cmd off sz) = 2"
| "point_left (Unlock r) = 1"
| "point_left (Return_To r) = 0"

text \<open>The points of each call, before it has returned.\<close>

fun fits :: "drv_call \<Rightarrow> call_point \<Rightarrow> bool" where
  "fits call Enter = True"
| "fits call (Unlock r) = True"
| "fits (Read_Call cnt) Find_Entry = True"
| "fits (Read_Call cnt) (Copy_To_User i off) = True"
| "fits (Write_Call ubuf cnt) Allocate = True"
| "fits (Write_Call ubuf cnt) Copy_From_User = True"
| "fits (Write_Call ubuf cnt) Commit = True"
| "fits (Llseek_Call off whence) Get_Size = True"
| "fits (Llseek_Call off whence) (Seek sz) = True"
| "fits (Ioctl_Call ctl) (Adjust cmd off) = True"
| "fits (Ioctl_Call ctl) (Check_Cmd cmd off) = True"
| "fits (Ioctl_Call ctl) (Seek_Cmd cmd off sz) = True"
| "fits call pt = False"

lemma enter_call_next:
  assumes "enter_call ioc env call filp k = Inr (pt', k')"
  shows "point_left pt' < 5 \<and> ((\<exists>r. pt' = Return_To r) \<or> fits call pt')"
  using assms by (cases call) (auto simp: lock_or_return_def enter_ioctl_def ebind_eq_Inr split: if_splits)

lemma call_step_next:
  assumes "call_step ioc fsl env call filp pt k = Inr (pt', k')" "fits call pt"
  shows "point_left pt' < point_left pt \<and> ((\<exists>r. pt' = Return_To r) \<or> fits call pt')"
  using assms enter_call_next [of ioc env call filp k]
  by (cases "(call, pt)" rule: fits.cases)
    (auto simp: lock_or_return_def ebind_eq_Inr Let_def case_prod_unfold split: if_splits option.splits)

text \<open>The rest of a call, from a point to its return, with no other call in between.\<close>

function finish_call :: "ioc_macros \<Rightarrow> llseek_fun \<Rightarrow> io_env \<Rightarrow> drv_call \<Rightarrow> kfile \<Rightarrow> call_point \<Rightarrow> kernel \<Rightarrow> fault + call_point \<times> kernel" where
  "finish_call ioc fsl env call filp pt k =
     (case call_step ioc fsl env call filp pt k of Inl e \<Rightarrow> Inl e
      | Inr (pt', k') \<Rightarrow> if point_left pt' < point_left pt then finish_call ioc fsl env call filp pt' k' else Inr (pt', k'))"
  by pat_completeness auto
termination by (relation "measure (\<lambda>(ioc, fsl, env, call, filp, pt, k). point_left pt)") auto

declare finish_call.simps [simp del]

lemma finish_call_step:
  assumes "fits call pt"
  shows "finish_call ioc fsl env call filp pt k =
    ebind (call_step ioc fsl env call filp pt k) (\<lambda>(pt', k'). finish_call ioc fsl env call filp pt' k')"
  using call_step_next [OF _ assms, of ioc fsl env filp k]
  by (subst finish_call.simps) (auto simp: ebind_def split: sum.splits)

lemma finish_Return [simp]: "finish_call ioc fsl env call filp (Return_To r) k = Inr (Return_To r, k)"
  by (subst finish_call.simps) simp

lemmas finish_points = finish_call_step [where pt = Enter] finish_call_step [where pt = Find_Entry] finish_call_step [where pt = "Copy_To_User i off" for i off]
  finish_call_step [where pt = Allocate] finish_call_step [where pt = Copy_From_User] finish_call_step [where pt = Commit]
  finish_call_step [where pt = Get_Size] finish_call_step [where pt = "Seek sz" for sz] finish_call_step [where pt = "Adjust cmd off" for cmd off]
  finish_call_step [where pt = "Check_Cmd cmd off" for cmd off] finish_call_step [where pt = "Seek_Cmd cmd off sz" for cmd off sz]
  finish_call_step [where pt = "Unlock r" for r]

text \<open>The operation as one step.\<close>

fun atomic_call :: "ioc_macros \<Rightarrow> llseek_fun \<Rightarrow> io_env \<Rightarrow> drv_call \<Rightarrow> kfile \<Rightarrow> kernel \<Rightarrow> fault + call_result \<times> kernel" where
  "atomic_call ioc fsl env (Read_Call cnt) filp k =
     ebind (aesd_read env k filp cnt (f_pos filp)) (\<lambda>(r, p, bs, k'). Inr ((r, filp\<lparr>f_pos := p\<rparr>, bs), k'))"
| "atomic_call ioc fsl env (Write_Call ubuf cnt) filp k =
     ebind (aesd_write env k filp ubuf cnt (f_pos filp)) (\<lambda>(r, p, k'). Inr ((r, filp\<lparr>f_pos := p\<rparr>, []), k'))"
| "atomic_call ioc fsl env (Llseek_Call off whence) filp k =
     ebind (aesd_llseek fsl env k filp off whence) (\<lambda>(r, filp', k'). Inr ((r, filp', []), k'))"
| "atomic_call ioc fsl env (Ioctl_Call cmd) filp k =
     ebind (aesd_ioctl ioc fsl env k filp cmd) (\<lambda>(r, filp', k'). Inr ((r, filp', []), k'))"

definition returned :: "fault + call_result \<times> kernel \<Rightarrow> fault + call_point \<times> kernel" where
  "returned x = ebind x (\<lambda>(r, k). Inr (Return_To r, k))"

lemma returned_simps [simp]: "returned (Inl e) = Inl e" "returned (Inr (r, k)) = Inr (Return_To r, k)"
  by (simp_all add: returned_def)

lemma same_pos [simp]: "filp\<lparr>f_pos := f_pos filp\<rparr> = filp"
  by (cases filp) simp

text \<open>The part of each call under the mutex.\<close>

lemma finish_Find_Entry:
  "finish_call ioc fsl env (Read_Call cnt) filp Find_Entry k =
     ebind (the_buffer k) (\<lambda>cb. ebind (read_locked env (kmem k) cb cnt (f_pos filp)) (\<lambda>(r, p, bs).
       Inr (Return_To (r, filp\<lparr>f_pos := p\<rparr>, bs), mutex_unlock k)))"
proof (cases "the_buffer k")
  case (Inr cb)
  show ?thesis
  proof (cases "aesd_circular_buffer_find_entry_offset_for_fpos cb (f_pos filp)")
    case None
    with Inr show ?thesis by (simp add: finish_points read_locked_def)
  next
    case (Some io)
    obtain i off where io: "io = (i, off)" by (cases io)
    define n where "n = (if cnt > esize (entry cb ! i) - off then esize (entry cb ! i) - off else cnt)"
    show ?thesis
      by (cases "load_range (kmem k) (buffptr (entry cb ! i)) (unat off) (unat n)";
          cases "printk_string (kmem k) (buffptr (entry cb ! i)) (unat off)")
        (use Inr Some io in \<open>simp_all add: finish_points read_locked_def Let_def n_def [symmetric]\<close>)
  qed
qed (simp add: finish_points)

lemma finish_Commit:
  "finish_call ioc fsl env (Write_Call ubuf cnt) filp Commit k =
     (let dev2 = (aesd_device k)\<lparr>tmp_buff_size := tmp_buff_size (aesd_device k) + cnt\<rparr> in
      ebind (store_range (kmem k) (tmp_buff_ptr dev2) (unat (tmp_buff_size dev2)) [nul]) (\<lambda>m3.
      ebind (printk_string m3 (tmp_buff_ptr dev2) 0) (\<lambda>_.
      ebind (write_commit (k\<lparr>kmem := m3, aesd_device := dev2\<rparr>)) (\<lambda>k4.
        Inr (Return_To (sint cnt, filp\<lparr>f_pos := f_pos filp + cnt\<rparr>, []), mutex_unlock k4)))))"
  by (simp add: finish_points Let_def ebind_assoc)

lemma finish_Allocate:
  "finish_call ioc fsl env (Write_Call ubuf cnt) filp Allocate k =
     ebind (write_locked env k ubuf cnt (f_pos filp)) (\<lambda>(r, p, k').
       Inr (Return_To (r, filp\<lparr>f_pos := p\<rparr>, []), mutex_unlock k'))"
proof (cases "write_alloc env k cnt")
  case (Inr k1)
  let ?dev = "aesd_device k1"
  show ?thesis
    by (cases "copy_from_user (kmem k1) (tmp_buff_ptr ?dev) (unat (tmp_buff_size ?dev)) (take (unat cnt) ubuf) (not_copied env)")
      (use Inr in \<open>simp_all add: finish_call_step [where pt = Allocate] finish_call_step [where pt = Copy_From_User] finish_call_step [where pt = "Unlock r" for r]
        finish_Commit write_locked_def Let_def ebind_assoc\<close>)
qed (simp add: finish_points write_locked_def)

lemma finish_Adjust:
  "finish_call ioc fsl env (Ioctl_Call ctl) filp (Adjust cmd cmd_off) k =
     ebind (aesd_adjust_file_offset fsl env k filp cmd cmd_off) (\<lambda>(r, filp', k'). Inr (Return_To (to_int r, filp', []), k'))"
  by (cases "private_data filp"; cases "the_buffer k")
    (simp_all add: finish_points lock_or_return_def aesd_adjust_file_offset_def the_buffer_def dev_of_def Let_def case_prod_unfold)

lemma finish_read: "finish_call ioc fsl env (Read_Call cnt) filp Enter k = returned (atomic_call ioc fsl env (Read_Call cnt) filp k)"
  by (cases "private_data filp"; cases "the_buffer k")
    (auto simp: finish_call_step [where pt = Enter] finish_Find_Entry lock_or_return_def the_buffer_def aesd_read_def dev_of_def Let_def returned_def
      ebind_assoc case_prod_unfold)

lemma finish_write:
  "finish_call ioc fsl env (Write_Call ubuf cnt) filp Enter k = returned (atomic_call ioc fsl env (Write_Call ubuf cnt) filp k)"
  by (cases "private_data filp")
    (auto simp: finish_call_step [where pt = Enter] finish_Allocate lock_or_return_def aesd_write_def dev_of_def returned_def
      ebind_assoc case_prod_unfold)

lemma finish_llseek:
  "finish_call ioc fsl env (Llseek_Call off wh) filp Enter k = returned (atomic_call ioc fsl env (Llseek_Call off wh) filp k)"
  by (cases "private_data filp"; cases "the_buffer k")
    (auto simp: finish_points lock_or_return_def the_buffer_def aesd_llseek_def Let_def returned_def dev_of_def case_prod_unfold)

lemma finish_ioctl:
  "finish_call ioc fsl env (Ioctl_Call cmd) filp Enter k = returned (atomic_call ioc fsl env (Ioctl_Call cmd) filp k)"
  by (simp add: finish_call_step [where pt = Enter] finish_Adjust enter_ioctl_def aesd_ioctl_def returned_def ebind_assoc case_prod_unfold)

lemma finish_Enter: "finish_call ioc fsl env call filp Enter k = returned (atomic_call ioc fsl env call filp k)"
  by (cases call) (simp_all only: finish_read finish_write finish_llseek finish_ioctl)

end
