(* ===== verification/Driver_Parallel.thy ===== *)
theory Driver_Parallel
  imports Driver_Concurrent Driver_Props
begin

text \<open>
  System calls in progress at the same time: the system of \<open>Driver_System\<close> in which a call is not one
  step but moves through the points of \<open>Driver_Concurrent\<close>. A call that takes the mutex waits until it
  is free. Two restrictions of the model: an open file has at most one call in progress, so calls that
  race on the position of one open file are not covered, although neither the kernel nor the driver
  rules them out for a character device; and writes of zero bytes are left out, as they read
  outside their block (\<open>Driver_Props\<close>).
\<close>

section \<open>Calls in progress\<close>

record cdrv =
  cd_kern :: kernel
  cd_files :: "nat \<rightharpoonup> kfile"
  cd_calls :: "nat \<rightharpoonup> io_env \<times> drv_call \<times> call_point"
  cd_events :: "drv_event list"   \<comment> \<open>the calls that have returned, in this order\<close>

fun inside :: "call_point \<Rightarrow> bool" where
  "inside Enter = False"
| "inside (Adjust cmd off) = False"
| "inside (Return_To r) = False"
| "inside _ = True"

fun takes_lock :: "io_env \<Rightarrow> drv_call \<Rightarrow> call_point \<Rightarrow> bool" where
  "takes_lock env (Ioctl_Call ctl) Enter = False"
| "takes_lock env call Enter = (lock_rc env = 0)"
| "takes_lock env call (Adjust cmd off) = (cmd < AESDCHAR_MAX_WRITE_OPERATIONS_SUPPORTED \<and> lock_rc env = 0)"
| "takes_lock env call pt = False"

fun args_ok :: "drv_call \<Rightarrow> bool" where
  "args_ok (Write_Call ubuf cnt) = (length ubuf = unat cnt \<and> unat cnt < rw_bound \<and> cnt \<noteq> 0)"
| "args_ok call = True"

text \<open>The allocator answers when it is asked.\<close>

definition answered :: "ptr \<Rightarrow> io_env \<Rightarrow> call_point \<Rightarrow> io_env" where
  "answered p env pt = (if pt = Allocate then env\<lparr>alloc_ret := p\<rparr> else env)"

fun needs_alloc :: "drv_call \<Rightarrow> call_point \<Rightarrow> io_env \<Rightarrow> kernel \<Rightarrow> bool" where
  "needs_alloc (Write_Call ubuf cnt) Allocate env k = alloc_ok env k cnt"
| "needs_alloc call pt env k = True"

fun event_of :: "nat \<Rightarrow> drv_call \<Rightarrow> call_result \<Rightarrow> drv_event" where
  "event_of fd (Read_Call cnt) (r, filp, bs) = Ev_Read fd cnt r bs"
| "event_of fd (Write_Call ubuf cnt) (r, filp, bs) = Ev_Write fd ubuf r"
| "event_of fd (Llseek_Call off whence) (r, filp, bs) = Ev_Llseek fd off whence r"
| "event_of fd (Ioctl_Call cmd) (r, filp, bs) = Ev_Ioctl fd cmd r"

text \<open>The state after a step of the call on \<open>fd\<close>; a call that returns leaves.\<close>

definition after_step :: "nat \<Rightarrow> io_env \<Rightarrow> drv_call \<Rightarrow> call_point \<Rightarrow> kernel \<Rightarrow> cdrv \<Rightarrow> cdrv" where
  "after_step fd env call pt k s =
     (case pt of Return_To r \<Rightarrow> s\<lparr>cd_kern := k, cd_files := (cd_files s)(fd \<mapsto> fst (snd r)), cd_calls := (cd_calls s)(fd := None),
        cd_events := cd_events s @ [event_of fd call r]\<rparr>
      | _ \<Rightarrow> s\<lparr>cd_kern := k, cd_calls := (cd_calls s)(fd \<mapsto> (env, call, pt))\<rparr>)"

inductive call_moves :: "ioc_macros \<Rightarrow> llseek_fun \<Rightarrow> nat \<Rightarrow> cdrv \<Rightarrow> fault + cdrv \<Rightarrow> bool" for ioc fsl fd s where
  moves: "cd_calls s fd = Some (env, call, pt) \<Longrightarrow> cd_files s fd = Some filp \<Longrightarrow>
    (takes_lock env call pt \<longrightarrow> lock (aesd_device (cd_kern s)) = Mutex_Free) \<Longrightarrow> env' = answered p env pt \<Longrightarrow>
    needs_alloc call pt env' (cd_kern s) \<Longrightarrow>
    call_moves ioc fsl fd s (ebind (call_step ioc fsl env' call filp pt (cd_kern s)) (\<lambda>(pt', k'). Inr (after_step fd env' call pt' k' s)))"

inductive cdrv_step :: "ioc_macros \<Rightarrow> llseek_fun \<Rightarrow> cdrv \<Rightarrow> fault + cdrv \<Rightarrow> bool" for ioc fsl where
  c_open: "\<lbrakk>cd_files s fd = None; aesd_open \<lparr>i_cdev = The_Aesd_Device\<rparr> new_file = (0, filp)\<rbrakk> \<Longrightarrow>
    cdrv_step ioc fsl s (Inr (s\<lparr>cd_files := (cd_files s)(fd \<mapsto> filp), cd_events := cd_events s @ [Ev_Open fd]\<rparr>))"
| c_release: "\<lbrakk>cd_files s fd = Some filp; cd_calls s fd = None; aesd_release \<lparr>i_cdev = The_Aesd_Device\<rparr> filp = 0\<rbrakk> \<Longrightarrow>
    cdrv_step ioc fsl s (Inr (s\<lparr>cd_files := (cd_files s)(fd := None), cd_events := cd_events s @ [Ev_Release fd]\<rparr>))"
| c_call: "\<lbrakk>cd_files s fd = Some filp; cd_calls s fd = None; args_ok call\<rbrakk> \<Longrightarrow>
    cdrv_step ioc fsl s (Inr (s\<lparr>cd_calls := (cd_calls s)(fd \<mapsto> (env, call, Enter))\<rparr>))"
| c_moves: "call_moves ioc fsl fd s r \<Longrightarrow> cdrv_step ioc fsl s r"

inductive cdrv_reach :: "ioc_macros \<Rightarrow> llseek_fun \<Rightarrow> cdrv \<Rightarrow> cdrv \<Rightarrow> bool" for ioc fsl s0 where
  reach_start: "cdrv_reach ioc fsl s0 s0"
| reach_step: "cdrv_reach ioc fsl s0 s \<Longrightarrow> cdrv_step ioc fsl s (Inr s') \<Longrightarrow> cdrv_reach ioc fsl s0 s'"

definition idle :: "drv_sys \<Rightarrow> cdrv" where
  "idle a = \<lparr>cd_kern = kern a, cd_files = files a, cd_calls = Map.empty, cd_events = []\<rparr>"

section \<open>Steps outside and inside the mutex\<close>

lemma outside_step:
  assumes "fits call pt" "\<not> inside pt" "private_data filp = The_Aesd_Device"
  shows "if takes_lock env call pt
    then \<exists>pt'. call_step ioc fsl env call filp pt k = Inr (pt', mutex_lock k) \<and> inside pt' \<and> (\<forall>ubuf cnt. call = Write_Call ubuf cnt \<longrightarrow> pt' = Allocate)
    else \<exists>pt'. (\<forall>k. call_step ioc fsl env call filp pt k = Inr (pt', k)) \<and> \<not> inside pt' \<and>
      (\<forall>ubuf cnt. call = Write_Call ubuf cnt \<longrightarrow> lock_rc env \<noteq> 0)"
  using assms by (cases call; cases pt) (auto simp: lock_or_return_def enter_ioctl_def)

lemma write_alloc_lock: "write_alloc env k cnt = Inr k' \<Longrightarrow> lock (aesd_device k') = lock (aesd_device k)"
  by (auto simp: write_alloc_def Let_def ebind_eq_Inr)

lemma write_commit_lock: "write_commit k = Inr k' \<Longrightarrow> lock (aesd_device k') = lock (aesd_device k)"
  by (auto simp: write_commit_def Let_def ebind_eq_Inr split: if_splits)

lemma inside_step:
  assumes "fits call pt" "inside pt" "call_step ioc fsl env call filp pt k = Inr (pt', k')"
  shows "(\<exists>r. pt = Unlock r \<and> pt' = Return_To r \<and> k' = mutex_unlock k) \<or>
    inside pt' \<and> pt' \<noteq> Allocate \<and> lock (aesd_device k') = lock (aesd_device k)"
proof (cases "(call, pt)" rule: fits.cases)
  case (3 cnt)
  with assms(3) show ?thesis by (auto simp: ebind_eq_Inr split: option.splits)
next
  case (5 ubuf cnt)
  with assms(3) show ?thesis by (auto simp: ebind_eq_Inr dest: write_alloc_lock split: if_splits)
next
  case (7 ubuf cnt)
  with assms(3) show ?thesis by (auto simp: ebind_eq_Inr Let_def dest: write_commit_lock)
qed (use assms in \<open>auto simp: ebind_eq_Inr Let_def case_prod_unfold split: if_splits\<close>)

section \<open>The calls one at a time\<close>

text \<open>
  The call at \<open>pt\<close> in a state with kernel \<open>k\<close>, where the calls that have returned lead to \<open>k0\<close>: outside
  the mutex it has done nothing; inside, it goes on to what it would do from \<open>k0\<close> in one step.
\<close>

definition call_ok :: "ioc_macros \<Rightarrow> llseek_fun \<Rightarrow> kernel \<Rightarrow> kernel \<Rightarrow> kfile \<Rightarrow> io_env \<Rightarrow> drv_call \<Rightarrow> call_point \<Rightarrow> bool" where
  "call_ok ioc fsl k0 k filp env call pt \<longleftrightarrow> fits call pt \<and> args_ok call \<and>
     (if \<not> inside pt then \<forall>k. finish_call ioc fsl env call filp pt k = returned (atomic_call ioc fsl env call filp k)
      else if pt = Allocate then k = mutex_lock k0 \<and> lock_rc env = 0
      else finish_call ioc fsl env call filp pt k = returned (atomic_call ioc fsl env call filp k0) \<and>
        (\<forall>ubuf cnt. call = Write_Call ubuf cnt \<longrightarrow> alloc_ok env k0 cnt))"

definition holds :: "cdrv \<Rightarrow> nat \<Rightarrow> bool" where
  "holds s fd \<longleftrightarrow> (\<exists>env call pt. cd_calls s fd = Some (env, call, pt) \<and> inside pt)"

definition linear :: "ioc_macros \<Rightarrow> llseek_fun \<Rightarrow> drv_sys \<Rightarrow> cdrv \<Rightarrow> drv_sys \<Rightarrow> bool" where
  "linear ioc fsl a0 s a \<longleftrightarrow> drv_run ioc fsl a0 (cd_events s) a \<and> files a = cd_files s \<and> sys_inv a \<and>
     (\<forall>fd env call pt. cd_calls s fd = Some (env, call, pt) \<longrightarrow>
        (\<exists>filp. cd_files s fd = Some filp \<and> call_ok ioc fsl (kern a) (cd_kern s) filp env call pt)) \<and>
     (\<forall>fd fd'. holds s fd \<longrightarrow> holds s fd' \<longrightarrow> fd = fd') \<and>
     (if \<exists>fd. holds s fd then lock (aesd_device (cd_kern s)) = Mutex_Held else cd_kern s = kern a)"

lemma atomic_no_fault:
  assumes "driver_inv k" "private_data filp = The_Aesd_Device" "args_ok call"
    "\<And>ubuf cnt. call = Write_Call ubuf cnt \<Longrightarrow> alloc_ok env k cnt"
  shows "\<exists>r k'. atomic_call ioc fsl env call filp k = Inr (r, k')"
proof (cases call)
  case (Read_Call cnt)
  with aesd_read_no_fault [OF assms(1,2), of env cnt "f_pos filp"] show ?thesis by auto
next
  case (Write_Call ubuf cnt)
  with assms(3,4) have a: "write_args_ok env k ubuf cnt" by (simp add: write_args_ok_def)
  show ?thesis
  proof (cases "lock_rc env = 0 \<and> alloc_ret env \<noteq> NULL \<and> not_copied env = 0")
    case True
    then have ok: "lock_rc env = 0" "alloc_ret env \<noteq> NULL" "not_copied env = 0" by simp_all
    obtain k' where "aesd_write env k filp ubuf cnt (f_pos filp) = Inr (int (length ubuf), f_pos filp + cnt, k')"
      by (rule aesd_write_success [OF assms(1,2) ok(1) a ok(2,3)])
    with Write_Call show ?thesis by simp
  next
    case False
    then have bad: "lock_rc env \<noteq> 0 \<or> alloc_ret env = NULL \<or> not_copied env \<noteq> 0" by blast
    obtain x k' where "aesd_write env k filp ubuf cnt (f_pos filp) = Inr (x, f_pos filp, k')"
      by (rule aesd_write_failure [OF assms(1,2) a bad]) blast
    with Write_Call show ?thesis by simp
  qed
next
  case (Llseek_Call off whence)
  with aesd_llseek_no_fault [OF assms(1,2), of fsl env off whence] show ?thesis by auto
next
  case (Ioctl_Call cmd)
  with aesd_ioctl_no_fault [OF assms(1,2), of ioc fsl env cmd] show ?thesis by auto
qed

lemma atomic_drv_step:
  assumes "files a fd = Some filp" "args_ok call" "atomic_call ioc fsl env call filp (kern a) = Inr (r, k')"
    "\<And>ubuf cnt. call = Write_Call ubuf cnt \<Longrightarrow> lock_rc env \<noteq> 0 \<or> alloc_ok env (kern a) cnt"
  shows "drv_step ioc fsl a (event_of fd call r) (a\<lparr>kern := k', files := (files a)(fd \<mapsto> fst (snd r))\<rparr>)"
proof (cases call)
  case (Read_Call cnt)
  with assms show ?thesis by (auto simp: ebind_eq_Inr intro: drv_step.step_read)
next
  case (Write_Call ubuf cnt)
  with assms(3) obtain x p where w: "aesd_write env (kern a) filp ubuf cnt (f_pos filp) = Inr (x, p, k')"
    and r: "r = (x, filp\<lparr>f_pos := p\<rparr>, [])" by (auto simp: ebind_eq_Inr)
  obtain env' where "write_args_ok env' (kern a) ubuf cnt" "aesd_write env' (kern a) filp ubuf cnt (f_pos filp) = Inr (x, p, k')"
  proof (cases "lock_rc env = 0")
    case True
    with Write_Call assms(2,4) w that [of env] show thesis by (auto simp: write_args_ok_def)
  next
    case False
    with Write_Call assms(2) w that [of "env\<lparr>alloc_ret := NULL\<rparr>"] show thesis
      by (auto simp: write_args_ok_def alloc_ok_def kzalloc_ok_def krealloc_ok_def aesd_write_def Let_def)
  qed
  from drv_step.step_write [OF assms(1) this] r Write_Call show ?thesis by simp
next
  case (Llseek_Call off whence)
  with assms show ?thesis by (auto simp: ebind_eq_Inr intro: drv_step.step_llseek)
next
  case (Ioctl_Call cmd)
  with assms show ?thesis by (auto simp: ebind_eq_Inr intro: drv_step.step_ioctl)
qed


lemma call_ok_outside: "\<not> inside pt \<Longrightarrow> call_ok ioc fsl k0 k filp env call pt \<Longrightarrow> call_ok ioc fsl k1 k2 filp env call pt"
  by (simp add: call_ok_def)

lemma linearD:
  assumes "linear ioc fsl a0 s a"
  shows "drv_run ioc fsl a0 (cd_events s) a" "files a = cd_files s" "sys_inv a"
    "cd_calls s fd = Some (env, call, pt) \<Longrightarrow> \<exists>filp. cd_files s fd = Some filp \<and> call_ok ioc fsl (kern a) (cd_kern s) filp env call pt"
    "holds s fd \<Longrightarrow> holds s fd' \<Longrightarrow> fd = fd'"
    "holds s fd \<Longrightarrow> lock (aesd_device (cd_kern s)) = Mutex_Held" "\<nexists>fd. holds s fd \<Longrightarrow> cd_kern s = kern a"
  using assms unfolding linear_def by (auto split: if_splits)

text \<open>A step of a call outside the mutex that stays outside, and one into the mutex or inside it.\<close>

lemma linear_outside:
  assumes lin: "linear ioc fsl a0 s a" and c: "cd_calls s fd = Some (env, call, pt)" "cd_files s fd = Some filp"
    and "\<not> inside pt" "\<not> inside pt'" "call_ok ioc fsl (kern a) (cd_kern s) filp env' call pt'"
  shows "linear ioc fsl a0 (s\<lparr>cd_calls := (cd_calls s)(fd \<mapsto> (env', call, pt'))\<rparr>) a" (is "linear _ _ _ ?s _")
proof -
  have h: "holds ?s fd' \<longleftrightarrow> holds s fd'" for fd' using assms by (auto simp: holds_def)
  show ?thesis
    using lin assms(2-) unfolding linear_def h by (auto split: if_splits)
qed

lemma linear_inside:
  assumes lin: "linear ioc fsl a0 s a" and c: "cd_calls s fd = Some (env, call, pt)" "cd_files s fd = Some filp"
    and alone: "\<And>fd'. holds s fd' \<Longrightarrow> fd' = fd" and "inside pt'" "lock (aesd_device k') = Mutex_Held"
    "call_ok ioc fsl (kern a) k' filp env' call pt'"
  shows "linear ioc fsl a0 (s\<lparr>cd_kern := k', cd_calls := (cd_calls s)(fd \<mapsto> (env', call, pt'))\<rparr>) a" (is "linear _ _ _ ?s _")
proof -
  have h: "holds ?s fd' \<longleftrightarrow> fd' = fd" for fd' using assms(4,5) by (auto simp: holds_def)
  have others: "\<exists>filp. cd_files s fd' = Some filp \<and> call_ok ioc fsl (kern a) k' filp e cl p"
    if "cd_calls s fd' = Some (e, cl, p)" "fd' \<noteq> fd" for fd' e cl p
  proof -
    have "\<not> inside p" using alone [of fd'] that by (auto simp: holds_def)
    with linearD(4) [OF lin that(1)] show ?thesis using call_ok_outside by blast
  qed
  show ?thesis
    using linearD(1-3) [OF lin] others assms(3,6,7) unfolding linear_def h by auto
qed

text \<open>A call returns: it takes effect as one step of the system.\<close>

lemma linear_return:
  assumes lin: "linear ioc fsl a0 s a" and fsl: "fixed_size_llseek_ok fsl" and c: "cd_calls s fd = Some (env, call, pt)"
    and st: "drv_step ioc fsl a (event_of fd call r) (a\<lparr>kern := k0, files := (files a)(fd \<mapsto> fst (snd r))\<rparr>)"
    and k: "\<not> holds s fd \<and> k' = cd_kern s \<and> k0 = kern a \<or> (\<forall>fd'. holds s fd' \<longrightarrow> fd' = fd) \<and> k' = k0"
  shows "linear ioc fsl a0 (after_step fd env' call (Return_To r) k' s) (a\<lparr>kern := k0, files := (files a)(fd \<mapsto> fst (snd r))\<rparr>)"
    (is "linear _ _ _ ?s ?a")
proof -
  have h: "holds ?s fd' \<longleftrightarrow> holds s fd' \<and> fd' \<noteq> fd" for fd' by (auto simp: holds_def after_step_def)
  have "drv_run ioc fsl a0 (cd_events s @ [event_of fd call r]) ?a" by (rule run_snoc [OF linearD(1) [OF lin] st])
  moreover have "sys_inv ?a" by (rule drv_step_inv [OF st fsl linearD(3) [OF lin]])
  moreover have others: "\<exists>filp. cd_files s fd' = Some filp \<and> call_ok ioc fsl k0 k' filp e cl p"
    if "cd_calls s fd' = Some (e, cl, p)" "fd' \<noteq> fd" for fd' e cl p
  proof (cases "inside p")
    case True
    then have "holds s fd'" using that by (auto simp: holds_def)
    with k that(2) have "k' = cd_kern s \<and> k0 = kern a" by auto
    with linearD(4) [OF lin that(1)] show ?thesis by simp
  next
    case False
    with linearD(4) [OF lin that(1)] show ?thesis using call_ok_outside by blast
  qed
  moreover have "if \<exists>fd. holds ?s fd then lock (aesd_device k') = Mutex_Held else k' = k0"
    using k linearD(6,7) [OF lin] unfolding h by metis
  ultimately show ?thesis
    using linearD(2) [OF lin] linearD(5) [OF lin] unfolding linear_def h by (auto simp: after_step_def)
qed


lemma after_step_stay:
  "(\<And>r. pt \<noteq> Return_To r) \<Longrightarrow> after_step fd env call pt k s = s\<lparr>cd_kern := k, cd_calls := (cd_calls s)(fd \<mapsto> (env, call, pt))\<rparr>"
  by (cases pt) (auto simp: after_step_def)

lemma returned_eq: "returned x = Inr (Return_To r, k) \<longleftrightarrow> x = Inr (r, k)"
  by (cases x) auto

lemma linear_call:
  assumes lin: "linear ioc fsl a0 s a" and c: "cd_calls s fd = Some (env, call, pt)" "cd_files s fd = Some filp"
  shows "call_ok ioc fsl (kern a) (cd_kern s) filp env call pt" "fits call pt" "args_ok call"
    "private_data filp = The_Aesd_Device" "driver_inv (kern a)" "files a fd = Some filp"
  using linearD(2,3) [OF lin] linearD(4) [OF lin c(1)] c(2) by (auto simp: call_ok_def sys_inv_def)

lemma outside_moves:
  assumes lin: "linear ioc fsl a0 s a" and fsl: "fixed_size_llseek_ok fsl"
    and c: "cd_calls s fd = Some (env, call, pt)" "cd_files s fd = Some filp" and out: "\<not> inside pt"
    and lk: "takes_lock env call pt \<longrightarrow> lock (aesd_device (cd_kern s)) = Mutex_Free"
  shows "\<exists>pt' k' a'. call_step ioc fsl env call filp pt (cd_kern s) = Inr (pt', k') \<and> linear ioc fsl a0 (after_step fd env call pt' k' s) a'"
proof -
  note call = linear_call [OF lin c]
  have fin: "finish_call ioc fsl env call filp pt k = returned (atomic_call ioc fsl env call filp k)" for k
    using call(1) out by (simp add: call_ok_def)
  note step = outside_step [OF call(2) out call(4), of env ioc fsl]
  show ?thesis
  proof (cases "takes_lock env call pt")
    case True
    then have lock0: "lock_rc env = 0" by (cases "(env, call, pt)" rule: takes_lock.cases) auto
    from True lk have none: "\<not> holds s fd'" for fd' using linearD(6) [OF lin] by force
    then have k: "cd_kern s = kern a" using linearD(7) [OF lin] by blast
    from True step [of "kern a"] obtain pt' where st: "call_step ioc fsl env call filp pt (kern a) = Inr (pt', mutex_lock (kern a))"
      and pt': "inside pt'" "\<And>ubuf cnt. call = Write_Call ubuf cnt \<Longrightarrow> pt' = Allocate" by auto
    then have nr: "pt' \<noteq> Return_To r" for r by auto
    have "finish_call ioc fsl env call filp pt' (mutex_lock (kern a)) = returned (atomic_call ioc fsl env call filp (kern a))"
      using fin [of "kern a"] st by (simp add: finish_call_step [OF call(2)])
    with pt' lock0 call(3) call_step_next [OF st call(2)] nr have "call_ok ioc fsl (kern a) (mutex_lock (kern a)) filp env call pt'"
      by (auto simp: call_ok_def)
    from linear_inside [OF lin c _ pt'(1) _ this] none st k nr show ?thesis by (auto simp: after_step_stay)
  next
    case False
    with step obtain pt' where st: "\<And>k. call_step ioc fsl env call filp pt k = Inr (pt', k)" and pt': "\<not> inside pt'"
      and wr: "\<And>ubuf cnt. call = Write_Call ubuf cnt \<Longrightarrow> lock_rc env \<noteq> 0" by auto
    have fin': "finish_call ioc fsl env call filp pt' k = returned (atomic_call ioc fsl env call filp k)" for k
      using fin [of k] st by (simp add: finish_call_step [OF call(2)])
    have nh: "\<not> holds s fd" using c out by (auto simp: holds_def)
    show ?thesis
    proof (cases "\<exists>r. pt' = Return_To r")
      case True
      then obtain r where r: "pt' = Return_To r" ..
      with fin' [of "kern a"] have "atomic_call ioc fsl env call filp (kern a) = Inr (r, kern a)" by (simp add: returned_eq [symmetric])
      from linear_return [OF lin fsl c(1) atomic_drv_step [OF call(6,3) this]] wr nh r st show ?thesis by blast
    next
      case False
      with call_step_next [OF st call(2)] pt' call(3) fin' have ok: "call_ok ioc fsl (kern a) (cd_kern s) filp env call pt'"
        by (auto simp: call_ok_def)
      have "after_step fd env call pt' (cd_kern s) s = s\<lparr>cd_calls := (cd_calls s)(fd \<mapsto> (env, call, pt'))\<rparr>"
        using False by (subst after_step_stay) auto
      with linear_outside [OF lin c out pt' ok] st show ?thesis by auto
    qed
  qed
qed

lemma inside_goal:
  assumes lin: "linear ioc fsl a0 s a" and c: "cd_calls s fd = Some (env, call, pt)" "cd_files s fd = Some filp" and ins: "inside pt"
    and al: "needs_alloc call pt (answered p env pt) (cd_kern s)" and env': "env' = answered p env pt"
  shows "finish_call ioc fsl env' call filp pt (cd_kern s) = returned (atomic_call ioc fsl env' call filp (kern a))"
    "call = Write_Call ubuf cnt \<Longrightarrow> alloc_ok env' (kern a) cnt"
proof -
  note call = linear_call [OF lin c]
  have "finish_call ioc fsl env' call filp pt (cd_kern s) = returned (atomic_call ioc fsl env' call filp (kern a)) \<and>
    (call = Write_Call ubuf cnt \<longrightarrow> alloc_ok env' (kern a) cnt)"
  proof (cases "pt = Allocate")
    case True
    with call(2) obtain ub n where w: "call = Write_Call ub n" by (cases call) auto
    from call(1) True have k: "cd_kern s = mutex_lock (kern a)" "lock_rc env' = 0"
      by (simp_all add: call_ok_def env' answered_def)
    have "finish_call ioc fsl env' call filp Enter (kern a) = finish_call ioc fsl env' call filp Allocate (mutex_lock (kern a))"
      using w k(2) call(4) by (simp add: finish_call_step [where pt = Enter] lock_or_return_def)
    with finish_Enter [of ioc fsl env' call filp "kern a"] al True w k(1) env' show ?thesis by auto
  next
    case False
    with call(1) ins env' show ?thesis by (simp add: call_ok_def answered_def)
  qed
  then show "finish_call ioc fsl env' call filp pt (cd_kern s) = returned (atomic_call ioc fsl env' call filp (kern a))"
    "call = Write_Call ubuf cnt \<Longrightarrow> alloc_ok env' (kern a) cnt" by blast+
qed

lemma inside_moves:
  assumes lin: "linear ioc fsl a0 s a" and fsl: "fixed_size_llseek_ok fsl"
    and c: "cd_calls s fd = Some (env, call, pt)" "cd_files s fd = Some filp" and ins: "inside pt"
    and al: "needs_alloc call pt (answered p env pt) (cd_kern s)" and env': "env' = answered p env pt"
  shows "\<exists>pt' k' a'. call_step ioc fsl env' call filp pt (cd_kern s) = Inr (pt', k') \<and> linear ioc fsl a0 (after_step fd env' call pt' k' s) a'"
proof -
  note call = linear_call [OF lin c] and goal = inside_goal [OF lin c ins al env']
  have h: "holds s fd" using c ins by (auto simp: holds_def)
  then have alone: "\<And>fd'. holds s fd' \<Longrightarrow> fd' = fd" and held: "lock (aesd_device (cd_kern s)) = Mutex_Held"
    using linearD(5,6) [OF lin] by blast+
  obtain r k0 where at: "atomic_call ioc fsl env' call filp (kern a) = Inr (r, k0)"
    using atomic_no_fault [OF call(5,4,3), of env' ioc fsl] goal(2) by blast
  with goal(1) finish_call_step [OF call(2), of ioc fsl env' filp "cd_kern s"] obtain pt' k' where
    st: "call_step ioc fsl env' call filp pt (cd_kern s) = Inr (pt', k')"
    and fin: "finish_call ioc fsl env' call filp pt' k' = Inr (Return_To r, k0)" by (auto simp: ebind_eq_Inr)
  from inside_step [OF call(2) ins st] show ?thesis
  proof (elim disjE exE conjE)
    fix r' assume "pt' = Return_To r'"
    with fin have pt': "pt' = Return_To r" "k' = k0" by simp_all
    have "drv_step ioc fsl a (event_of fd call r) (a\<lparr>kern := k0, files := (files a)(fd \<mapsto> fst (snd r))\<rparr>)"
      by (rule atomic_drv_step [OF call(6,3) at]) (use goal(2) in blast)
    from linear_return [OF lin fsl c(1) this, of k0 env'] alone st pt' show ?thesis by blast
  next
    assume pt': "inside pt'" "pt' \<noteq> Allocate" "lock (aesd_device k') = lock (aesd_device (cd_kern s))"
    then have nr: "pt' \<noteq> Return_To r" for r by auto
    have "call_ok ioc fsl (kern a) k' filp env' call pt'"
      using pt' nr call_step_next [OF st call(2)] call(3) fin at goal(2) by (auto simp: call_ok_def)
    from linear_inside [OF lin c alone pt'(1) _ this] pt'(3) held st nr show ?thesis by (auto simp: after_step_stay)
  qed
qed

lemma linear_moves:
  assumes lin: "linear ioc fsl a0 s a" and fsl: "fixed_size_llseek_ok fsl" and mv: "call_moves ioc fsl fd s r"
  shows "\<exists>s' a'. r = Inr s' \<and> linear ioc fsl a0 s' a'"
  using mv
proof cases
  case (moves env call pt filp env' p)
  show ?thesis
  proof (cases "inside pt")
    case True
    from inside_moves [OF lin fsl moves(2,3) True _ moves(5)] moves show ?thesis by auto
  next
    case False
    then have "env' = env" using moves(5) by (auto simp: answered_def)
    with outside_moves [OF lin fsl moves(2,3) False moves(4)] moves(1) show ?thesis by auto
  qed
qed

lemma linear_step:
  assumes lin: "linear ioc fsl a0 s a" and fsl: "fixed_size_llseek_ok fsl" and st: "cdrv_step ioc fsl s r"
  shows "\<exists>s' a'. r = Inr s' \<and> linear ioc fsl a0 s' a'"
  using st
proof cases
  case (c_open fd filp)
  let ?a = "a\<lparr>files := (files a)(fd \<mapsto> filp)\<rparr>"
  have d: "drv_step ioc fsl a (Ev_Open fd) ?a" by (rule drv_step.step_open) (use c_open linearD(2) [OF lin] in auto)
  have "cd_calls s fd = None" using linearD(4) [OF lin, of fd] c_open(2) by (cases "cd_calls s fd") auto
  with lin c_open run_snoc [OF linearD(1) [OF lin] d] drv_step_inv [OF d fsl linearD(3) [OF lin]] show ?thesis
    by (auto simp: linear_def holds_def intro!: exI [of _ ?a])
next
  case (c_release fd filp)
  let ?a = "a\<lparr>files := (files a)(fd := None)\<rparr>"
  have d: "drv_step ioc fsl a (Ev_Release fd) ?a" by (rule drv_step.step_release) (use c_release linearD(2) [OF lin] in auto)
  with lin c_release run_snoc [OF linearD(1) [OF lin] d] drv_step_inv [OF d fsl linearD(3) [OF lin]] show ?thesis
    by (auto simp: linear_def holds_def intro!: exI [of _ ?a])
next
  case (c_call fd filp call env)
  let ?s = "s\<lparr>cd_calls := (cd_calls s)(fd \<mapsto> (env, call, Enter))\<rparr>"
  have ok: "call_ok ioc fsl (kern a) (cd_kern s) filp env call Enter" using c_call by (simp add: call_ok_def finish_Enter)
  have h: "holds ?s fd' \<longleftrightarrow> holds s fd'" for fd' using c_call(3) by (auto simp: holds_def)
  have "linear ioc fsl a0 ?s a" using lin c_call(2) ok unfolding linear_def h by auto
  with c_call(1) show ?thesis by blast
next
  case (c_moves fd)
  from linear_moves [OF lin fsl this] show ?thesis .
qed

lemma linear_reach:
  assumes "cdrv_reach ioc fsl (idle a0) s" "fixed_size_llseek_ok fsl" "sys_inv a0"
  shows "\<exists>a. linear ioc fsl a0 s a"
  using assms(1)
proof (induction rule: cdrv_reach.induct)
  case reach_start
  have "linear ioc fsl a0 (idle a0) a0" using assms(3) by (auto simp: linear_def idle_def holds_def intro: run_nil)
  then show ?case ..
next
  case (reach_step s s')
  then obtain a where "linear ioc fsl a0 s a" by blast
  from linear_step [OF this assms(2) reach_step.hyps(2)] show ?case by auto
qed


section \<open>Progress\<close>

lemma linear_can_move:
  assumes lin: "linear ioc fsl a0 s a" and fsl: "fixed_size_llseek_ok fsl" and some: "cd_calls s fd \<noteq> None"
  shows "\<exists>fd s'. call_moves ioc fsl fd s (Inr s')"
proof -
  have can: ?thesis if "cd_calls s fd' = Some (env, call, pt)" "takes_lock env call pt \<longrightarrow> lock (aesd_device (cd_kern s)) = Mutex_Free"
    for fd' env call pt
  proof -
    from linearD(4) [OF lin that(1)] obtain filp where f: "cd_files s fd' = Some filp" by blast
    have "needs_alloc call pt (answered NULL env pt) (cd_kern s)"
      by (cases "(call, pt, env, cd_kern s)" rule: needs_alloc.cases)
        (auto simp: answered_def alloc_ok_def kzalloc_ok_def krealloc_ok_def Let_def)
    from moves [OF that(1) f that(2) refl this] linear_moves [OF lin fsl] show ?thesis by metis
  qed
  show ?thesis
  proof (cases "\<exists>fd'. holds s fd'")
    case True
    then obtain fd' env call pt where h: "cd_calls s fd' = Some (env, call, pt)" "inside pt" by (auto simp: holds_def)
    then have "\<not> takes_lock env call pt" by (cases "(env, call, pt)" rule: takes_lock.cases) auto
    with can [OF h(1)] show ?thesis by blast
  next
    case False
    with linearD(3,7) [OF lin] have "lock (aesd_device (cd_kern s)) = Mutex_Free" by (auto simp: sys_inv_def driver_inv_def)
    with can some show ?thesis by (cases "cd_calls s fd") auto
  qed
qed

lemma moves_point_left:
  assumes lin: "linear ioc fsl a0 s a" and mv: "call_moves ioc fsl fd s (Inr s')" and c: "cd_calls s fd = Some (env, call, pt)"
  shows "case cd_calls s' fd of None \<Rightarrow> True | Some (env', call', pt') \<Rightarrow> call' = call \<and> point_left pt' < point_left pt"
  using mv
proof cases
  case (moves env1 call1 pt1 filp env' p)
  with c obtain pt' k' where st: "call_step ioc fsl env' call filp pt (cd_kern s) = Inr (pt', k')"
    and s': "s' = after_step fd env' call pt' k' s" by (auto simp: ebind_eq_Inr dest!: sym [of "Inr s'"])
  have "fits call pt" using linear_call(2) [OF lin c moves(3)] .
  from call_step_next [OF st this] s' show ?thesis by (cases pt') (auto simp: after_step_def)
qed


text \<open>A call that is not disturbed runs to its return.\<close>

lemma reach_trans: "cdrv_reach ioc fsl s1 s2 \<Longrightarrow> cdrv_reach ioc fsl s0 s1 \<Longrightarrow> cdrv_reach ioc fsl s0 s2"
  by (induction rule: cdrv_reach.induct) (auto intro: reach_step)

lemma call_runs:
  assumes "cd_calls s fd = Some (env, call, pt)" "cd_files s fd = Some filp" "fits call pt" "private_data filp = The_Aesd_Device"
    "finish_call ioc fsl env call filp pt (cd_kern s) = Inr (Return_To r, k')"
    "\<not> inside pt \<longrightarrow> lock (aesd_device (cd_kern s)) = Mutex_Free"
    "pt = Enter \<or> pt = Allocate \<longrightarrow> needs_alloc call Allocate env (cd_kern s)"
  shows "cdrv_reach ioc fsl s (after_step fd env call (Return_To r) k' s)"
  using assms
proof (induction "point_left pt" arbitrary: pt s rule: less_induct)
  case less
  from less.prems(5) finish_call_step [OF less.prems(3), of ioc fsl env filp "cd_kern s"] obtain pt1 k1 where
    st: "call_step ioc fsl env call filp pt (cd_kern s) = Inr (pt1, k1)"
    and fin: "finish_call ioc fsl env call filp pt1 k1 = Inr (Return_To r, k')" by (auto simp: ebind_eq_Inr)
  note nx = call_step_next [OF st less.prems(3)]
  have env: "answered (alloc_ret env) env pt = env" by (simp add: answered_def)
  have al: "needs_alloc call pt (answered (alloc_ret env) env pt) (cd_kern s)"
    using less.prems(7) unfolding env by (cases "(call, pt, env, cd_kern s)" rule: needs_alloc.cases) auto
  have lk: "takes_lock env call pt \<longrightarrow> lock (aesd_device (cd_kern s)) = Mutex_Free" using less.prems(6) by (cases pt) auto
  let ?s1 = "after_step fd env call pt1 k1 s"
  from moves [OF less.prems(1,2) lk refl al, of ioc fsl] have "call_moves ioc fsl fd s (Inr ?s1)" by (simp add: env st)
  then have r1: "cdrv_reach ioc fsl s ?s1" by (rule reach_step [OF reach_start c_moves])
  show ?case
  proof (cases "\<exists>r. pt1 = Return_To r")
    case True
    with fin r1 show ?thesis by auto
  next
    case False
    then have s1: "?s1 = s\<lparr>cd_kern := k1, cd_calls := (cd_calls s)(fd \<mapsto> (env, call, pt1))\<rparr>"
      by (intro after_step_stay) blast
    have p: "(\<not> inside pt1 \<longrightarrow> lock (aesd_device k1) = Mutex_Free) \<and> (pt1 = Enter \<or> pt1 = Allocate \<longrightarrow> needs_alloc call Allocate env k1)"
    proof (cases "inside pt")
      case True
      from inside_step [OF less.prems(3) True st] False show ?thesis by auto
    next
      case out: False
      have "pt1 \<noteq> Enter" using nx by (cases pt) auto
      moreover have "needs_alloc call Allocate env (mutex_lock (cd_kern s))" if "pt1 = Allocate"
        using that less.prems(3,7) nx out by (cases call; cases pt) auto
      ultimately show ?thesis
        using outside_step [OF less.prems(3) out less.prems(4), of env ioc fsl "cd_kern s"] st less.prems(6) out
        by (auto split: if_splits)
    qed
    from less.hyps [of pt1 ?s1] nx False fin s1 p less.prems(2,4)
    have "cdrv_reach ioc fsl ?s1 (after_step fd env call (Return_To r) k' ?s1)" by auto
    moreover have "after_step fd env call (Return_To r) k' ?s1 = after_step fd env call (Return_To r) k' s"
      unfolding s1 by (simp add: after_step_def)
    ultimately show ?thesis using reach_trans [OF _ r1] by simp
  qed
qed

section \<open>Properties\<close>

text \<open>
  C6: System calls in progress at the same time on any number of open files, at most one on each file and no
  write of zero bytes among them, their steps interleaved in any way: no step touches invalid memory, at most one call is inside the mutex, and the calls
  that have returned have the results, the file positions and, when no call is inside, the effect
  on the device of the same operations executed one at a time in that order.
\<close>

theorem driver_calls_take_effect_one_at_a_time:
  assumes "cdrv_reach ioc fsl (idle a0) s" "fixed_size_llseek_ok fsl" "sys_inv a0"
  shows "(\<forall>r. cdrv_step ioc fsl s r \<longrightarrow> (\<exists>s'. r = Inr s')) \<and> (\<forall>fd fd'. holds s fd \<longrightarrow> holds s fd' \<longrightarrow> fd = fd') \<and>
    (\<exists>a. drv_run ioc fsl a0 (cd_events s) a \<and> files a = cd_files s \<and> ((\<nexists>fd. holds s fd) \<longrightarrow> kern a = cd_kern s))"
proof -
  obtain a where lin: "linear ioc fsl a0 s a" using linear_reach [OF assms] ..
  with linear_step [OF lin assms(2)] linearD [OF lin] show ?thesis by metis
qed

text \<open>Two open files, a write on one and a read on the other.\<close>

definition ex_two :: drv_sys where
  "ex_two = \<lparr>kern = ex_used, files = [4 \<mapsto> ex_file, 5 \<mapsto> ex_file]\<rparr>"

lemma ex_two_inv: "sys_inv ex_two"
  using ex_used_inv by (auto simp: sys_inv_def ex_two_def ex_file_def split: if_splits)

definition ex_write_call :: drv_call where
  "ex_write_call = Write_Call (''y'' @ [newline]) 2"

definition ex_called :: cdrv where
  "ex_called = (idle ex_two)\<lparr>cd_calls := [4 \<mapsto> (ex_env, ex_write_call, Enter), 5 \<mapsto> (ex_env, Read_Call 9, Enter)]\<rparr>"

lemma ex_called_reach: "cdrv_reach ioc fsl (idle ex_two) ex_called"
proof -
  let ?s = "(idle ex_two)\<lparr>cd_calls := [4 \<mapsto> (ex_env, ex_write_call, Enter)]\<rparr>"
  have "cdrv_step ioc fsl (idle ex_two) (Inr ?s)"
    using c_call [of "idle ex_two" 4 ex_file ex_write_call ioc fsl ex_env] by (simp add: idle_def ex_two_def ex_write_call_def)
  moreover have "cdrv_step ioc fsl ?s (Inr ex_called)"
    using c_call [of ?s 5 ex_file "Read_Call 9" ioc fsl ex_env] by (simp add: idle_def ex_two_def ex_called_def)
  ultimately show ?thesis using reach_step [OF reach_step [OF reach_start]] by blast
qed

text \<open>The write has the mutex, the read waits for it.\<close>

definition ex_held :: cdrv where
  "ex_held = ex_called\<lparr>cd_kern := mutex_lock ex_used,
     cd_calls := [4 \<mapsto> (ex_env, ex_write_call, Allocate), 5 \<mapsto> (ex_env, Read_Call 9, Enter)]\<rparr>"

lemma ex_held_reach: "cdrv_reach ioc fsl (idle ex_two) ex_held"
proof -
  have "call_moves ioc fsl 4 ex_called (Inr ex_held)"
    using moves [of ex_called 4 ex_env ex_write_call Enter ex_file ex_env NULL ioc fsl]
    by (simp add: ex_called_def ex_held_def idle_def ex_two_def ex_write_call_def answered_def lock_or_return_def dev_of_def after_step_def
        ex_file_def ex_env_def ex_used_def ex_loaded_def fun_upd_twist)
  with ex_called_reach show ?thesis by (blast intro: reach_step c_moves)
qed

theorem driver_calls_take_effect_one_at_a_time_witness:
  "\<forall>ioc. \<exists>s a. cdrv_reach ioc ex_llseek (idle ex_two) s \<and> holds s 4 \<and> cd_calls s 5 \<noteq> None \<and> \<not> holds s 5 \<and>
     drv_run ioc ex_llseek ex_two (cd_events s) a \<and> files a = cd_files s"
proof
  fix ioc
  have "holds ex_held 4" "cd_calls ex_held 5 \<noteq> None" "\<not> holds ex_held 5" by (auto simp: ex_held_def holds_def)
  with driver_calls_take_effect_one_at_a_time [OF ex_held_reach ex_llseek_ok ex_two_inv] ex_held_reach
  show "\<exists>s a. cdrv_reach ioc ex_llseek (idle ex_two) s \<and> holds s 4 \<and> cd_calls s 5 \<noteq> None \<and> \<not> holds s 5 \<and>
     drv_run ioc ex_llseek ex_two (cd_events s) a \<and> files a = cd_files s" by blast
qed

text \<open>
  C7: Whenever no call is inside the mutex, in any interleaving in which no write ran out of memory, the
  device's invariant holds and its log is what the successful writes that have returned, in the order
  of their return, make of the initial log; calls in progress have no effect yet.
\<close>

theorem interleaved_writes_refine_log:
  assumes "cdrv_reach ioc fsl (idle a0) s" "fixed_size_llseek_ok fsl" "sys_inv a0" "pend_ok (kern a0)"
    "\<forall>ev \<in> set (cd_events s). \<not> out_of_memory ev" "\<nexists>fd. holds s fd"
  shows "driver_inv (cd_kern s) \<and> abs_log (cd_kern s) = foldl log_write (abs_log (kern a0)) (written (cd_events s))"
proof -
  obtain a where "linear ioc fsl a0 s a" using linear_reach [OF assms(1-3)] ..
  from linearD(1,7) [OF this] assms(6) drv_run_log [OF _ assms(2-5)] show ?thesis by (auto simp: sys_inv_def)
qed

theorem interleaved_writes_refine_log_witness:
  "\<forall>ioc. \<exists>s. cdrv_reach ioc ex_llseek (idle ex_two) s \<and> cd_calls s 5 = Some (ex_env, Read_Call 9, Enter) \<and>
     hist (abs_log (cd_kern s)) = [''ab'' @ [newline], ''c'' @ [newline], ''xy'' @ [newline]]"
proof
  fix ioc
  obtain k' where k': "aesd_write ex_env ex_used ex_file (''y'' @ [newline]) 2 0 = Inr (2, 2, k')"
    by (rule aesd_write_success [OF ex_used_inv _ _ ex_write_args, where filp = ex_file and fpos = 0])
      (auto simp: ex_file_def ex_env_def)
  let ?r = "(2, ex_file\<lparr>f_pos := 2\<rparr>, [])" let ?s = "after_step 4 ex_env ex_write_call (Return_To ?r) k' ex_called"
  have "f_pos ex_file = 0" by (simp add: ex_file_def)
  with k' have fin: "finish_call ioc ex_llseek ex_env ex_write_call ex_file Enter (cd_kern ex_called) = Inr (Return_To ?r, k')"
    by (simp add: finish_Enter ex_write_call_def ex_called_def idle_def ex_two_def)
  have "cdrv_reach ioc ex_llseek ex_called ?s"
    by (rule call_runs [where pt = Enter and filp = ex_file])
      (use fin ex_used_inv ex_write_args in
        \<open>simp_all add: ex_called_def idle_def ex_two_def ex_write_call_def driver_inv_def write_args_ok_def, simp add: ex_file_def\<close>)
  with ex_called_reach have reach: "cdrv_reach ioc ex_llseek (idle ex_two) ?s" using reach_trans by blast
  have e: "cd_events ?s = [Ev_Write 4 (''y'' @ [newline]) 2]" "cd_calls ?s 5 = Some (ex_env, Read_Call 9, Enter)" "\<nexists>fd. holds ?s fd"
    by (auto simp: after_step_def ex_called_def idle_def ex_write_call_def holds_def split: if_splits)
  from interleaved_writes_refine_log [OF reach ex_llseek_ok ex_two_inv _ _ e(3)] ex_used_code ex_used_log e(1)
  have "abs_log (cd_kern ?s) = log_write \<lparr>hist = [''ab'' @ [newline], ''c'' @ [newline]], pend = ''x''\<rparr> (''y'' @ [newline])"
    by (simp add: ex_two_def out_of_memory_def)
  with reach e(2) show "\<exists>s. cdrv_reach ioc ex_llseek (idle ex_two) s \<and> cd_calls s 5 = Some (ex_env, Read_Call 9, Enter) \<and>
     hist (abs_log (cd_kern s)) = [''ab'' @ [newline], ''c'' @ [newline], ''xy'' @ [newline]]"
    by (intro exI [of _ ?s]) (simp add: log_write_def)
qed

text \<open>
  C8: The calls in progress never wait for each other for ever: while a call is in progress some call can
  take a step, and every step of a call brings it closer to its return, which it reaches after at most
  five.
\<close>

theorem driver_calls_never_block:
  assumes "cdrv_reach ioc fsl (idle a0) s" "fixed_size_llseek_ok fsl" "sys_inv a0" "cd_calls s fd = Some (env, call, pt)"
  shows "(\<exists>fd' s'. call_moves ioc fsl fd' s (Inr s')) \<and> point_left pt \<le> 5 \<and>
    (\<forall>s'. call_moves ioc fsl fd s (Inr s') \<longrightarrow>
      (case cd_calls s' fd of None \<Rightarrow> True | Some (env', call', pt') \<Rightarrow> call' = call \<and> point_left pt' < point_left pt))"
proof -
  obtain a where lin: "linear ioc fsl a0 s a" using linear_reach [OF assms(1-3)] ..
  have "point_left pt \<le> 5" by (cases pt) auto
  with linear_can_move [OF lin assms(2), of fd] moves_point_left [OF lin _ assms(4)] assms(4) show ?thesis by blast
qed

theorem driver_calls_never_block_witness:
  "\<forall>ioc. \<exists>fd s'. cdrv_reach ioc ex_llseek (idle ex_two) ex_held \<and> holds ex_held 4 \<and> call_moves ioc ex_llseek fd ex_held (Inr s')"
proof
  fix ioc
  have "cd_calls ex_held 5 = Some (ex_env, Read_Call 9, Enter)" "holds ex_held 4" by (auto simp: ex_held_def holds_def)
  with driver_calls_never_block [OF ex_held_reach ex_llseek_ok ex_two_inv this(1)] ex_held_reach
  show "\<exists>fd s'. cdrv_reach ioc ex_llseek (idle ex_two) ex_held \<and> holds ex_held 4 \<and> call_moves ioc ex_llseek fd ex_held (Inr s')" by blast
qed

end
