(* ===== verification/Systemcalls.thy ===== *)
theory Systemcalls
  imports Aesd_Prelude
begin

text \<open>
  \<open>examples/systemcalls/systemcalls.c\<close>: running commands with \<open>system\<close> and with \<open>fork\<close>, \<open>execv\<close> and
  \<open>waitpid\<close>. After \<open>fork\<close> the code runs in two processes; a model function describes one of
  them, the result of \<open>fork\<close> in its environment says which. How the process goes on is the
  value: it returns from the function, is replaced by the command, or exits.
\<close>

section \<open>do_system\<close>

definition do_system :: "int \<Rightarrow> bool" where
  "do_system rt = (if rt = -1 then False else if rt = 127 then False else True)"

section \<open>The file name of a path\<close>

text \<open>The loop of \<open>get_file_name\<close>, from the last character down to the second.\<close>

fun file_name_loop :: "bytes \<Rightarrow> nat \<Rightarrow> nat" where
  "file_name_loop path 0 = 0"
| "file_name_loop path (Suc i) =
     (if path ! Suc i = CHR ''/'' then Suc (Suc i) else file_name_loop path i)"

text \<open>The offset of the result from \<open>path\<close>; for the empty path the loop starts at -1.\<close>

definition get_file_name :: "bytes \<Rightarrow> int" where
  "get_file_name path = (if path = [] then - 1 else int (file_name_loop path (length path - 1)))"

section \<open>do_exec and do_exec_redirect\<close>

datatype wait_status = Exited nat | Signaled nat

record exec_env =
  open_ret :: int
  fork_ret :: int
  dup2_stdout :: int
  exec_ok :: bool
  waitpid_ret :: int
  wstatus :: wait_status

datatype proc_end =
    Returns bool                     \<comment> \<open>the function returns to its caller\<close>
  | Execs bytes "bytes list" bool    \<comment> \<open>path, arguments, whether the output is redirected\<close>
  | Exits int

text \<open>The child's part, which both functions share.\<close>

definition exec_child :: "exec_env \<Rightarrow> bytes list \<Rightarrow> bool \<Rightarrow> fault + proc_end" where
  "exec_child env command redirected =
     (case command of [] \<Rightarrow> Inl Null_Deref
      | path # args \<Rightarrow>
          (let off = get_file_name path in
           if off < 0 then Inl Out_Of_Bounds
           else if exec_ok env then Inr (Execs path (drop (nat off) path # args) redirected)
           else Inr (Exits (- 1))))"

text \<open>The parent's part: wait for the child and judge its status.\<close>

definition exec_parent :: "exec_env \<Rightarrow> bool" where
  "exec_parent env =
     (if waitpid_ret env = -1 then False
      else case wstatus env of Exited n \<Rightarrow> (if n \<noteq> 0 then False else True) | Signaled _ \<Rightarrow> True)"

definition do_exec :: "exec_env \<Rightarrow> bytes list \<Rightarrow> fault + proc_end" where
  "do_exec env command =
     (if fork_ret env = -1 then Inr (Returns False)
      else if fork_ret env = 0 then exec_child env command False
      else Inr (Returns (exec_parent env)))"

text \<open>The second component tells whether the descriptor of the output file is still open in this process.\<close>

definition do_exec_redirect :: "exec_env \<Rightarrow> bytes list \<Rightarrow> fault + (proc_end \<times> bool)" where
  "do_exec_redirect env command =
     (if open_ret env < 0 then Inr (Returns False, False)
      else if fork_ret env = -1 then Inr (Returns False, False)
      else if fork_ret env = 0 then
        (if dup2_stdout env < 0 then Inr (Returns False, False)
         else ebind (exec_child env command True) (\<lambda>p. Inr (p, False)))
      else Inr (Returns (exec_parent env), False))"

section \<open>Properties\<close>

lemma file_name_loop_skip:
  "n < length path \<Longrightarrow> m \<le> n \<Longrightarrow> \<forall>i. m < i \<and> i \<le> n \<longrightarrow> path ! i \<noteq> CHR ''/'' \<Longrightarrow>
     file_name_loop path n = file_name_loop path m"
proof (induction n)
  case (Suc n)
  show ?case
  proof (cases "m = Suc n")
    case False
    with Suc.prems have "path ! Suc n \<noteq> CHR ''/''" "m \<le> n" by auto
    with Suc show ?thesis by simp
  qed simp
qed simp

lemma file_name_loop_slash:
  assumes "CHR ''/'' \<notin> set b" "d \<noteq> []"
  shows "file_name_loop (d @ CHR ''/'' # b) (length d + length b) = Suc (length d)"
proof -
  let ?p = "d @ CHR ''/'' # b"
  have "file_name_loop ?p (length d + length b) = file_name_loop ?p (length d)"
  proof (rule file_name_loop_skip)
    show "\<forall>i. length d < i \<and> i \<le> length d + length b \<longrightarrow> ?p ! i \<noteq> CHR ''/''"
    proof (intro allI impI)
      fix i assume i: "length d < i \<and> i \<le> length d + length b"
      then have "?p ! i = b ! (i - length d - 1)" by (simp add: nth_append nth_Cons')
      moreover have "b ! (i - length d - 1) \<in> set b" using i by (intro nth_mem) linarith
      ultimately show "?p ! i \<noteq> CHR ''/''" using assms(1) by metis
    qed
  qed simp_all
  also have "\<dots> = Suc (length d)" using assms(2) by (cases "length d") (simp_all add: nth_append)
  finally show ?thesis .
qed

text \<open>
  For a path with a directory part the file name found is exactly what follows the last slash.
\<close>

theorem get_file_name_basename:
  assumes "CHR ''/'' \<notin> set b" "d \<noteq> []"
  shows "get_file_name (d @ CHR ''/'' # b) = int (length d + 1) \<and> drop (length d + 1) (d @ CHR ''/'' # b) = b"
  using file_name_loop_slash [OF assms] by (simp add: get_file_name_def)

theorem get_file_name_basename_witness: "get_file_name ''/bin/echo'' = 5"
  using get_file_name_basename [of "''echo''" "''/bin''"] by simp

text \<open>What follows the last slash; a slash at the very beginning does not count.\<close>

definition base_name :: "bytes \<Rightarrow> bytes" where
  "base_name path =
     (if CHR ''/'' \<in> set (tl path) then rev (takeWhile (\<lambda>c. c \<noteq> CHR ''/'') (rev path)) else path)"

lemma get_file_name_base:
  assumes "path \<noteq> []"
  shows "0 \<le> get_file_name path \<and> drop (nat (get_file_name path)) path = base_name path"
proof (cases "CHR ''/'' \<in> set (tl path)")
  case True
  then obtain d b where b: "tl path = d @ CHR ''/'' # b" "CHR ''/'' \<notin> set b" by (meson split_list_last)
  from assms b(1) have "path = (hd path # d) @ CHR ''/'' # b" by (metis append_Cons list.collapse)
  then obtain d' where p: "path = d' @ CHR ''/'' # b" "d' \<noteq> []" by blast
  have "takeWhile (\<lambda>c. c \<noteq> CHR ''/'') (rev path) = rev b"
    using b(2) by (auto simp: p(1) takeWhile_append2 takeWhile_tail)
  with True have "base_name path = b" by (simp add: base_name_def)
  with file_name_loop_slash [OF b(2) p(2)] p(1) show ?thesis by (simp add: get_file_name_def nat_add_distrib)
next
  case False
  have "path ! i \<noteq> CHR ''/''" if "0 < i" "i < length path" for i
  proof -
    have "tl path ! (i - 1) \<in> set (tl path)" using that by (intro nth_mem) simp
    moreover have "tl path ! (i - 1) = path ! i" using that by (simp add: nth_tl)
    ultimately show ?thesis using False by metis
  qed
  then have "file_name_loop path (length path - 1) = file_name_loop path 0"
    using assms by (intro file_name_loop_skip) auto
  with False assms show ?thesis by (simp add: get_file_name_def base_name_def)
qed

text \<open>The status the parent sees of a child; \<open>prog\<close> is what the commands do.\<close>

fun child_status :: "(bytes \<Rightarrow> bytes list \<Rightarrow> wait_status) \<Rightarrow> proc_end \<Rightarrow> wait_status option" where
  "child_status prog (Exits n) = Some (Exited (nat (n mod 256)))"
| "child_status prog (Execs path args _) = Some (prog path args)"
| "child_status prog (Returns b) = None"

text \<open>
  C29: \<open>do_exec\<close>, child and parent together: the child of a successful \<open>fork\<close> never returns to the caller, it
  becomes the command, called by its file name and with the other arguments unchanged, or it
  exits; and the parent, which waits for this child, returns true exactly when the command was
  executed and ended with status 0, or was killed by a signal. (The last case is not success by the function's
  documentation, which asks for a command that was executed successfully.)
\<close>

theorem do_exec_outcome:
  assumes "path \<noteq> []" "0 < pid"
  shows "\<exists>c st. do_exec (env\<lparr>fork_ret := 0\<rparr>) (path # args) = Inr c \<and> child_status prog c = Some st \<and>
    (\<forall>p as r. c = Execs p as r \<longrightarrow> p = path \<and> as = base_name path # args \<and> \<not> r) \<and>
    do_exec (env\<lparr>fork_ret := pid, wstatus := st\<rparr>) (path # args) =
      Inr (Returns (waitpid_ret env \<noteq> -1 \<and> exec_ok env \<and>
        (prog path (base_name path # args) = Exited 0 \<or> (\<exists>sig. prog path (base_name path # args) = Signaled sig))))"
proof -
  have "do_exec (env\<lparr>fork_ret := 0\<rparr>) (path # args) =
      Inr (if exec_ok env then Execs path (base_name path # args) False else Exits (- 1))"
    using get_file_name_base [OF assms(1)] by (simp add: do_exec_def exec_child_def Let_def)
  with assms(2) show ?thesis
    by (cases "exec_ok env") (auto simp: do_exec_def exec_parent_def split: wait_status.split)
qed

definition ex_exec :: exec_env where
  "ex_exec = \<lparr>open_ret = 4, fork_ret = 0, dup2_stdout = 1, exec_ok = True, waitpid_ret = 9, wstatus = Exited 0\<rparr>"

theorem do_exec_outcome_witness:
  "\<exists>c. do_exec (ex_exec\<lparr>fork_ret := 0\<rparr>) [''/bin/false'', ''hi''] = Inr c \<and>
     do_exec (ex_exec\<lparr>fork_ret := 9, wstatus := Exited 1\<rparr>) [''/bin/false'', ''hi''] = Inr (Returns False)"
  using do_exec_outcome [of "''/bin/false''" 9 ex_exec "[''hi'']" "\<lambda>p as. Exited 1"] by (auto simp: ex_exec_def do_exec_def exec_parent_def)

text \<open>
  The documented contracts are not met: \<open>do_system\<close> returns true for a command that ends with a
  non-zero status (the status of a failing command is a multiple of 256, never 127), \<open>do_exec\<close>
  returns true for a child killed by a signal, and in the child of \<open>do_exec_redirect\<close> a failed
  \<open>dup2\<close> makes the function return to the caller, so that the caller runs twice.
\<close>

theorem systemcalls_contract_violations:
  "do_system (int (n * 256)) \<and>
   do_exec (ex_exec\<lparr>fork_ret := 9, wstatus := Signaled 11\<rparr>) command = Inr (Returns True) \<and>
   do_exec_redirect (ex_exec\<lparr>fork_ret := 0, dup2_stdout := -1\<rparr>) command = Inr (Returns False, False)"
proof (intro conjI)
  have "n * 256 \<noteq> 127" by presburger
  then have "int (n * 256) \<noteq> 127" by (metis of_nat_eq_iff of_nat_numeral)
  then show "do_system (int (n * 256))" by (simp add: do_system_def)
qed (simp_all add: do_exec_def exec_parent_def do_exec_redirect_def ex_exec_def)

end
