(* ===== verification/Threading.thy ===== *)
theory Threading
  imports Aesd_Prelude
begin

text \<open>
  \<open>examples/threading/threading.c\<close>: threads that wait, obtain a mutex, wait and release it. \<open>threadfunc\<close> is
  cut at its four calls (\<open>tf_step\<close>); the threads \<open>start_thread_obtaining_mutex\<close> started on the same mutex run in any
  interleaving (\<open>tf_sys_step\<close>). The sleeping times are recorded in the microseconds \<open>usleep\<close> takes them for.

  Shown: all threads return, each with the success flag its calls deserve, unless one of them
  returns with the mutex locked, and which ones do that.
\<close>

record thread_data =
  td_thread_id :: int
  td_mutex :: ptr
  wait_to_obtain_ms :: int
  wait_to_release_ms :: int
  thread_complete_success :: bool

record tf_env =
  usleep1 :: int
  tf_lock :: int
  usleep2 :: int
  tf_unlock :: int

text \<open>
  The mutex is the number of the thread that holds it. \<open>pthread_mutex_lock\<close> waits (\<open>None\<close>) until nobody
  does, unless it fails; \<open>rc\<close> is the error a call fails with, or 0.
\<close>

definition pthread_mutex_lock :: "int \<Rightarrow> nat \<Rightarrow> nat option \<Rightarrow> (int \<times> nat option) option" where
  "pthread_mutex_lock rc me m = (if rc \<noteq> 0 then Some (rc, m) else if m = None then Some (0, Some me) else None)"

definition pthread_mutex_unlock :: "int \<Rightarrow> nat \<Rightarrow> nat option \<Rightarrow> int \<times> nat option" where
  "pthread_mutex_unlock rc me m = (if rc \<noteq> 0 then (rc, m) else (0, if m = Some me then None else m))"

datatype tf_point = Wait_To_Obtain | Obtain_Mutex | Wait_To_Release | Release_Mutex | Tf_Returned

record tf_thread =
  tf_pc :: tf_point
  tf_args :: thread_data
  slept_us :: "int list"

text \<open>\<open>threadfunc\<close>, call by call: the thread and the mutex after the call; \<open>None\<close> while it is blocked.\<close>

fun tf_step :: "tf_env \<Rightarrow> nat \<Rightarrow> tf_point \<Rightarrow> tf_thread \<Rightarrow> nat option \<Rightarrow> (tf_thread \<times> nat option) option" where
  "tf_step env me Wait_To_Obtain t m =
     (let rc = usleep1 env; t1 = t\<lparr>slept_us := slept_us t @ [wait_to_obtain_ms (tf_args t)]\<rparr>
      in Some (if rc = -1 then t1\<lparr>tf_pc := Tf_Returned\<rparr> else t1\<lparr>tf_pc := Obtain_Mutex\<rparr>, m))"
| "tf_step env me Obtain_Mutex t m =
     (case pthread_mutex_lock (tf_lock env) me m of None \<Rightarrow> None
      | Some (rc, m1) \<Rightarrow> Some (if rc \<noteq> 0 then t\<lparr>tf_pc := Tf_Returned\<rparr> else t\<lparr>tf_pc := Wait_To_Release\<rparr>, m1))"
| "tf_step env me Wait_To_Release t m =
     (let rc = usleep2 env; t1 = t\<lparr>slept_us := slept_us t @ [wait_to_release_ms (tf_args t)]\<rparr>
      in Some (if rc = -1 then t1\<lparr>tf_pc := Tf_Returned\<rparr> else t1\<lparr>tf_pc := Release_Mutex\<rparr>, m))"
| "tf_step env me Release_Mutex t m =
     (case pthread_mutex_unlock (tf_unlock env) me m of (rc, m1) \<Rightarrow>
        Some (if rc \<noteq> 0 then t\<lparr>tf_pc := Tf_Returned\<rparr>
              else t\<lparr>tf_args := (tf_args t)\<lparr>thread_complete_success := True\<rparr>, tf_pc := Tf_Returned\<rparr>, m1))"
| "tf_step env me Tf_Returned t m = None"

record tf_sys =
  tf_threads :: "tf_thread list"
  tf_mutex :: "nat option"

inductive tf_sys_step :: "tf_env list \<Rightarrow> tf_sys \<Rightarrow> tf_sys \<Rightarrow> bool" for es where
  tf_moves: "i < length (tf_threads s) \<Longrightarrow> tf_step (es ! i) i (tf_pc (tf_threads s ! i)) (tf_threads s ! i) (tf_mutex s) = Some (t', m') \<Longrightarrow>
    tf_sys_step es s \<lparr>tf_threads = (tf_threads s)[i := t'], tf_mutex = m'\<rparr>"

text \<open>The threads at the beginning of \<open>threadfunc\<close>, the mutex free.\<close>

definition tf_start :: "thread_data list \<Rightarrow> tf_sys" where
  "tf_start tds = \<lparr>tf_threads = map (\<lambda>td. \<lparr>tf_pc = Wait_To_Obtain, tf_args = td, slept_us = []\<rparr>) tds, tf_mutex = None\<rparr>"

text \<open>
  \<open>start_thread_obtaining_mutex\<close>: the result, the new heap of \<open>thread_data\<close> and the identifier
  stored for the caller.
\<close>

definition start_thread_obtaining_mutex ::
  "ptr \<Rightarrow> int \<Rightarrow> int \<Rightarrow> (nat \<rightharpoonup> thread_data) \<Rightarrow> ptr \<Rightarrow> int \<Rightarrow> int \<Rightarrow>
     fault + (bool \<times> (nat \<rightharpoonup> thread_data) \<times> int option)" where
  "start_thread_obtaining_mutex malloc_ret create_rc new_id h mtx obtain_ms release_ms =
     (case malloc_ret of NULL \<Rightarrow> Inr (False, h, None)
      | Ptr a \<Rightarrow>
          (let td = \<lparr>td_thread_id = -1, td_mutex = mtx, wait_to_obtain_ms = obtain_ms,
                     wait_to_release_ms = release_ms, thread_complete_success = False\<rparr>;
               h1 = h(a \<mapsto> td)
           in if create_rc \<noteq> 0 then ebind (kfree h1 (Ptr a)) (\<lambda>h2. Inr (False, h2, None))
              else Inr (True, h1(a \<mapsto> td\<lparr>td_thread_id := new_id\<rparr>), Some new_id)))"

section \<open>The threads together\<close>

definition all_succeed :: "tf_env \<Rightarrow> bool" where
  "all_succeed env \<longleftrightarrow> usleep1 env \<noteq> -1 \<and> tf_lock env = 0 \<and> usleep2 env \<noteq> -1 \<and> tf_unlock env = 0"

text \<open>The thread returns from the critical section without having unlocked.\<close>

definition keeps_mutex :: "tf_env \<Rightarrow> bool" where
  "keeps_mutex env \<longleftrightarrow> usleep1 env \<noteq> -1 \<and> tf_lock env = 0 \<and> (usleep2 env = -1 \<or> tf_unlock env \<noteq> 0)"

text \<open>What a thread has behind it at each point, and where it holds the mutex.\<close>

fun tf_ok :: "tf_env \<Rightarrow> tf_point \<Rightarrow> bool \<Rightarrow> bool" where
  "tf_ok env Wait_To_Obtain b \<longleftrightarrow> \<not> b"
| "tf_ok env Obtain_Mutex b \<longleftrightarrow> \<not> b \<and> usleep1 env \<noteq> -1"
| "tf_ok env Wait_To_Release b \<longleftrightarrow> \<not> b \<and> usleep1 env \<noteq> -1 \<and> tf_lock env = 0"
| "tf_ok env Release_Mutex b \<longleftrightarrow> \<not> b \<and> usleep1 env \<noteq> -1 \<and> tf_lock env = 0 \<and> usleep2 env \<noteq> -1"
| "tf_ok env Tf_Returned b \<longleftrightarrow> (b \<longleftrightarrow> all_succeed env)"

fun tf_holds :: "tf_env \<Rightarrow> tf_point \<Rightarrow> bool" where
  "tf_holds env Wait_To_Release = True"
| "tf_holds env Release_Mutex = True"
| "tf_holds env Tf_Returned = keeps_mutex env"
| "tf_holds env _ = False"

definition tf_inv :: "tf_env list \<Rightarrow> tf_sys \<Rightarrow> bool" where
  "tf_inv es s \<longleftrightarrow> length (tf_threads s) = length es \<and>
     (\<forall>i < length es. tf_ok (es ! i) (tf_pc (tf_threads s ! i)) (thread_complete_success (tf_args (tf_threads s ! i)))) \<and>
     (\<forall>i < length es. tf_mutex s = Some i \<longleftrightarrow> tf_holds (es ! i) (tf_pc (tf_threads s ! i))) \<and>
     (\<forall>i. tf_mutex s = Some i \<longrightarrow> i < length es)"

lemma tf_step_keeps:
  assumes "tf_step env me (tf_pc t) t m = Some (t', m')" "tf_ok env (tf_pc t) (thread_complete_success (tf_args t))"
    "m = Some me \<longleftrightarrow> tf_holds env (tf_pc t)"
  shows "tf_ok env (tf_pc t') (thread_complete_success (tf_args t')) \<and> (m' = Some me \<longleftrightarrow> tf_holds env (tf_pc t')) \<and>
    (\<forall>j. j \<noteq> me \<longrightarrow> (m' = Some j \<longleftrightarrow> m = Some j))"
proof (cases "tf_pc t")
  case Wait_To_Obtain
  with assms show ?thesis by (cases "usleep1 env = -1") (auto simp: Let_def all_succeed_def keeps_mutex_def)
next
  case Obtain_Mutex
  with assms show ?thesis
    by (cases "tf_lock env = 0"; cases m) (auto simp: pthread_mutex_lock_def all_succeed_def keeps_mutex_def)
next
  case Wait_To_Release
  with assms show ?thesis by (cases "usleep2 env = -1") (auto simp: Let_def all_succeed_def keeps_mutex_def)
next
  case Release_Mutex
  with assms show ?thesis by (cases "tf_unlock env = 0") (auto simp: pthread_mutex_unlock_def all_succeed_def keeps_mutex_def)
qed (use assms in simp)

lemma tf_inv_step:
  assumes "tf_sys_step es s s'" "tf_inv es s"
  shows "tf_inv es s'"
  using assms(1)
proof (cases rule: tf_sys_step.cases)
  case (tf_moves i t' m')
  from assms(2) have inv: "length (tf_threads s) = length es"
    "\<And>i. i < length es \<Longrightarrow> tf_ok (es ! i) (tf_pc (tf_threads s ! i)) (thread_complete_success (tf_args (tf_threads s ! i)))"
    "\<And>i. i < length es \<Longrightarrow> tf_mutex s = Some i \<longleftrightarrow> tf_holds (es ! i) (tf_pc (tf_threads s ! i))"
    "\<And>i. tf_mutex s = Some i \<Longrightarrow> i < length es" by (auto simp: tf_inv_def)
  have i: "i < length es" using tf_moves(2) inv(1) by simp
  note st = tf_step_keeps [OF tf_moves(3) inv(2) [OF i] inv(3) [OF i]]
  have "tf_ok (es ! j) (tf_pc (tf_threads s' ! j)) (thread_complete_success (tf_args (tf_threads s' ! j)))" if "j < length es" for j
    using st inv(1) inv(2) [OF that] i by (cases "j = i") (simp_all add: tf_moves(1))
  moreover have "tf_mutex s' = Some j \<longleftrightarrow> tf_holds (es ! j) (tf_pc (tf_threads s' ! j))" if "j < length es" for j
    using st inv(1) inv(3) [OF that] i by (cases "j = i") (simp_all add: tf_moves(1))
  moreover have "j < length es" if "tf_mutex s' = Some j" for j
    using st inv(4) [of j] i that by (cases "j = i") (simp_all add: tf_moves(1))
  moreover have "length (tf_threads s') = length es" using inv(1) by (simp add: tf_moves(1))
  ultimately show ?thesis unfolding tf_inv_def by blast
qed

fun tf_left :: "tf_point \<Rightarrow> nat" where
  "tf_left Wait_To_Obtain = 4"
| "tf_left Obtain_Mutex = 3"
| "tf_left Wait_To_Release = 2"
| "tf_left Release_Mutex = 1"
| "tf_left Tf_Returned = 0"

lemma tf_step_left: "tf_step env me (tf_pc t) t m = Some (t', m') \<Longrightarrow> tf_left (tf_pc t') < tf_left (tf_pc t)"
  by (cases "tf_pc t") (auto simp: Let_def split: option.splits prod.splits if_splits)

definition tf_sys_left :: "tf_sys \<Rightarrow> nat" where
  "tf_sys_left s = sum_list (map (tf_left \<circ> tf_pc) (tf_threads s))"

lemma tf_sys_left_step:
  assumes "tf_sys_step es s s'"
  shows "tf_sys_left s' < tf_sys_left s"
  using assms
proof (cases rule: tf_sys_step.cases)
  case (tf_moves i t' m')
  let ?xs = "map (tf_left \<circ> tf_pc) (tf_threads s)"
  have "?xs ! i = tf_left (tf_pc (tf_threads s ! i))" "i < length ?xs" using tf_moves by simp_all
  moreover have "map (tf_left \<circ> tf_pc) (tf_threads s') = ?xs[i := tf_left (tf_pc t')]" by (simp add: tf_moves(1) map_update)
  moreover have "?xs ! i \<le> sum_list ?xs" using tf_moves(2) by (intro member_le_sum_list) auto
  ultimately show ?thesis using tf_step_left [OF tf_moves(3)] by (simp add: tf_sys_left_def sum_list_update del: map_map nth_map)
qed

lemma tf_run:
  assumes "(tf_sys_step es ^^ n) s0 s" "tf_inv es s0"
  shows "tf_inv es s \<and> n + tf_sys_left s \<le> tf_sys_left s0"
  using assms
proof (induction n arbitrary: s)
  case (Suc n)
  then obtain s1 where "(tf_sys_step es ^^ n) s0 s1" "tf_sys_step es s1 s" by auto
  with Suc.IH [of s1] Suc.prems(2) tf_inv_step tf_sys_left_step show ?case by fastforce
qed simp

text \<open>A thread that cannot go on has returned or waits for the mutex.\<close>

lemma tf_stuck:
  assumes "\<nexists>s'. tf_sys_step es s s'" "i < length (tf_threads s)"
  shows "tf_pc (tf_threads s ! i) = Tf_Returned \<or> tf_pc (tf_threads s ! i) = Obtain_Mutex \<and> tf_mutex s \<noteq> None"
proof (cases "tf_pc (tf_threads s ! i)")
  case Obtain_Mutex
  with assms tf_moves [of i s es] show ?thesis
    by (cases "tf_mutex s"; cases "tf_lock (es ! i) = 0") (auto simp: pthread_mutex_lock_def)
next
  case Release_Mutex
  with assms tf_moves [of i s es] show ?thesis by (cases "tf_unlock (es ! i) = 0") (auto simp: pthread_mutex_unlock_def)
qed (use assms tf_moves [of i s es] in \<open>auto simp: Let_def\<close>)

section \<open>Properties\<close>

text \<open>
  C34: Threads that share the mutex, in any interleaving: together they make at most four calls each, and the
  schedule ends only when all of them have returned with the mutex free, each reporting success exactly
  when all of its four calls succeeded; or when one of them has returned with the mutex locked, and that
  is one whose sleep inside the critical section was interrupted or whose unlocking failed. Those
  still waiting for the mutex then wait for ever.
\<close>

theorem threads_complete_unless_mutex_kept:
  assumes "length tds = length es" "\<forall>td \<in> set tds. \<not> thread_complete_success td" "(tf_sys_step es ^^ n) (tf_start tds) s"
  shows "n \<le> 4 * length es \<and> ((\<exists>s'. tf_sys_step es s s') \<or>
    tf_mutex s = None \<and> (\<forall>i < length es. tf_pc (tf_threads s ! i) = Tf_Returned \<and>
      (thread_complete_success (tf_args (tf_threads s ! i)) \<longleftrightarrow>
         usleep1 (es ! i) \<noteq> -1 \<and> tf_lock (es ! i) = 0 \<and> usleep2 (es ! i) \<noteq> -1 \<and> tf_unlock (es ! i) = 0)) \<or>
    (\<exists>j < length es. tf_mutex s = Some j \<and> tf_pc (tf_threads s ! j) = Tf_Returned \<and>
      usleep1 (es ! j) \<noteq> -1 \<and> tf_lock (es ! j) = 0 \<and> (usleep2 (es ! j) = -1 \<or> tf_unlock (es ! j) \<noteq> 0)))"
proof -
  have "tf_inv es (tf_start tds)" using assms(1,2) by (auto simp: tf_inv_def tf_start_def)
  moreover have "tf_sys_left (tf_start tds) = 4 * length es"
    using assms(1) by (simp add: tf_sys_left_def tf_start_def comp_def sum_list_triv)
  ultimately have run: "tf_inv es s" "n \<le> 4 * length es" using tf_run [OF assms(3)] by auto
  have "tf_mutex s = None \<and> (\<forall>i < length es. tf_pc (tf_threads s ! i) = Tf_Returned \<and>
      (thread_complete_success (tf_args (tf_threads s ! i)) \<longleftrightarrow> all_succeed (es ! i))) \<or>
    (\<exists>j < length es. tf_mutex s = Some j \<and> tf_pc (tf_threads s ! j) = Tf_Returned \<and> keeps_mutex (es ! j))"
    if "\<nexists>s'. tf_sys_step es s s'"
  proof (cases "tf_mutex s")
    case None
    with tf_stuck [OF that] run(1) show ?thesis by (fastforce simp: tf_inv_def)
  next
    case (Some j)
    with run(1) have j: "j < length es" "tf_holds (es ! j) (tf_pc (tf_threads s ! j))" "j < length (tf_threads s)" by (auto simp: tf_inv_def)
    with tf_stuck [OF that j(3)] Some show ?thesis by auto
  qed
  with run(2) show ?thesis unfolding all_succeed_def keeps_mutex_def by blast
qed

definition ex_td :: thread_data where
  "ex_td = \<lparr>td_thread_id = 1, td_mutex = Ptr 0, wait_to_obtain_ms = 10, wait_to_release_ms = 20,
     thread_complete_success = False\<rparr>"

lemma tf_completes: "\<exists>n s'. (tf_sys_step es ^^ n) s s' \<and> (\<nexists>s''. tf_sys_step es s' s'')"
proof (induction "tf_sys_left s" arbitrary: s rule: less_induct)
  case less
  show ?case
  proof (cases "\<exists>s1. tf_sys_step es s s1")
    case True
    then obtain s1 where s1: "tf_sys_step es s s1" by blast
    from less [OF tf_sys_left_step [OF s1]] obtain n s' where "(tf_sys_step es ^^ n) s1 s'" "\<nexists>s''. tf_sys_step es s' s''" by blast
    with relpowp_Suc_I2 [where P = "tf_sys_step es", OF s1] show ?thesis by blast
  next
    case False
    then show ?thesis by (intro exI [of _ "0::nat"] exI [of _ s]) simp
  qed
qed

theorem threads_complete_unless_mutex_kept_witness:
  "\<exists>n s. (tf_sys_step (replicate 3 \<lparr>usleep1 = 0, tf_lock = 0, usleep2 = 0, tf_unlock = 0\<rparr>) ^^ n) (tf_start (replicate 3 ex_td)) s \<and>
     n \<le> 12 \<and> tf_mutex s = None \<and> thread_complete_success (tf_args (tf_threads s ! 2))"
proof -
  let ?es = "replicate 3 \<lparr>usleep1 = 0, tf_lock = 0, usleep2 = 0, tf_unlock = 0\<rparr>"
  obtain n s where s: "(tf_sys_step ?es ^^ n) (tf_start (replicate 3 ex_td)) s" "\<nexists>s'. tf_sys_step ?es s s'"
    using tf_completes by blast
  have "\<forall>td \<in> set (replicate 3 ex_td). \<not> thread_complete_success td" by (simp add: ex_td_def)
  with threads_complete_unless_mutex_kept [of "replicate 3 ex_td" ?es n s] s
  have "n \<le> 12" "tf_mutex s = None" "thread_complete_success (tf_args (tf_threads s ! 2))" by auto
  with s(1) show ?thesis by blast
qed

text \<open>
  Starting a thread either succeeds and leaves its arguments, completely initialised, on the heap
  for the thread to return, or fails and leaves the heap as it was.
\<close>

theorem start_thread_no_leak:
  assumes "\<forall>a. malloc_ret = Ptr a \<longrightarrow> h a = None"
  shows "start_thread_obtaining_mutex malloc_ret create_rc new_id h mtx o_ms r_ms =
    Inr (case malloc_ret of NULL \<Rightarrow> (False, h, None)
     | Ptr a \<Rightarrow>
         if create_rc \<noteq> 0 then (False, h, None)
         else (True, h(a \<mapsto> \<lparr>td_thread_id = new_id, td_mutex = mtx, wait_to_obtain_ms = o_ms, wait_to_release_ms = r_ms,
                             thread_complete_success = False\<rparr>), Some new_id))"
  using assms by (auto simp: start_thread_obtaining_mutex_def Let_def fun_upd_idem split: ptr.split)

theorem start_thread_no_leak_witness:
  "start_thread_obtaining_mutex (Ptr 3) 11 5 Map.empty (Ptr 0) 10 20 = Inr (False, Map.empty, None)"
  using start_thread_no_leak [of "Ptr 3" Map.empty 11 5 "Ptr 0" 10 20] by simp

end
