(* ===== verification/Writer.thy ===== *)
theory Writer
  imports Aesd_Prelude
begin

text \<open>
  \<open>finder-app/writer.c\<close>: writing a string to a file. The outcome is the exit status, what the file
  contains afterwards (\<open>None\<close> if it was not created) and whether the descriptor was closed.
\<close>

record writer_env =
  creat_ret :: int
  errno_creat :: int
  write_ret :: int           \<comment> \<open>-1 or the number of bytes written\<close>
  errno_write :: int
  close_ret :: int
  errno_close :: int

record writer_out =
  w_status :: int
  w_file :: "bytes option"
  w_closed :: bool

definition writer_main :: "writer_env \<Rightarrow> bytes list \<Rightarrow> writer_out" where
  "writer_main env argv =
     (if length argv \<noteq> 3 then \<lparr>w_status = 1, w_file = None, w_closed = True\<rparr>
      else
        (let str_to_write = argv ! 2; write_len = sint (of_nat (length str_to_write) :: u32) in
         if creat_ret env = -1 then \<lparr>w_status = errno_creat env, w_file = None, w_closed = True\<rparr>
         else
           (let written = write_ret env in
            if written = -1 then \<lparr>w_status = errno_write env, w_file = Some [], w_closed = False\<rparr>
            else
              (let contents = take (nat written) str_to_write in
               if written < write_len then
                 \<lparr>w_status = (if errno_write env \<noteq> 0 then errno_write env else 2), w_file = Some contents,
                  w_closed = False\<rparr>
               else if close_ret env = -1 then \<lparr>w_status = errno_close env, w_file = Some contents, w_closed = True\<rparr>
               else \<lparr>w_status = 0, w_file = Some contents, w_closed = True\<rparr>))))"

section \<open>Properties\<close>

text \<open>
  Failing calls set \<open>errno\<close>, \<open>write\<close> returns at most what it was given, and the string is short enough for
  its length to be an \<open>int\<close>.
\<close>

definition writer_env_ok :: "writer_env \<Rightarrow> bytes \<Rightarrow> bool" where
  "writer_env_ok env str \<longleftrightarrow> (creat_ret env = -1 \<longrightarrow> errno_creat env \<noteq> 0) \<and> (write_ret env = -1 \<longrightarrow> errno_write env \<noteq> 0) \<and>
     (close_ret env = -1 \<longrightarrow> errno_close env \<noteq> 0) \<and> - 1 \<le> write_ret env \<and> write_ret env \<le> int (length str) \<and> length str < 2 ^ 31"

lemma write_len_eq: "n < 2 ^ 31 \<Longrightarrow> sint (of_nat n :: u32) = int n"
  by (subst signed_of_nat) (simp add: signed_take_bit_int_eq_self)

text \<open>
  C30: The exit status tells the truth: it is 0 exactly when the file was created, all of the string was
  written and the file was closed, and then the file holds exactly the string. If the status is not 0, the
  file is missing or incomplete, except in two cases: only closing failed, or the string is
  empty. With a wrong number of arguments no file is touched and the status is 1.
\<close>

theorem writer_status_zero_iff:
  fixes prog path str :: bytes
  assumes "writer_env_ok env str"
  defines "out \<equiv> writer_main env [prog, path, str]"
  shows "(w_status out = 0 \<longleftrightarrow> creat_ret env \<noteq> -1 \<and> write_ret env = int (length str) \<and> close_ret env \<noteq> -1) \<and>
    (w_status out = 0 \<longrightarrow> w_file out = Some str \<and> w_closed out) \<and>
    (w_status out \<noteq> 0 \<longrightarrow> w_file out = Some str \<longrightarrow> write_ret env = int (length str) \<and> close_ret env = -1 \<or> str = []) \<and>
    (length argv \<noteq> 3 \<longrightarrow> w_status (writer_main env argv) = 1 \<and> w_file (writer_main env argv) = None)"
proof -
  have "take (nat (write_ret env)) str = str \<longleftrightarrow> write_ret env = int (length str)" if "write_ret env \<noteq> -1"
    using assms(1) that by (auto simp: writer_env_ok_def)
  with assms show ?thesis by (auto simp: writer_main_def writer_env_ok_def write_len_eq Let_def)
qed

theorem writer_status_zero_iff_witness:
  "w_file (writer_main \<lparr>creat_ret = 3, errno_creat = 0, write_ret = 2, errno_write = 0, close_ret = 0, errno_close = 0\<rparr>
      [''writer'', ''/tmp/x'', ''hi'']) = Some ''hi''"
  using writer_status_zero_iff [of "\<lparr>creat_ret = 3, errno_creat = 0, write_ret = 2, errno_write = 0, close_ret = 0, errno_close = 0\<rparr>"
      "''hi''" "''writer''" "''/tmp/x''"]
  by (simp add: writer_env_ok_def)

end
