(* ===== verification/Course_Checks.thy ===== *)
theory Course_Checks
  imports Aesd_Prelude
begin

text \<open>
  The checks of the course set-up: the functions of \<open>examples/autotest-validate\<close>, the program that prints
  their results, and the test of the user name in \<open>student-test/assignment1\<close>. The test reads the
  expected name with a function of a submodule and compares with a macro of a test framework,
  neither of which is part of the repository: both are arguments. A failing assertion of the
  framework leaves the test function.
\<close>

definition this_function_returns_true :: bool where
  "this_function_returns_true = True"

definition this_function_returns_false :: bool where
  "this_function_returns_false = False"

definition my_username :: string where
  "my_username = ''asafg''"

text \<open>What \<open>main\<close> prints, and its status: reaching the end of \<open>main\<close> returns 0.\<close>

definition autotest_main :: "int \<times> string" where
  "autotest_main =
     (0, ''this_function_returns_true returned '' @ (if this_function_returns_true then ''true'' else ''false'') @ [CHR 0x0A] @
         ''this_function_returns_false returned '' @ (if this_function_returns_false then ''true'' else ''false'') @ [CHR 0x0A])"

text \<open>
  \<open>conf\<close> is what \<open>malloc_username_from_conf_file\<close> returns, \<open>None\<close> for \<open>NULL\<close>, and \<open>equal\<close> the comparison of the
  framework. The result is the message of the failed assertion, if any, and whether the
  string was given to \<open>free\<close>.
\<close>

definition test_validate_my_username :: "(string option \<Rightarrow> string option \<Rightarrow> bool) \<Rightarrow> string option \<Rightarrow> string option \<times> bool" where
  "test_validate_my_username equal conf =
     (let hard_coded_username = Some my_username; conf_username = conf
      in if equal hard_coded_username conf_username then (None, True)
         else (Some ''username in config file does not match expected usernmae.'', False))"

lemma autotest_main_prints:
  "autotest_main = (0, ''this_function_returns_true returned true'' @ [CHR 0x0A] @ ''this_function_returns_false returned false'' @ [CHR 0x0A])"
  by (simp add: autotest_main_def this_function_returns_true_def this_function_returns_false_def)

text \<open>With a comparison of strings the test passes exactly when the file holds the name, and only then frees its copy.\<close>

lemma username_test_outcome:
  assumes "\<And>x y. equal x y \<longleftrightarrow> x = y"
  shows "fst (test_validate_my_username equal conf) = None \<longleftrightarrow> conf = Some ''asafg''"
    and "snd (test_validate_my_username equal conf) \<longleftrightarrow> conf = Some ''asafg''"
  by (auto simp: test_validate_my_username_def my_username_def assms)

end
