(* ===== verification/Spec2Isabelle.thy ===== *)
theory Spec2Isabelle
  imports Server_Device Server_Fair Queue_Props Server_Plain Slist_More Driver_Lifecycle Driver_Parallel Systemcalls Threading Writer Course_Checks
begin

text \<open>
  A verification of the AESD assignments: the character driver \<open>aesdchar\<close>
  (\<open>aesd-char-driver/\<close>), the socket server \<open>aesdsocket\<close> (\<open>server/\<close>) that stores clients' lines in it,
  the queue macros \<open>server/queue.h\<close>, and the smaller programs \<open>examples/systemcalls\<close>, \<open>examples/threading\<close>,
  \<open>examples/autotest-validate\<close> and \<open>finder-app/writer.c\<close>.

  \<^bold>\<open>The program.\<close> A client connects to the server, sends a line and gets back the contents of
  \<open>/dev/aesdchar\<close>. The server's \<open>main\<close> accepts connections and starts a thread for each, kept in a
  linked list until it can be joined; a thread (\<open>sock_thread_func\<close>) reads the line, appends it to
  the device or, for a control line, issues the seek \<open>ioctl\<close>, and echoes the device, under a mutex
  all threads share. The driver collects written bytes in a pending command until a newline
  completes it, keeps the last ten commands in a circular buffer, and serves reads and seeks
  on their concatenation.

  \<^bold>\<open>Modelling.\<close> C operations whose behaviour is undefined (null and dangling pointers, accesses
  outside a block, \<open>int\<close> overflow) are values \<open>Inl fault\<close>; that the code avoids them is proved.
  \<open>None\<close> is a run that does not end. Machine words wrap. What the kernel, the C library or the
  network answers is an argument: a field of an environment record, or a list of events; what
  the theorems assume of such code is a named hypothesis (\<open>alloc_ok\<close>, \<open>fixed_size_llseek_ok\<close>, \<open>ioc_ok\<close>,
  \<open>init_env_ok\<close>, \<open>malloc_fresh\<close>, \<open>host_ok\<close>, \<open>plain_file\<close>, \<open>timer_runs\<close>, \<open>all_calls_succeed\<close>), satisfied by a concrete
  instance in a witness. The driver is modelled with \<open>AESD_DEBUG\<close>, as its header sets it, with the
  extra terminator byte; the server for both values of \<open>USE_AESD_CHAR_DEVICE\<close>
  (\<open>use_char_device\<close>, \<open>char_device\<close>).

  \<^bold>\<open>The theories.\<close>

  \<^item> \<open>Aesd_Prelude\<close>: words, faults, block memory, list and word lemmas.
  \<^item> \<open>Log_Spec\<close>: the contracts \<open>bounded_log\<close> and \<open>seekable_log\<close> of a log of recent entries.
  \<^item> \<open>Circular_Buffer\<close>: \<open>aesd-circular-buffer.c/.h\<close>; invariant \<open>cb_wf\<close>, abstraction \<open>cb_list\<close>; both
    contracts are interpreted on the three functions of the source.
  \<^item> \<open>Char_Driver\<close>: \<open>aesd-char-driver/main.c\<close>, \<open>aesdchar.h\<close>, \<open>aesd_ioctl.h\<close>: \<open>aesd_open\<close>, \<open>aesd_release\<close>,
    \<open>aesd_read\<close>, \<open>aesd_write\<close>, \<open>aesd_llseek\<close>, \<open>aesd_ioctl\<close>, module load and unload. \<open>Driver_Inv\<close>:
    the hypotheses on the kernel, the invariant \<open>driver_inv\<close>, the specification (\<open>aesd_log\<close>,
    \<open>log_write\<close>) and the abstraction \<open>abs_log\<close>. \<open>Driver_Ops\<close>, \<open>Driver_Correct\<close>, \<open>Driver_Seek\<close>,
    \<open>Driver_Module\<close>: the operations refine the log, on every branch. \<open>Driver_System\<close>: system
    calls on any number of open files as a step relation. \<open>Driver_Props\<close>: the properties.
    \<open>Driver_Concurrent\<close>: each operation cut into steps at the driver's mutex. \<open>Driver_Parallel\<close>:
    calls of any number of open files in progress at the same time (\<open>cdrv_step\<close>).
    \<open>Driver_Lifecycle\<close>: from load over any use to unload; sizes and well-formedness of the state.
  \<^item> \<open>Slist\<close>, \<open>Slist_More\<close>: the \<open>SLIST\<close> macros of \<open>queue.h\<close> on a heap of nodes, with the contract
    \<open>node_list\<close> interpreted on them. \<open>Server_Threads\<close>: \<open>init_thread\<close>, \<open>remove_joinable_threads\<close>,
    \<open>remove_all_remaining_threads\<close>. \<open>Server_Start\<close>: \<open>parse_args\<close>, \<open>start_listening\<close>, signals,
    \<open>daemonize\<close>. \<open>Server_Main\<close>: \<open>main\<close> with its accept loop and clean-up.
  \<^item> \<open>Queue_Mem\<close>, \<open>Stailq\<close>, \<open>Queue_List\<close>, \<open>Tailq\<close>: the families \<open>STAILQ\<close>, \<open>LIST\<close> and \<open>TAILQ\<close> of \<open>queue.h\<close>, on a
    memory of heads and elements in which a pointer to a link is the address of a field.
    \<open>Queue_Props\<close>: the contracts \<open>linked_queue\<close> and \<open>tail_queue\<close>, interpreted on the families.
  \<^item> \<open>Readline\<close>, \<open>Ctrl_Line\<close>, \<open>Send_File\<close>, \<open>Sock_Thread\<close>: the functions of \<open>sock_thread.c\<close>, and
    \<open>append_to_file\<close>; the streams of a thread with their buffers (\<open>file_stream\<close>: what \<open>fwrite\<close> leaves in
    the buffer is written by \<open>fclose\<close>, a stream no variable names any more stays open); the contract \<open>log_file\<close>
    of the output file and what the thread does with any file that meets it. \<open>Server_Concurrent\<close>: \<open>sock_thread_func\<close> cut into steps and any number of
    such threads interleaved over the shared mutex and file, as a step relation. \<open>Server_System\<close>:
    \<open>main\<close> from its accept loop to its end, cut into steps at its calls, the client threads it
    creates, and signals, interleaved (\<open>server_step\<close>); \<open>accept\<close> blocks until a client connects or the
    handler has shut the listening socket down, and an interrupted \<open>accept\<close> goes on waiting
    (\<open>SA_RESTART\<close>); the invariant says which thread owns which node of the list. \<open>Server_Progress\<close>: what follows for whole runs. \<open>Fair_Runs\<close>,
    \<open>Server_Fair\<close>: infinite runs under a fair scheduler, for any step relation and for the server.
    \<open>Server_Device\<close>: the driver meets \<open>log_file\<close>. \<open>Itimer\<close>: the time stamp timer. \<open>Server_Plain\<close>: the build without the
    character device, clients and any number of firings of the timer interleaved (\<open>plain_step\<close>).
  \<^item> \<open>Systemcalls\<close>, \<open>Threading\<close>, \<open>Writer\<close>, \<open>Course_Checks\<close>: the example programs.
  \<^item> This theory: the properties of server and driver together.

  \<^bold>\<open>What is shown.\<close> For the circular buffer: insertion and search refine a bounded list. For the
  driver: every operation refines the log, from any reachable state no operation faults, no size
  wraps, operations in progress at the same time take effect one at a time, without fault or
  deadlock, in any interleaving, and after load, use and unload nothing is left behind unless a write failed half-way.
  For the server: lines are read completely and
  within the buffer, control lines are parsed and printed lines recovered, files are sent
  completely, every path of a thread releases its resources, the list of threads stays
  consistent, and the server stops after a signal; the client threads exclude each other, no
  schedule of them deadlocks or runs for ever, and every schedule amounts to running them one
  after the other. For \<open>main\<close> and its threads together, in any interleaving and with any reuse of
  addresses: a thread's node outlives the thread and is its own, no access to a node fails, the
  clients are served as if one after the other, and under a fair scheduler the server comes to its
  end once it is signalled, every client it accepted served, even if no further client ever
  connects. In the build without the device every client is served in any interleaving with the
  timer, and each line and time stamp reaches the file whole. For the other queues: each macro does to the queue what its name says to a list,
  without touching anything else. For server and driver together: a client's line reaches the log
  and the log reaches the client, for one client and for the whole process. The departures from the intended behaviour that came up
  are theorems too: the empty write, the failed reallocation, the failed copy, the seek after a wrap-around,
  the unchecked \<open>send\<close>, the null \<open>FILE\<close> pointer, the lost signal, the indeterminate descriptor, the
  leaked socket, the time stamp written outside the lock.

  \<^bold>\<open>Bounds.\<close> Blocks are below \<open>2 ^ 40\<close> bytes and single writes below \<open>2 ^ 31\<close>, as the kernel's
  allocator and VFS guarantee; lines from clients are below \<open>2 ^ 30\<close>, where the server's \<open>int\<close>
  overflows. \<open>read_all\<close> has fuel, one more than the bytes left, which its theorem shows to be enough.

  \<^bold>\<open>Not modelled.\<close> Messages and logging; \<open>cdefs.h\<close>, which only names features of compilers and has no
  behaviour; the tracing hooks of \<open>queue.h\<close>, which are empty unless \<open>QUEUE_MACRO_DEBUG\<close> is defined, and its
  declarations for C++ classes; shell scripts and build files. In \<open>Driver_Parallel\<close>
  an open file has one call in progress at a time (calls that race on the position of one open file are not
  covered), and writes of no bytes, which fault, are left out. In the server's interleaving, receiving the line is
  one step, and so is reading the output file to its end and sending it: no other client can change the file
  during it. A thread whose step faults or does not end has no step; the theorems on progress say when that cannot
  happen. The timer's steps interleave with those of the clients in \<open>Server_Plain\<close>, for clients that have
  connected; \<open>Server_System\<close> has no timer, as the build with the character device. The flag \<open>finished\<close> is read without synchronisation by \<open>main\<close>; the
  model lets a thread set it at any step of \<open>main\<close>, and the join that follows wait for the thread to return.
\<close>

section \<open>Properties of server and driver together\<close>

text \<open>
  C1: A client that sends a line gets it stored in the device and receives the device's whole
  contents, its own line included: if all library calls succeed, the thread appends the line
  to the driver's log exactly as specified, however \<open>stdio\<close> splits it into \<open>write\<close> calls, sends
  back all commands the device keeps, oldest first, and leaves the driver's invariant intact,
  the mutex released and no error recorded.
\<close>

theorem client_line_stored_and_echoed:
  assumes "host_ok h" "driver_inv k" "pend_ok k" "finite (dom (kmem k))" "all_calls_succeed env"
    "client_line env l" "l \<noteq> []" "\<not> is_ctrl_line l" "length (pend (abs_log k)) + length l < 2 ^ 40 - 1"
    "length (concat (hist (log_write (abs_log k) l))) \<le> length (client_sends env)"
    "length (concat (hist (log_write (abs_log k) l))) < 2 ^ 63"
  shows "\<exists>s'. sock_thread_func env (chr_file h) args k = Some (Inr s') \<and> driver_inv (t_dev s') \<and>
    abs_log (t_dev s') = log_write (abs_log k) l \<and> t_sent s' = concat (hist (abs_log (t_dev s'))) \<and>
    \<not> mtx_held s' \<and> finished (t_args s') \<and> last_error (t_args s') = 0"
proof -
  have "chr_inv h k" using assms(1-4) by (simp add: chr_inv_def)
  from chr.thread_stores_and_echoes [OF assms(5-8) this assms(9-11)] show ?thesis
    by (auto simp: chr_inv_def released_def)
qed

text \<open>A host with an allocator that always finds a new address.\<close>

definition ex_host :: host where
  "ex_host = \<lparr>h_alloc = (\<lambda>k n. ex_env\<lparr>alloc_ret := Ptr (Suc (Max (insert 0 (dom (kmem k)))))\<rparr>),
     h_split = (\<lambda>l. if l = [] then [] else [l]), h_io = ex_env, h_bufsize = 4096, h_ioc = ex_ioc, h_llseek = ex_llseek\<rparr>"

lemma ex_host_ok: "host_ok ex_host"
proof -
  have "m (Suc (Max (insert 0 (dom m)))) = None" if "finite (dom m)" for m :: mem
  proof (rule ccontr)
    assume "m (Suc (Max (insert 0 (dom m)))) \<noteq> None"
    then have "Suc (Max (insert 0 (dom m))) \<le> Max (insert 0 (dom m))" using that by (intro Max_ge) auto
    then show False by simp
  qed
  moreover have "unat (a + b + 1) < 2 ^ 40" if "unat a + unat b + 1 < 2 ^ 40" for a b :: u64
    using that by (simp add: unat_word_ariths)
  moreover have "unat (b + 1) < 2 ^ 40" if "unat b + 1 < 2 ^ 40" for b :: u64
    using that by (simp add: unat_word_ariths)
  ultimately show ?thesis
    using ex_ioc_ok ex_llseek_ok
    by (auto simp: host_ok_def ex_host_def ex_env_def alloc_ok_def kzalloc_ok_def krealloc_ok_def Let_def)
qed

lemma ex_used_finite: "finite (dom (kmem ex_used))"
  by (simp add: ex_used_def ex_loaded_def)

theorem client_line_stored_and_echoed_witness:
  "\<exists>s'. sock_thread_func ex_tenv (chr_file ex_host) ex_args ex_used = Some (Inr s') \<and>
     t_sent s' = ''ab'' @ [newline] @ ''c'' @ [newline] @ ''xy'' @ [newline] \<and> last_error (t_args s') = 0"
proof -
  have l: "log_write (abs_log ex_used) (''y'' @ [newline]) =
      \<lparr>hist = [''ab'' @ [newline], ''c'' @ [newline], ''xy'' @ [newline]], pend = []\<rparr>"
    by (simp add: ex_used_log log_write_def)
  have n: "\<not> is_ctrl_line (''y'' @ [newline])" by (simp add: is_ctrl_line_def)
  have c: "length (client_sends ex_tenv) = 99" by (simp add: ex_tenv_def)
  have "\<exists>s'. sock_thread_func ex_tenv (chr_file ex_host) ex_args ex_used = Some (Inr s') \<and> driver_inv (t_dev s') \<and>
    abs_log (t_dev s') = log_write (abs_log ex_used) (''y'' @ [newline]) \<and> t_sent s' = concat (hist (abs_log (t_dev s'))) \<and>
    \<not> mtx_held s' \<and> finished (t_args s') \<and> last_error (t_args s') = 0"
    by (rule client_line_stored_and_echoed [OF ex_host_ok ex_used_inv _ ex_used_finite ex_tenv_ok ex_tenv_line _ n])
      (use ex_used_code in \<open>simp_all add: c ex_used_log log_write_def\<close>)
  then show ?thesis using l by auto
qed

text \<open>
  C18: As long as no command has been evicted, the control line \<open>AESDCHAR_IOCSEEKTO:x,y\<close> makes the
  server send the device's contents from byte \<open>y\<close> of command \<open>x\<close> on, and stores nothing.
\<close>

theorem client_seek_request_served:
  assumes "host_ok h" "driver_inv k" "pend_ok k" "finite (dom (kmem k))" "out_offs (the_cb k) = 0" "all_calls_succeed env"
    "use_char_device env" "client_line env (ctrl_line x y)" "x < 2 ^ 31" "y < 2 ^ 31"
    "x < length (hist (abs_log k))" "y < length (hist (abs_log k) ! x)"
    "length (concat (hist (abs_log k))) \<le> length (client_sends env)"
  shows "\<exists>s'. sock_thread_func env (chr_file h) args k = Some (Inr s') \<and> t_dev s' = k \<and>
    t_sent s' = drop y (hist (abs_log k) ! x) @ concat (drop (Suc x) (hist (abs_log k))) \<and>
    \<not> mtx_held s' \<and> finished (t_args s') \<and> last_error (t_args s') = 0"
proof -
  have i: "chr_inv h k" using assms(1-4) by (simp add: chr_inv_def)
  obtain p where p: "log_seek (hist (abs_log k)) x y = Some p" using assms(11,12) by (simp add: log_seek_def)
  have "length (concat (hist (abs_log k))) < 2 ^ 63"
    using log_size_bound [OF driver_invD [OF assms(2)]] by (simp add: log_size_def)
  from chr.thread_seeks_and_echoes [OF assms(6-10) i assms(5) p assms(13) this] show ?thesis
    using log_seek_content(1) [OF p] by (auto simp: released_def)
qed

theorem client_seek_request_served_witness:
  "\<exists>s'. sock_thread_func (ex_tenv\<lparr>client := [Recv_Bytes (''AESDCHAR_IOCSEEKTO:'' @ ''0,1'' @ [newline])]\<rparr>)
      (chr_file ex_host) ex_args ex_used = Some (Inr s') \<and> t_sent s' = ''b'' @ [newline] @ ''c'' @ [newline]"
proof -
  let ?l = "''AESDCHAR_IOCSEEKTO:'' @ ''0,1'' @ [newline]"
  let ?env = "ex_tenv\<lparr>client := [Recv_Bytes ?l]\<rparr>"
  have d: "decimal 0 = ''0''" "decimal 1 = ''1''" by code_simp+
  have l: "ctrl_line 0 1 = ?l" by (simp only: ctrl_line_def d EMBED_CTRL_PREF_def) simp
  have "client_line ?env (ctrl_line 0 1)" unfolding l by (auto simp: client_line_def first_line_def)
  moreover have "all_calls_succeed ?env" using ex_tenv_ok by (simp add: all_calls_succeed_def)
  ultimately show ?thesis
    using client_seek_request_served [OF ex_host_ok ex_used_inv _ ex_used_finite ex_used_out_offs, of ?env 0 1 ex_args] ex_used_code
    by (auto simp: ex_used_log ex_tenv_def)
qed

text \<open>Any number of clients, one after the other.\<close>

lemma serial_clients_see_the_last_ten_lines:
  assumes "chr_inv h k" "pend (abs_log k) = []" "\<forall>x \<in> set (hist (abs_log k)). length x \<le> m"
    "list_all2 (\<lambda>c l. plain_client n (fst c) l \<and> length l \<le> m) cs ls" "m < 2 ^ 40 - 1" "10 * m \<le> n" "n < 2 ^ 63"
  shows "\<exists>k'. serve_all (chr_file h) cs k =
      Some (Inr (map (\<lambda>i. concat (last_n 10 (hist (abs_log k) @ take (Suc i) ls))) [0..<length ls], k')) \<and>
    chr_inv h k' \<and> (ls \<noteq> [] \<longrightarrow> abs_log k' = \<lparr>hist = last_n 10 (hist (abs_log k) @ ls), pend = []\<rparr>)"
proof -
  have "chr.short_log h m k" using assms(1-3) by (simp add: chr.short_log_def)
  from chr.serve_all_law [OF assms(4) this assms(5-7)] show ?thesis
    by (auto simp: chr.short_log_def split: if_splits)
qed

text \<open>Any number of clients at the same time, once their threads have returned.\<close>

lemma returned_clients_saw_the_last_ten_lines:
  assumes i: "chr_inv h k" and log: "pend (abs_log k) = []" "\<forall>x \<in> set (hist (abs_log k)). length x \<le> m"
    and ls: "list_all2 (\<lambda>c l. plain_client n (fst c) l \<and> length l \<le> m) cs ls" "ls \<noteq> []"
    and b: "m < 2 ^ 40 - 1" "10 * m \<le> n" "n < 2 ^ 63"
    and inv: "conc_inv (chr_file h) cs k c" and ret: "all_returned c"
  shows "driver_inv (c_dev c) \<and> (\<exists>is. distinct is \<and> set is = {..<length cs} \<and>
      (\<forall>j < length cs. sent_to c (is ! j) = concat (last_n 10 (hist (abs_log k) @ map ((!) ls) (take (Suc j) is)))) \<and>
      abs_log (c_dev c) = \<lparr>hist = last_n 10 (hist (abs_log k) @ map ((!) ls) is), pend = []\<rparr>)"
proof -
  let ?is = "serial_order c"
  have p: "distinct ?is" "set ?is = {..<length cs}" using serial_order_perm [OF inv] by auto
  have len: "length ?is = length cs" "length cs = length ls"
    using distinct_card [OF p(1)] list_all2_lengthD [OF ls(1)] by (simp_all add: p(2))
  with ls(2) have ne: "map ((!) ls) ?is \<noteq> []" by (cases ?is) auto
  from serial_clients_see_the_last_ten_lines [OF i log list_all2_permuted [OF ls(1)] b, of ?is] p(2) ne
  obtain k' where k': "serve_all (chr_file h) (map ((!) cs) ?is) k =
      Some (Inr (map (\<lambda>i. concat (last_n 10 (hist (abs_log k) @ take (Suc i) (map ((!) ls) ?is)))) [0..<length ?is], k'))"
    "chr_inv h k'" "abs_log k' = \<lparr>hist = last_n 10 (hist (abs_log k) @ map ((!) ls) ?is), pend = []\<rparr>" by auto
  with conc_inv_serial [OF inv ret] have eq: "map (sent_to c) ?is =
      map (\<lambda>i. concat (last_n 10 (hist (abs_log k) @ take (Suc i) (map ((!) ls) ?is)))) [0..<length ?is]" "c_dev c = k'" by auto
  have "sent_to c (?is ! j) = concat (last_n 10 (hist (abs_log k) @ map ((!) ls) (take (Suc j) ?is)))" if "j < length cs" for j
    using arg_cong [OF eq(1), of "\<lambda>xs. xs ! j"] that len by (simp add: take_map)
  with k' eq(2) p show ?thesis by (auto simp: chr_inv_def)
qed

text \<open>
  Any number of clients at the same time, their threads interleaved in any way: no schedule blocks,
  and when no thread can move any more all have returned and there is an order of the clients
  such that each client that sent a complete line has received the last ten lines stored up to
  and including its own, and the device holds the last ten lines.
\<close>

theorem clients_see_the_last_ten_lines:
  assumes "host_ok h" "driver_inv k" "pend_ok k" "finite (dom (kmem k))" "pend (abs_log k) = []"
    "\<forall>x \<in> set (hist (abs_log k)). length x \<le> m"
    "list_all2 (\<lambda>c l. plain_client n (fst c) l \<and> length l \<le> m) cs ls" "m < 2 ^ 40 - 1" "10 * m \<le> n" "n < 2 ^ 63" "ls \<noteq> []"
    "(conc_step (chr_file h) cs)\<^sup>*\<^sup>* (conc_start cs k) c" "\<nexists>c'. conc_step (chr_file h) cs c c'"
  shows "all_returned c \<and> driver_inv (c_dev c) \<and>
    (\<exists>is. distinct is \<and> set is = {..<length cs} \<and>
      (\<forall>j < length cs. sent_to c (is ! j) = concat (last_n 10 (hist (abs_log k) @ map ((!) ls) (take (Suc j) is)))) \<and>
      abs_log (c_dev c) = \<lparr>hist = last_n 10 (hist (abs_log k) @ map ((!) ls) is), pend = []\<rparr>)"
proof -
  have i: "chr_inv h k" using assms(1-4) by (simp add: chr_inv_def)
  have sl: "chr.short_log h m k" using i assms(5,6) by (simp add: chr.short_log_def)
  have ret: "all_returned c"
    using never_stuck [OF assms(12) chr.plain_clients_served [OF assms(7-10)] sl] assms(13) by blast
  from returned_clients_saw_the_last_ten_lines [OF i assms(5-7,11,8-10) conc_inv_run [OF assms(12)] ret] ret show ?thesis by blast
qed

theorem clients_see_the_last_ten_lines_witness:
  "\<exists>c. (conc_step (chr_file ex_host) [(ex_tenv, ex_args), (ex_tenv, ex_args)])\<^sup>*\<^sup>*
      (conc_start [(ex_tenv, ex_args), (ex_tenv, ex_args)] ex_loaded) c \<and> all_returned c \<and>
    driver_inv (c_dev c) \<and> hist (abs_log (c_dev c)) = [''y'' @ [newline], ''y'' @ [newline]]"
proof -
  let ?cs = "[(ex_tenv, ex_args), (ex_tenv, ex_args)]" and ?l = "''y'' @ [newline]"
  have a: "abs_log ex_loaded = \<lparr>hist = [], pend = []\<rparr>" by code_simp
  have c: "length (client_sends ex_tenv) = 99" by (simp add: ex_tenv_def)
  have "plain_client 50 ex_tenv ?l"
    using ex_tenv_ok ex_tenv_line by (simp add: plain_client_def is_ctrl_line_def c)
  then have p: "list_all2 (\<lambda>c l. plain_client 50 (fst c) l \<and> length l \<le> 5) ?cs [?l, ?l]" by simp
  have k: "pend_ok ex_loaded" "finite (dom (kmem ex_loaded))" by (simp_all add: pend_ok_def ex_loaded_def ex_unloaded_def zero_dev_def)
  have "chr.short_log ex_host 5 ex_loaded" using k a ex_host_ok ex_loaded_inv by (simp add: chr.short_log_def chr_inv_def)
  from complete_run_exists [OF chr.plain_clients_served [OF p] this] obtain c where
    c: "(conc_step (chr_file ex_host) ?cs)\<^sup>*\<^sup>* (conc_start ?cs ex_loaded) c" "all_returned c" by auto
  have "\<nexists>c'. conc_step (chr_file ex_host) ?cs c c'"
    using returned_no_step [OF c(2)] by blast
  from clients_see_the_last_ten_lines [OF ex_host_ok ex_loaded_inv k _ _ p _ _ _ _ c(1) this] a obtain "is" where
    s: "distinct is" "set is = {..<length ?cs}" "driver_inv (c_dev c)"
      "abs_log (c_dev c) = \<lparr>hist = last_n 10 (map ((!) [?l, ?l]) is), pend = []\<rparr>" by auto
  have "map ((!) [?l, ?l]) is = map (\<lambda>_. ?l) is"
  proof (rule map_cong [OF refl])
    fix j assume "j \<in> set is"
    with s(2) have "j < Suc (Suc 0)" by simp
    then show "[?l, ?l] ! j = ?l" by (auto simp: less_Suc_eq)
  qed
  moreover have "length is = 2" using distinct_card [OF s(1)] by (simp add: s(2))
  ultimately have "map ((!) [?l, ?l]) is = [?l, ?l]" by (simp add: map_replicate_const numeral_2_eq_2)
  with c s show ?thesis by (intro exI [of _ c]) simp
qed

text \<open>
  The whole process over the driver, from \<open>is_running = true\<close> to the end of \<open>main\<close>: clients connect at
  any time, \<open>main\<close>, the client threads and signals interleave in any way. When \<open>main\<close> has ended, every
  client that sent a complete line has received the last ten lines stored up to and
  including its own, in one order for all, the device holds the last ten lines with its
  invariant intact, every thread has been joined once, every node freed and the listening
  socket closed.
\<close>

theorem server_process_serves_its_clients:
  assumes "host_ok h" "driver_inv k" "pend_ok k" "finite (dom (kmem k))" "pend (abs_log k) = []"
    "\<forall>x \<in> set (hist (abs_log k)). length x \<le> m" "m < 2 ^ 40 - 1" "10 * m \<le> n" "n < 2 ^ 63" "length ip = 46"
    "server_reach (chr_file h) bld fd [fd] (server_start (start_state env ip) (stack_fd env) k) s" "y_at s = Main_Done out"
    "list_all2 (\<lambda>c l. plain_client n (fst c) l \<and> length l \<le> m) (y_clients s) ls" "ls \<noteq> []"
  shows "heap (out_threads out) = Map.empty \<and> listening out = [] \<and>
    mset (out_joined out) = mset (map (thread_id \<circ> snd) (y_clients s)) \<and> driver_inv (c_dev (y_conc s)) \<and>
    (\<exists>is. distinct is \<and> set is = {..<length ls} \<and>
      (\<forall>j < length ls. sent_to (y_conc s) (is ! j) = concat (last_n 10 (hist (abs_log k) @ map ((!) ls) (take (Suc j) is)))) \<and>
      abs_log (c_dev (y_conc s)) = \<lparr>hist = last_n 10 (hist (abs_log k) @ map ((!) ls) is), pend = []\<rparr>)"
proof -
  have i: "chr_inv h k" using assms(1-4) by (simp add: chr_inv_def)
  have f: "fresh_main (start_state env ip)"
    using assms(10) by (simp add: fresh_main_def start_state_def Let_def SLIST_INIT_def empty_list_def SLIST_EMPTY_def)
  note d = server_done [OF assms(11) f assms(12)]
  from returned_clients_saw_the_last_ten_lines [OF i assms(5,6,13,14,7-9) d(1,2)] d list_all2_lengthD [OF assms(13)]
  show ?thesis by simp
qed

text \<open>A run with one client, stopped while its thread is being created.\<close>

lemma ex_start: "start_state ex_main (replicate 46 nul) = ex_fresh" "stack_fd ex_main = 0"
  by (simp_all add: start_state_def ex_main_def ex_fresh_def raise_term_def SLIST_INIT_def empty_list_def Let_def)

theorem server_process_serves_its_clients_witness:
  "\<exists>s out. server_reach (chr_file ex_host) ex_build 3 [3] (server_start (start_state ex_main (replicate 46 nul)) (stack_fd ex_main) ex_loaded) s \<and>
     y_at s = Main_Done out \<and> listening out = [] \<and> hist (abs_log (c_dev (y_conc s))) = [''y'' @ [newline]]"
proof -
  let ?l = "''y'' @ [newline]" and ?api = "chr_file ex_host" and ?s0 = "server_start (start_state ex_main (replicate 46 nul)) (stack_fd ex_main) ex_loaded"
  from one_client_accepted [of ?api ex_build 3 "[3]" ex_loaded] obtain s args where
    s: "server_reach ?api ex_build 3 [3] ?s0 s" "y_clients s = [(ex_tenv, args)]" "\<not> is_running (sigs (y_main s))"
    by (auto simp: ex_start)
  have a: "abs_log ex_loaded = \<lparr>hist = [], pend = []\<rparr>" by code_simp
  have "length (client_sends ex_tenv) = 99" by (simp add: ex_tenv_def)
  with ex_tenv_ok ex_tenv_line have "plain_client 50 ex_tenv ?l" by (simp add: plain_client_def is_ctrl_line_def)
  then have p: "list_all2 (\<lambda>c l. plain_client 50 (fst c) l \<and> length l \<le> 5) (y_clients s) [?l]" by (simp add: s(2))
  have k: "pend_ok ex_loaded" "finite (dom (kmem ex_loaded))" by (simp_all add: pend_ok_def ex_loaded_def ex_unloaded_def zero_dev_def)
  have sl: "chr.short_log ex_host 5 ex_loaded" using k a ex_host_ok ex_loaded_inv by (simp add: chr.short_log_def chr_inv_def)
  have "served_clients ?api (y_clients s) (\<lambda>k. chr.short_log ex_host 5)" by (rule chr.plain_clients_served [OF p]) simp_all
  moreover have "server_inv ?api ex_loaded s" using server_inv_reach [OF s(1)] ex_fresh_main by (simp add: ex_start)
  moreover have "sig_inv s" by (rule sig_inv_reach [OF s(1) sig_inv_start [OF start_state_sigs]])
  ultimately obtain s' out where
    s': "server_reach ?api ex_build 3 [3] s s'" "y_at s' = Main_Done out" "y_clients s' = y_clients s"
    using stopped_server_can_end [where ok = "\<lambda>k. chr.short_log ex_host 5", OF _ _ s(3) _ sl] by blast
  from server_reach_trans [OF s'(1) s(1)] have r: "server_reach ?api ex_build 3 [3] ?s0 s'" .
  from server_process_serves_its_clients [OF ex_host_ok ex_loaded_inv k _ _ _ _ _ _ r s'(2) p [folded s'(3)]] a obtain "is" where
    i: "listening out = []" "distinct is" "set is = {..<Suc 0}" "abs_log (c_dev (y_conc s')) = \<lparr>hist = last_n 10 (map ((!) [?l]) is), pend = []\<rparr>"
    by auto
  have "length is = 1" using distinct_card [OF i(2)] by (simp add: i(3))
  with i(3) have "is = [0]" by (cases "is") auto
  with r s'(2) i(1,4) show ?thesis by (intro exI [of _ s'] exI [of _ out]) simp
qed


lemma list_all2_choice: "\<forall>x \<in> set xs. \<exists>y. P x y \<Longrightarrow> \<exists>ys. list_all2 P xs ys"
  by (induction xs) (auto simp: list_all2_Cons1)

text \<open>
  C2: The whole process over the driver, fairly scheduled: clients connect at any time, or not at all any
  more, and send complete lines, \<open>main\<close>, the client threads and signals interleave in any way in which
  no thread that can move is neglected for ever. Some time after a terminating signal \<open>main\<close> ends, even if
  it was waiting in \<open>accept\<close> and no client connects again; by then every client has received the
  last ten lines stored up to and including its own, in one order for all, the device holds the
  last ten lines with its invariant intact, every thread has been joined once, every node freed
  and the listening socket closed.
\<close>

theorem fair_process_serves_and_stops:
  assumes "host_ok h" "driver_inv k" "pend_ok k" "finite (dom (kmem k))" "pend (abs_log k) = []"
    "\<forall>x \<in> set (hist (abs_log k)). length x \<le> m" "m < 2 ^ 40 - 1" "10 * m \<le> n" "n < 2 ^ 63" "length ip = 46"
    "run_of (acts (chr_file h) bld fd [fd]) who run" "run 0 = server_start (start_state env ip) (stack_fd env) k"
    "\<forall>a. a \<noteq> By_Signal \<longrightarrow> a \<noteq> By_Network \<longrightarrow> fair_to (acts (chr_file h) bld fd [fd]) a who run"
    "\<forall>t. \<forall>c \<in> set (y_clients (run t)). \<exists>l. plain_client n (fst c) l \<and> length l \<le> m"
    "\<not> is_running (sigs (y_main (run i)))" "y_clients (run i) \<noteq> []"
  shows "\<exists>j out ls is. i \<le> j \<and> y_at (run j) = Main_Done out \<and> heap (out_threads out) = Map.empty \<and> listening out = [] \<and>
    mset (out_joined out) = mset (map (thread_id \<circ> snd) (y_clients (run j))) \<and> driver_inv (c_dev (y_conc (run j))) \<and>
    list_all2 (\<lambda>c l. client_line (fst c) l) (y_clients (run j)) ls \<and> distinct is \<and> set is = {..<length ls} \<and>
    (\<forall>t < length ls. sent_to (y_conc (run j)) (is ! t) = concat (last_n 10 (hist (abs_log k) @ map ((!) ls) (take (Suc t) is)))) \<and>
    abs_log (c_dev (y_conc (run j))) = \<lparr>hist = last_n 10 (hist (abs_log k) @ map ((!) ls) is), pend = []\<rparr>"
proof -
  have ci: "chr_inv h k" using assms(1-4) by (simp add: chr_inv_def)
  have f: "fresh_main (start_state env ip)"
    using assms(10) by (simp add: fresh_main_def start_state_def Let_def SLIST_INIT_def empty_list_def SLIST_EMPTY_def)
  have reach: "server_reach (chr_file h) bld fd [fd] (server_start (start_state env ip) (stack_fd env) k) (run t)" for t
    using run_reach [OF assms(11), of t] assms(12) by simp
  let ?P = "\<lambda>c l. plain_client n (fst c) l \<and> length l \<le> m"
  have lines: "\<exists>ls. list_all2 ?P (y_clients (run t)) ls" for t using list_all2_choice [of _ ?P] assms(14) by blast
  have served: "served_clients (chr_file h) (y_clients (run t)) (\<lambda>_. chr.short_log h m)" for t
    using lines [of t] chr.plain_clients_served [OF _ assms(7-9)] by blast
  have sl: "chr.short_log h m k" using ci assms(5,6) by (simp add: chr.short_log_def)
  obtain j out where j: "i \<le> j" "y_at (run j) = Main_Done out"
    using fair_server_ends [where ok = "\<lambda>_. chr.short_log h m", OF assms(11) server_inv_reach [OF reach f]
        sig_inv_reach [OF reach sig_inv_start [OF start_state_sigs]] _ assms(15) served sl]
      assms(13) by blast
  note d = server_done [OF reach f j(2)]
  obtain ls where ls: "list_all2 ?P (y_clients (run j)) ls" using lines by blast
  have "set (y_clients (run i)) \<subseteq> set (y_clients (run j))"
    by (rule run_keeps [OF assms(11), of "\<lambda>s. set (y_clients (run i)) \<subseteq> set (y_clients s)", OF _ _ j(1)]) (use acts_clients in blast)+
  with assms(16) ls have "ls \<noteq> []" by (cases "y_clients (run j)") auto
  from returned_clients_saw_the_last_ten_lines [OF ci assms(5,6) ls this assms(7-9) d(1,2)] obtain "is" where
    o: "driver_inv (c_dev (y_conc (run j)))" "distinct is" "set is = {..<length ls}"
      "\<forall>t < length ls. sent_to (y_conc (run j)) (is ! t) = concat (last_n 10 (hist (abs_log k) @ map ((!) ls) (take (Suc t) is)))"
      "abs_log (c_dev (y_conc (run j))) = \<lparr>hist = last_n 10 (hist (abs_log k) @ map ((!) ls) is), pend = []\<rparr>"
    unfolding list_all2_lengthD [OF ls] by blast
  have "list_all2 (\<lambda>c l. client_line (fst c) l) (y_clients (run j)) ls"
    by (rule list_all2_mono [OF ls]) (simp add: plain_client_def)
  with o j d(3-5) show ?thesis by blast
qed

theorem fair_process_serves_and_stops_witness:
  "\<exists>who run i j out. run_of (acts (chr_file ex_host) ex_build 3 [3]) who run \<and>
     run 0 = server_start (start_state ex_main (replicate 46 nul)) (stack_fd ex_main) ex_loaded \<and> y_at (run i) = At_Link 1 \<and>
     i \<le> j \<and> y_at (run j) = Main_Done out \<and> listening out = [] \<and> driver_inv (c_dev (y_conc (run j)))"
proof -
  let ?l = "''y'' @ [newline]" and ?api = "chr_file ex_host" and ?s0 = "server_start (start_state ex_main (replicate 46 nul)) (stack_fd ex_main) ex_loaded"
  let ?acts = "acts ?api ex_build 3 [3]"
  from one_client_accepted [of ?api ex_build 3 "[3]" ex_loaded] obtain s args where
    s: "server_reach ?api ex_build 3 [3] ?s0 s" "y_clients s = [(ex_tenv, args)]" "\<not> is_running (sigs (y_main s))" "y_at s = At_Link 1"
    by (auto simp: ex_start)
  have a: "abs_log ex_loaded = \<lparr>hist = [], pend = []\<rparr>" by code_simp
  have "length (client_sends ex_tenv) = 99" by (simp add: ex_tenv_def)
  with ex_tenv_ok ex_tenv_line have pl: "plain_client 50 ex_tenv ?l" by (simp add: plain_client_def is_ctrl_line_def)
  then have p: "list_all2 (\<lambda>c l. plain_client 50 (fst c) l \<and> length l \<le> 5) (y_clients s) [?l]" by (simp add: s(2))
  have k: "pend_ok ex_loaded" "finite (dom (kmem ex_loaded))" by (simp_all add: pend_ok_def ex_loaded_def ex_unloaded_def zero_dev_def)
  have sl: "chr.short_log ex_host 5 ex_loaded" using k a ex_host_ok ex_loaded_inv by (simp add: chr.short_log_def chr_inv_def)
  have fr: "fresh_main (start_state ex_main (replicate 46 nul))" using ex_fresh_main by (simp add: ex_start)
  have "served_clients ?api (y_clients s) (\<lambda>k. chr.short_log ex_host 5)" by (rule chr.plain_clients_served [OF p]) simp_all
  then obtain s' out where
    s': "server_reach ?api ex_build 3 [3] s s'" "y_at s' = Main_Done out" "y_clients s' = y_clients s"
    using stopped_server_can_end [where ok = "\<lambda>k. chr.short_log ex_host 5", OF server_inv_reach [OF s(1) fr]
        sig_inv_reach [OF s(1) sig_inv_start [OF start_state_sigs]] s(3) _ sl] by blast
  have "all_returned (y_conc s')" by (rule server_done(2) [OF server_reach_trans [OF s'(1) s(1)] fr s'(2)])
  from run_through [OF s(1) s'(1,2) this] obtain who run i where
    ri: "run i = s" "run 0 = ?s0" "run_of ?acts who run" "\<forall>a. a \<noteq> By_Signal \<longrightarrow> a \<noteq> By_Network \<longrightarrow> fair_to ?acts a who run"
    and clients: "\<And>t. set (y_clients (run t)) \<subseteq> {(ex_tenv, args)}" unfolding s'(3) s(2) by auto
  have c: "\<forall>t. \<forall>c \<in> set (y_clients (run t)). \<exists>l. plain_client 50 (fst c) l \<and> length l \<le> 5"
  proof (intro allI ballI exI [of _ ?l])
    fix t c assume "c \<in> set (y_clients (run t))"
    with clients [of t] have "c = (ex_tenv, args)" by auto
    then show "plain_client 50 (fst c) ?l \<and> length ?l \<le> 5" using pl by simp
  qed
  have n: "\<not> is_running (sigs (y_main (run i)))" "y_clients (run i) \<noteq> []" using ri(1) s(2,3) by simp_all
  from fair_process_serves_and_stops [OF ex_host_ok ex_loaded_inv k _ _ _ _ _ _ ri(3,2,4) c n] a
  obtain j out' where "i \<le> j" "y_at (run j) = Main_Done out'" "listening out' = []" "driver_inv (c_dev (y_conc (run j)))" by auto
  with ri s(4) show ?thesis by (intro exI [of _ who] exI [of _ run] exI [of _ i] exI [of _ j] exI [of _ out']) simp
qed

end
